(* ===== verification/Prelude.thy ===== *)
theory Prelude
  imports Main "HOL-Library.Word"
begin

text \<open>
  Shared vocabulary of the development: the machine integers and byte strings of the Rust
  sources, the pieces of the Rust standard library the sources use on them (rotations, shifts,
  little-endian conversions, \<^verbatim>\<open>slice::chunks\<close>, the indexed xor loop,
  \<^verbatim>\<open>copy_from_slice\<close>), the outcome type that turns panics and endless loops into values, and
  the lemma collections the component theories rely on.
\<close>

unbundle bit_operations_syntax

named_theorems word_eval \<open>rewrite rules that compute word operations on numerals\<close>
named_theorems len_simps \<open>lengths of the byte buffers produced by the operations\<close>

section \<open>Machine types\<close>

type_synonym u8 = "8 word"
type_synonym u16 = "16 word"
type_synonym u32 = "32 word"
type_synonym u64 = "64 word"
type_synonym bytes = "u8 list"

text \<open>A byte string literal.\<close>

definition bstr :: "string \<Rightarrow> bytes" where
  "bstr s = map of_char s"

text \<open>
  What running a piece of Rust code can end in: a value, a panic (index out of bounds, a failed
  assertion, a remainder by zero, an unwrap of nothing, a future polled again after it completed, a
  failed read of the wake pipe, code marked unreachable or unimplemented, a
  panic with a message of its own), or an endless loop.
\<close>

datatype panic =
    IndexOutOfBounds | AssertFailed | RemainderByZero | UnwrapFailed | PolledAfterCompletion | ReadFailed |
    Unreachable | Unimplemented | Message string

datatype 'a exec = Done 'a | Panic panic | Diverges

section \<open>Results that may panic\<close>

definition exec_bind :: "'a exec \<Rightarrow> ('a \<Rightarrow> 'b exec) \<Rightarrow> 'b exec" where
  "exec_bind r f = (case r of Done x \<Rightarrow> f x | Panic p \<Rightarrow> Panic p | Diverges \<Rightarrow> Diverges)"

lemma exec_bind_simps [simp]:
  "exec_bind (Done x) f = f x" "exec_bind (Panic p) f = Panic p" "exec_bind Diverges f = Diverges"
  by (simp_all add: exec_bind_def)

definition unwrap :: "'a option \<Rightarrow> 'a exec" where
  "unwrap x = (case x of Some y \<Rightarrow> Done y | None \<Rightarrow> Panic UnwrapFailed)"

lemma unwrap_simps [simp]: "unwrap (Some y) = Done y" "unwrap None = Panic UnwrapFailed"
  by (simp_all add: unwrap_def)

fun traverse :: "('a \<Rightarrow> 'b exec) \<Rightarrow> 'a list \<Rightarrow> 'b list exec" where
  "traverse f [] = Done []"
| "traverse f (x # xs) = exec_bind (f x) (\<lambda>y. exec_bind (traverse f xs) (\<lambda>ys. Done (y # ys)))"

lemma exec_bind_Done: "exec_bind r f = Done y \<longleftrightarrow> (\<exists>x. r = Done x \<and> f x = Done y)"
  by (cases r) simp_all

lemma unwrap_Done: "unwrap x = Done y \<longleftrightarrow> x = Some y"
  by (cases x) simp_all

lemma traverse_Done: "traverse f xs = Done ys \<longleftrightarrow> list_all2 (\<lambda>x y. f x = Done y) xs ys"
  by (induction xs arbitrary: ys) (auto simp: exec_bind_Done list_all2_Cons1)

lemma traverse_image:
  assumes "traverse f xs = Done ys" and "y \<in> set ys"
  shows "\<exists>x. x \<in> set xs \<and> f x = Done y"
  using assms unfolding traverse_Done by (auto simp: list_all2_conv_all_nth in_set_conv_nth)

section \<open>Rotations and shifts\<close>

definition rotate_left :: "'a::len word \<Rightarrow> nat \<Rightarrow> 'a word" where
  "rotate_left w n = word_rotl n w"

definition rotate_right :: "'a::len word \<Rightarrow> nat \<Rightarrow> 'a word" where
  "rotate_right w n = word_rotr n w"

definition shl :: "'a::len word \<Rightarrow> nat \<Rightarrow> 'a word" where
  "shl w n = push_bit n w"

lemma rotate_left_right [simp]: "rotate_left (rotate_right w n) n = w"
  by (simp add: rotate_left_def rotate_right_def)

lemma rotate_right_left [simp]: "rotate_right (rotate_left w n) n = w"
  by (simp add: rotate_left_def rotate_right_def)

lemma word_rotl_shifts:
  assumes "0 < n" and "n < LENGTH('a)"
  shows "word_rotl n (w :: 'a::len word) = push_bit n w OR drop_bit (LENGTH('a) - n) w"
proof (rule bit_word_eqI)
  fix i
  assume i: "i < LENGTH('a)"
  have nm: "n mod LENGTH('a) = n" using assms by simp
  show "bit (word_rotl n w) i \<longleftrightarrow> bit (push_bit n w OR drop_bit (LENGTH('a) - n) w) i"
  proof (cases "i < n")
    case True
    then have "(i + (LENGTH('a) - n)) mod LENGTH('a) = i + (LENGTH('a) - n)"
      using assms i by simp
    then show ?thesis
      using True i assms nm
      by (auto simp: bit_word_rotl_iff bit_or_iff bit_push_bit_iff bit_drop_bit_eq ac_simps)
  next
    case False
    then have "i + (LENGTH('a) - n) = LENGTH('a) + (i - n)" using assms i by simp
    then have "(i + (LENGTH('a) - n)) mod LENGTH('a) = (i - n) mod LENGTH('a)"
      by (simp only: mod_add_self1)
    then have "(i + (LENGTH('a) - n)) mod LENGTH('a) = i - n" using i by simp
    then show ?thesis
      using False i assms nm
      by (auto simp: bit_word_rotl_iff bit_or_iff bit_push_bit_iff bit_drop_bit_eq ac_simps
          dest: bit_imp_le_length)
  qed
qed

text \<open>
  A shift of a numeral does not reduce it modulo the width; masking the bits that fall off first
  keeps concrete evaluations small.
\<close>

lemma push_bit_masked:
  "push_bit n (w :: 'a::len word) = push_bit n (w AND mask (LENGTH('a) - n))"
  by (rule bit_word_eqI) (auto simp: bit_push_bit_iff bit_and_iff bit_mask_iff)

lemma shl_eval [word_eval]:
  "shl (w :: 'a::len word) n = push_bit n (w AND mask (LENGTH('a) - n))"
  unfolding shl_def by (rule push_bit_masked)

lemma rotate_left_eval [word_eval]:
  "0 < n \<Longrightarrow> n < LENGTH('a) \<Longrightarrow> rotate_left (w :: 'a::len word) n =
     push_bit n (w AND mask (LENGTH('a) - n)) OR drop_bit (LENGTH('a) - n) w"
  unfolding rotate_left_def by (subst push_bit_masked [symmetric]) (rule word_rotl_shifts)

lemma rotate_right_eval [word_eval]:
  assumes "0 < n" and "n < LENGTH('a)"
  shows "rotate_right (w :: 'a::len word) n =
     push_bit (LENGTH('a) - n) (w AND mask n) OR drop_bit n w"
proof -
  have "word_rotr n w = word_rotl (LENGTH('a) - n) w"
    using assms by (simp add: word_rotl_eq_word_rotr)
  then have "rotate_right w n = rotate_left w (LENGTH('a) - n)"
    by (simp add: rotate_left_def rotate_right_def)
  then show ?thesis using assms rotate_left_eval [of "LENGTH('a) - n" w] by simp
qed

declare mask_numeral [word_eval]

section \<open>Little-endian byte strings\<close>

text \<open>\<open>to_le_bytes n w\<close> is \<^verbatim>\<open>w.to_le_bytes()\<close> for an integer type of \<open>n\<close> bytes.\<close>

fun to_le_bytes :: "nat \<Rightarrow> 'a::len word \<Rightarrow> bytes" where
  "to_le_bytes 0 w = []"
| "to_le_bytes (Suc n) w = ucast w # to_le_bytes n (drop_bit 8 w)"

fun from_le_bytes :: "bytes \<Rightarrow> 'a::len word" where
  "from_le_bytes [] = 0"
| "from_le_bytes (b # bs) = ucast b OR push_bit 8 (from_le_bytes bs)"

lemma length_to_le_bytes [simp, len_simps]: "length (to_le_bytes n w) = n"
  by (induction n arbitrary: w) simp_all

lemma from_to_le_bytes_take:
  "(from_le_bytes (to_le_bytes n w) :: 'a::len word) = take_bit (8 * n) w"
proof (induction n arbitrary: w)
  case 0
  then show ?case by simp
next
  case (Suc n)
  show ?case
  proof (rule bit_word_eqI)
    fix i
    assume i: "i < LENGTH('a)"
    show "bit (from_le_bytes (to_le_bytes (Suc n) w) :: 'a word) i \<longleftrightarrow>
        bit (take_bit (8 * Suc n) w) i"
      using i
      by (cases "i < 8")
        (auto simp: Suc.IH bit_or_iff bit_push_bit_iff bit_take_bit_iff bit_drop_bit_eq
          bit_ucast_iff)
  qed
qed

lemma from_to_le_bytes [simp]:
  "8 * n = LENGTH('a) \<Longrightarrow> from_le_bytes (to_le_bytes n w) = (w :: 'a::len word)"
  by (simp add: from_to_le_bytes_take)

lemma to_from_le_bytes [simp]:
  "length bs = n \<Longrightarrow> 8 * n \<le> LENGTH('a) \<Longrightarrow>
   to_le_bytes n (from_le_bytes bs :: 'a::len word) = bs"
proof (induction bs arbitrary: n)
  case Nil
  then show ?case by simp
next
  case (Cons b bs)
  then obtain m where n: "n = Suc m" and m: "length bs = m" by auto
  let ?r = "from_le_bytes bs :: 'a word"
  have lo: "ucast (ucast b OR push_bit 8 ?r :: 'a word) = b"
    using Cons.prems n
    by (intro bit_word_eqI) (auto simp: bit_ucast_iff bit_or_iff bit_push_bit_iff)
  have "to_le_bytes m (drop_bit 8 (ucast b OR push_bit 8 ?r :: 'a word)) = to_le_bytes m ?r"
  proof -
    have take: "to_le_bytes k (v :: 'a word) = to_le_bytes k (take_bit (8 * k) v)" for k v
    proof (induction k arbitrary: v)
      case 0
      then show ?case by simp
    next
      case (Suc k)
      have "ucast v = (ucast (take_bit (8 * Suc k) v) :: u8)"
        by (intro bit_word_eqI) (auto simp: bit_ucast_iff bit_take_bit_iff)
      moreover have "drop_bit 8 (take_bit (8 * Suc k) v) = take_bit (8 * k) (drop_bit 8 v)"
        by (simp add: drop_bit_take_bit)
      ultimately show ?case using Suc.IH [of "drop_bit 8 v"] by simp
    qed
    have "take_bit (8 * m) (drop_bit 8 (ucast b OR push_bit 8 ?r :: 'a word)) =
        take_bit (8 * m) ?r"
      using Cons.prems n
      by (intro bit_word_eqI)
        (auto simp: bit_take_bit_iff bit_drop_bit_eq bit_or_iff bit_push_bit_iff bit_ucast_iff
          dest: bit_imp_le_length)
    then show ?thesis by (metis take)
  qed
  also have "\<dots> = bs" using Cons n m by simp
  finally show ?case using lo n by simp
qed

lemma to_le_bytes_inject:
  "8 * n = LENGTH('a) \<Longrightarrow> to_le_bytes n v = to_le_bytes n (w :: 'a::len word) \<longleftrightarrow> v = w"
  by (metis from_to_le_bytes)

lemma to_le_bytes_2: "to_le_bytes 2 w = [ucast w, ucast (drop_bit 8 w)]"
  by (simp add: eval_nat_numeral drop_bit_drop_bit)

lemma to_le_bytes_4: "to_le_bytes 4 w =
  [ucast w, ucast (drop_bit 8 w), ucast (drop_bit 16 w), ucast (drop_bit 24 w)]"
  by (simp add: eval_nat_numeral drop_bit_drop_bit)

lemma to_le_bytes_8: "to_le_bytes 8 w =
  [ucast w, ucast (drop_bit 8 w), ucast (drop_bit 16 w), ucast (drop_bit 24 w),
   ucast (drop_bit 32 w), ucast (drop_bit 40 w), ucast (drop_bit 48 w), ucast (drop_bit 56 w)]"
  by (simp add: eval_nat_numeral drop_bit_drop_bit)

lemma unat_u8_less [simp]: "unat (b :: u8) < 256"
  using unsigned_less [of b] by simp

lemma unat_u16_le: "unat (b :: u16) \<le> 65535"
  using unsigned_less [of b, where 'a = nat] by simp

section \<open>Slices\<close>

text \<open>\<^verbatim>\<open>slice.chunks(n)\<close>: pieces of \<open>n\<close> elements, the last one possibly shorter.\<close>

function chunks :: "nat \<Rightarrow> 'a list \<Rightarrow> 'a list list" where
  "chunks n xs = (if n = 0 \<or> xs = [] then [] else take n xs # chunks n (drop n xs))"
  by pat_completeness auto
termination
  by (relation "measure (\<lambda>(n, xs). length xs)") auto

declare chunks.simps [simp del]

lemma chunks_Nil [simp]: "chunks n [] = []"
  by (simp add: chunks.simps)

lemma chunks_single: "xs \<noteq> [] \<Longrightarrow> length xs \<le> n \<Longrightarrow> chunks n xs = [xs]"
  by (cases "n = 0") (simp_all add: chunks.simps [of n xs])

lemma concat_chunks: "0 < n \<Longrightarrow> concat (chunks n xs) = xs"
proof (induction n xs rule: chunks.induct)
  case (1 n xs)
  then show ?case by (cases "xs = []") (simp_all add: chunks.simps [of n xs])
qed

lemma chunks_length: "c \<in> set (chunks n xs) \<Longrightarrow> length c \<le> n"
proof (induction n xs rule: chunks.induct)
  case (1 n xs)
  then show ?case
    by (cases "n = 0 \<or> xs = []") (auto simp: chunks.simps [of n xs])
qed

text \<open>
  The loop \<^verbatim>\<open>for (i, c) in chunk.iter().enumerate() { buf[i] ^= *c; }\<close>. Every caller has a chunk
  no longer than its buffer, so no index is out of range.
\<close>

definition xor_into :: "bytes \<Rightarrow> bytes \<Rightarrow> bytes" where
  "xor_into chunk buf = fold (\<lambda>(i, c) b. b[i := b ! i XOR c]) (enumerate 0 chunk) buf"

lemma length_xor_fold:
  "length (fold (\<lambda>(i, c) b. b[i := b ! i XOR c]) ics (buf :: bytes)) = length buf"
  by (induction ics arbitrary: buf) auto

lemma length_xor_into [simp, len_simps]: "length (xor_into chunk buf) = length buf"
  by (simp add: xor_into_def length_xor_fold)

lemma nth_xor_fold:
  assumes "n + length chunk \<le> length buf" and "i < length (buf :: bytes)"
  shows "fold (\<lambda>(i, c) b. b[i := b ! i XOR c]) (enumerate n chunk) buf ! i =
    (if n \<le> i \<and> i < n + length chunk then buf ! i XOR chunk ! (i - n) else buf ! i)"
  using assms
proof (induction chunk arbitrary: n buf)
  case Nil
  then show ?case by auto
next
  case (Cons c chunk)
  then show ?case by (auto simp: nth_Cons' nth_list_update)
qed

lemma nth_xor_into:
  "length chunk \<le> length buf \<Longrightarrow> i < length buf \<Longrightarrow>
   xor_into chunk buf ! i = (if i < length chunk then buf ! i XOR chunk ! i else buf ! i)"
  unfolding xor_into_def by (subst nth_xor_fold) auto

lemma word_xor_cancel: "a XOR b = a XOR c \<longleftrightarrow> b = (c :: 'a::len word)"
  by (metis bit.xor_left_self)

lemma word_xor_cancel2: "b XOR a = c XOR a \<longleftrightarrow> b = (c :: 'a::len word)"
  by (metis word_xor_cancel xor.commute)

lemma xor_into_inject:
  assumes "length c1 = length c2" and "length c1 \<le> length buf"
    and eq: "xor_into c1 buf = xor_into c2 buf"
  shows "c1 = c2"
proof (rule nth_equalityI)
  show "length c1 = length c2" by fact
  fix i
  assume i: "i < length c1"
  have "xor_into c1 buf ! i = xor_into c2 buf ! i" by (rule arg_cong [OF eq])
  then show "c1 ! i = c2 ! i" using i assms(1,2) by (simp add: nth_xor_into word_xor_cancel)
qed

lemma xor_into_inject_buf:
  assumes "length b1 = length b2" and "length c \<le> length b1"
    and eq: "xor_into c b1 = xor_into c b2"
  shows "b1 = b2"
proof (rule nth_equalityI)
  show "length b1 = length b2" by fact
  fix i
  assume i: "i < length b1"
  have "xor_into c b1 ! i = xor_into c b2 ! i" by (rule arg_cong [OF eq])
  then show "b1 ! i = b2 ! i"
    using i assms(1,2) by (simp add: nth_xor_into word_xor_cancel2 split: if_splits)
qed

lemma append_sep_inject:
  "x \<notin> set xs \<Longrightarrow> x \<notin> set xs' \<Longrightarrow> xs @ x # ys = xs' @ x # ys' \<longleftrightarrow> xs = xs' \<and> ys = ys'"
proof (induction xs arbitrary: xs')
  case Nil
  then show ?case by (cases xs') auto
next
  case (Cons a xs)
  then show ?case by (cases xs') auto
qed

text \<open>\<^verbatim>\<open>buf[off..off+src.len()].copy_from_slice(src)\<close>, for a range inside the buffer.\<close>

definition copy_from_slice :: "nat \<Rightarrow> 'a list \<Rightarrow> 'a list \<Rightarrow> 'a list" where
  "copy_from_slice off src buf = take off buf @ src @ drop (off + length src) buf"

lemma length_copy_from_slice [simp, len_simps]:
  "off + length src \<le> length buf \<Longrightarrow> length (copy_from_slice off src buf) = length buf"
  by (simp add: copy_from_slice_def)

text \<open>\<^verbatim>\<open>buf[i..j]\<close>, which panics when the range does not lie inside the slice.\<close>

definition slice_range :: "nat \<Rightarrow> nat \<Rightarrow> 'a list \<Rightarrow> 'a list option" where
  "slice_range i j xs = (if i \<le> j \<and> j \<le> length xs then Some (take (j - i) (drop i xs)) else None)"

lemma slice_range_length: "slice_range i j xs = Some ys \<Longrightarrow> length ys = j - i"
  by (auto simp: slice_range_def split: if_splits)

end
