(* ===== verification/Seen_Packets.thy ===== *)
theory Seen_Packets
  imports Prelude
begin

text \<open>
  Duplicate suppression, \<^verbatim>\<open>rust/src/seen_packets.rs\<close>: a hash set of packet hashes together with a
  deque that remembers their order, so that the oldest is forgotten when the capacity is exceeded.
  The packet hash (\<^verbatim>\<open>rustc_hash::FxHasher\<close> over the packet) is a parameter \<open>fx\<close> of the operations;
  nothing is assumed about it. The hash set keeps 64-bit keys and is modelled by a set, the deque
  by a list with its front at the head. The contract of the filter is the locale
  \<open>packet_filter\<close>.
\<close>

section \<open>The hasher of the hash set\<close>

record IdentityHasher =
  hasher_state :: u64

definition IdentityHasher_finish :: "IdentityHasher \<Rightarrow> u64" where
  "IdentityHasher_finish h = hasher_state h"

definition IdentityHasher_write :: "bytes \<Rightarrow> IdentityHasher \<Rightarrow> IdentityHasher exec" where
  "IdentityHasher_write _ _ = Panic Unreachable"

definition IdentityHasher_write_u64 :: "u64 \<Rightarrow> IdentityHasher \<Rightarrow> IdentityHasher" where
  "IdentityHasher_write_u64 i h = h\<lparr>hasher_state := i\<rparr>"

definition build_hasher :: "IdentityHasher \<Rightarrow> IdentityHasher" where
  "build_hasher _ = \<lparr>hasher_state = 0\<rparr>"

text \<open>A 64-bit key is hashed to itself, whatever the builder.\<close>

lemma identity_hash: "IdentityHasher_finish (IdentityHasher_write_u64 i (build_hasher h)) = i"
  by (simp add: IdentityHasher_finish_def IdentityHasher_write_u64_def build_hasher_def)

section \<open>The filter\<close>

record SeenPackets =
  hashset :: "u64 set"
  deque :: "u64 list"
  capacity :: nat

definition SeenPackets_new :: "nat \<Rightarrow> SeenPackets" where
  "SeenPackets_new n = \<lparr>hashset = {}, deque = [], capacity = n\<rparr>"

text \<open>Eviction of the oldest hash when the deque has grown past the capacity.\<close>

definition evict :: "SeenPackets \<Rightarrow> SeenPackets" where
  "evict s =
    (if capacity s < length (deque s) then
       (case deque s of
          [] \<Rightarrow> s
        | old_hash # rest \<Rightarrow> s\<lparr>deque := rest, hashset := hashset s - {old_hash}\<rparr>)
     else s)"

definition seen_add :: "(bytes \<Rightarrow> u64) \<Rightarrow> bytes \<Rightarrow> SeenPackets \<Rightarrow> bool \<times> SeenPackets" where
  "seen_add fx packet s =
    (let hash = fx packet
     in if hash \<notin> hashset s then
          (False, evict (s\<lparr>hashset := insert hash (hashset s), deque := deque s @ [hash]\<rparr>))
        else (True, s))"

definition seen_contains :: "(bytes \<Rightarrow> u64) \<Rightarrow> SeenPackets \<Rightarrow> bytes \<Rightarrow> bool" where
  "seen_contains fx s packet = (fx packet \<in> hashset s)"

section \<open>Invariant and abstract window\<close>

text \<open>Set and deque hold the same hashes, each once, and no more than the capacity.\<close>

definition seen_inv :: "SeenPackets \<Rightarrow> bool" where
  "seen_inv s \<longleftrightarrow> hashset s = set (deque s) \<and> distinct (deque s) \<and> length (deque s) \<le> capacity s"

text \<open>The specification: a list of the last \<open>n\<close> distinct hashes.\<close>

definition window_add :: "nat \<Rightarrow> u64 \<Rightarrow> u64 list \<Rightarrow> bool \<times> u64 list" where
  "window_add n h w =
    (if h \<in> set w then (True, w) else (False, drop (length w + 1 - n) (w @ [h])))"

lemma seen_inv_new: "seen_inv (SeenPackets_new n)"
  by (simp add: seen_inv_def SeenPackets_new_def)

lemma capacity_evict [simp]: "capacity (evict s) = capacity s"
  by (auto simp: evict_def split: list.split)

lemma deque_evict: "deque (evict s) = (if capacity s < length (deque s) then tl (deque s) else deque s)"
  by (auto simp: evict_def split: list.split)

lemma capacity_seen_add [simp]: "capacity (snd (seen_add fx p s)) = capacity s"
  by (simp add: seen_add_def Let_def)

lemma seen_inv_add: "seen_inv s \<Longrightarrow> seen_inv (snd (seen_add fx p s))"
  by (cases "deque s") (auto simp: seen_inv_def seen_add_def evict_def Let_def)

lemma deque_seen_add:
  assumes "seen_inv s"
  shows "(fst (seen_add fx p s), deque (snd (seen_add fx p s))) =
    window_add (capacity s) (fx p) (deque s)"
proof (cases "fx p \<in> hashset s")
  case True
  then show ?thesis using assms by (simp add: seen_inv_def seen_add_def window_add_def Let_def)
next
  case False
  have set: "hashset s = set (deque s)" using assms by (simp add: seen_inv_def)
  show ?thesis
  proof (cases "length (deque s) = capacity s")
    case True
    then show ?thesis
      using False set
      by (cases "deque s") (auto simp: seen_add_def window_add_def deque_evict Let_def)
  next
    case notfull: False
    then have "Suc (length (deque s)) \<le> capacity s" using assms by (simp add: seen_inv_def)
    then show ?thesis
      using False set by (simp add: seen_add_def window_add_def deque_evict Let_def)
  qed
qed

section \<open>The contract of a duplicate filter\<close>

locale packet_filter =
  fixes add :: "'p \<Rightarrow> 's \<Rightarrow> bool \<times> 's"
    and seen :: "'s \<Rightarrow> 'p \<Rightarrow> bool"
    and inv :: "'s \<Rightarrow> bool"
    and cap :: "'s \<Rightarrow> nat"
  assumes add_inv: "inv s \<Longrightarrow> inv (snd (add p s))"
    and add_cap: "cap (snd (add p s)) = cap s"
    and add_answer: "inv s \<Longrightarrow> fst (add p s) = seen s p"
    and add_known: "seen s p \<Longrightarrow> snd (add p s) = s"
    and add_seen: "inv s \<Longrightarrow> 0 < cap s \<Longrightarrow> seen (snd (add p s)) p"
begin

text \<open>Offering the same packet again right away is answered by "seen" and changes nothing.\<close>

lemma add_twice:
  assumes "inv s" and "0 < cap s"
  shows "add p (snd (add p s)) = (True, snd (add p s))"
  using assms by (intro prod_eqI) (simp_all add: add_answer add_inv add_known add_seen)

text \<open>A run of the filter over a sequence of packets keeps the invariant and the capacity.\<close>

lemma inv_run: "inv s \<Longrightarrow> inv (fold (\<lambda>p s. snd (add p s)) ps s)"
  by (induction ps arbitrary: s) (simp_all add: add_inv)

lemma cap_run: "cap (fold (\<lambda>p s. snd (add p s)) ps s) = cap s"
  by (induction ps arbitrary: s) (simp_all add: add_cap)

end

interpretation sp: packet_filter "seen_add fx" "seen_contains fx" seen_inv capacity
  for fx
proof
  fix s p
  assume "seen_inv s"
  then show "seen_inv (snd (seen_add fx p s))" by (rule seen_inv_add)
next
  fix s p
  assume "seen_inv s" and "0 < capacity s"
  then show "seen_contains fx (snd (seen_add fx p s)) p"
    by (cases "deque s") (auto simp: seen_inv_def seen_add_def seen_contains_def evict_def Let_def)
qed (auto simp: seen_add_def seen_contains_def Let_def)

section \<open>How long a packet is remembered\<close>

text \<open>The answers of the filter over a sequence of packets, and its final state.\<close>

fun seen_run :: "(bytes \<Rightarrow> u64) \<Rightarrow> bytes list \<Rightarrow> SeenPackets \<Rightarrow> bool list \<times> SeenPackets" where
  "seen_run fx [] s = ([], s)"
| "seen_run fx (p # ps) s =
    (let (b, s) = seen_add fx p s; (bs, s) = seen_run fx ps s in (b # bs, s))"

definition fresh_count :: "bool list \<Rightarrow> nat" where
  "fresh_count bs = length (filter Not bs)"

lemma seen_run_inv: "seen_inv s \<Longrightarrow> seen_inv (snd (seen_run fx ps s)) \<and>
    capacity (snd (seen_run fx ps s)) = capacity s"
proof (induction ps arbitrary: s)
  case Nil
  then show ?case by simp
next
  case (Cons p ps)
  then show ?case
    using seen_inv_add [of s fx p] Cons.IH [of "snd (seen_add fx p s)"]
    by (simp add: split_beta)
qed

lemma seen_run_Cons:
  "seen_run fx (p # ps) s =
     (fst (seen_add fx p s) # fst (seen_run fx ps (snd (seen_add fx p s))),
      snd (seen_run fx ps (snd (seen_add fx p s))))"
  by (simp add: split_beta)

fun window_run :: "nat \<Rightarrow> u64 list \<Rightarrow> u64 list \<Rightarrow> bool list \<times> u64 list" where
  "window_run n [] w = ([], w)"
| "window_run n (h # hs) w =
    (fst (window_add n h w) # fst (window_run n hs (snd (window_add n h w))),
     snd (window_run n hs (snd (window_add n h w))))"

lemma seen_run_window:
  assumes "seen_inv s"
  shows "fst (seen_run fx ps s) = fst (window_run (capacity s) (map fx ps) (deque s)) \<and>
    deque (snd (seen_run fx ps s)) = snd (window_run (capacity s) (map fx ps) (deque s))"
  using assms
proof (induction ps arbitrary: s)
  case Nil
  then show ?case by simp
next
  case (Cons p ps)
  have "window_add (capacity s) (fx p) (deque s) =
      (fst (seen_add fx p s), deque (snd (seen_add fx p s)))"
    using deque_seen_add [OF Cons.prems] by simp
  then show ?case
    using Cons.IH [of "snd (seen_add fx p s)"] Cons.prems seen_inv_add
    by (simp add: seen_run_Cons del: seen_run.simps)
qed

text \<open>
  The position of a hash in the deque: each accepted packet moves it one step towards the front,
  and it is dropped by the acceptance that finds it at the front of a full deque. While \<open>ys\<close>, the
  part behind it, is shorter than the capacity allows, it stays.
\<close>

lemma window_position:
  assumes inv: "seen_inv s" and pos: "deque s = xs @ h # ys"
    and room: "length ys + 1 < capacity s \<or> fst (seen_add fx q s)"
  shows "\<exists>xs' ys'. deque (snd (seen_add fx q s)) = xs' @ h # ys' \<and>
    length ys' = length ys + (if fst (seen_add fx q s) then 0 else 1)"
proof (cases "fst (seen_add fx q s)")
  case True
  then have "snd (seen_add fx q s) = s" by (auto simp: seen_add_def Let_def split: if_splits)
  then show ?thesis using pos True by auto
next
  case False
  have dq: "deque (snd (seen_add fx q s)) =
      drop (length (deque s) + 1 - capacity s) (deque s @ [fx q])"
    using deque_seen_add [OF inv, of fx q] False by (auto simp: window_add_def split: if_splits)
  have "length (deque s) + 1 - capacity s \<le> length xs"
    using room False pos inv by (auto simp: seen_inv_def)
  then have "deque (snd (seen_add fx q s)) =
      drop (length (deque s) + 1 - capacity s) xs @ h # (ys @ [fx q])"
    using dq pos by simp
  then show ?thesis using False by (intro exI conjI) auto
qed

lemma window_keeps:
  assumes "seen_inv s" and "deque s = xs @ h # ys"
    and "length ys + fresh_count (fst (seen_run fx qs s)) < capacity s"
  shows "h \<in> hashset (snd (seen_run fx qs s))"
  using assms
proof (induction qs arbitrary: s xs ys)
  case Nil
  then show ?case by (simp add: seen_inv_def)
next
  case (Cons q qs)
  let ?s' = "snd (seen_add fx q s)"
  have count: "fresh_count (fst (seen_run fx (q # qs) s)) =
      (if fst (seen_add fx q s) then 0 else 1) + fresh_count (fst (seen_run fx qs ?s'))"
    by (simp add: seen_run_Cons fresh_count_def del: seen_run.simps)
  have "length ys + 1 < capacity s \<or> fst (seen_add fx q s)"
    using Cons.prems(3) count by (auto split: if_splits)
  then obtain xs' ys' where pos: "deque ?s' = xs' @ h # ys'"
    and len: "length ys' = length ys + (if fst (seen_add fx q s) then 0 else 1)"
    using window_position [OF Cons.prems(1,2)] by blast
  have "h \<in> hashset (snd (seen_run fx qs ?s'))"
  proof (rule Cons.IH [OF _ pos])
    show "seen_inv ?s'" using Cons.prems(1) by (rule seen_inv_add)
    show "length ys' + fresh_count (fst (seen_run fx qs ?s')) < capacity ?s'"
      using Cons.prems(3) len count by simp
  qed
  then show ?case by (simp add: seen_run_Cons del: seen_run.simps)
qed

text \<open>Conversely, a hash that is not offered again is gone after that many acceptances.\<close>

lemma absent_stays:
  assumes "seen_inv s" and "h \<notin> hashset s" and "h \<notin> fx ` set qs"
  shows "h \<notin> hashset (snd (seen_run fx qs s))"
  using assms
proof (induction qs arbitrary: s)
  case Nil
  then show ?case by simp
next
  case (Cons q qs)
  have "h \<notin> hashset (snd (seen_add fx q s))"
    using Cons.prems by (auto simp: seen_add_def evict_def Let_def split: list.split)
  then show ?case
    using Cons.IH [of "snd (seen_add fx q s)"] Cons.prems seen_inv_add
    by (simp add: seen_run_Cons del: seen_run.simps)
qed

lemma window_forgets:
  assumes "seen_inv s" and "deque s = xs @ h # ys" and "h \<notin> fx ` set qs"
    and "capacity s \<le> length ys + fresh_count (fst (seen_run fx qs s))"
  shows "h \<notin> hashset (snd (seen_run fx qs s))"
  using assms
proof (induction qs arbitrary: s xs ys)
  case Nil
  then show ?case by (simp add: seen_inv_def fresh_count_def)
next
  case (Cons q qs)
  let ?s' = "snd (seen_add fx q s)"
  have inv: "seen_inv ?s'" using Cons.prems(1) by (rule seen_inv_add)
  have count: "fresh_count (fst (seen_run fx (q # qs) s)) =
      (if fst (seen_add fx q s) then 0 else 1) + fresh_count (fst (seen_run fx qs ?s'))"
    by (simp add: seen_run_Cons fresh_count_def del: seen_run.simps)
  have "h \<notin> hashset (snd (seen_run fx qs ?s'))"
  proof (cases "length ys + 1 < capacity s \<or> fst (seen_add fx q s)")
    case True
    then obtain xs' ys' where pos: "deque ?s' = xs' @ h # ys'"
      and len: "length ys' = length ys + (if fst (seen_add fx q s) then 0 else 1)"
      using window_position [OF Cons.prems(1,2)] by blast
    show ?thesis
      using Cons.prems(3,4) len count by (intro Cons.IH [OF inv pos]) auto
  next
    case False
    have "length xs + length ys + 1 \<le> capacity s"
      using Cons.prems(1,2) by (simp add: seen_inv_def)
    then have "length xs = 0" using False by linarith
    then have "length (deque s) = capacity s" and "xs = []" and "\<not> fst (seen_add fx q s)"
      using False Cons.prems(2) \<open>length xs + length ys + 1 \<le> capacity s\<close> by auto
    then have "deque ?s' = ys @ [fx q]"
      using deque_seen_add [OF Cons.prems(1), of fx q] Cons.prems(2)
      by (auto simp: window_add_def split: if_splits)
    then have "h \<notin> hashset ?s'"
      using inv Cons.prems(1-3) by (auto simp: seen_inv_def)
    then show ?thesis using inv Cons.prems(3) by (intro absent_stays) auto
  qed
  then show ?case by (simp add: seen_run_Cons del: seen_run.simps)
qed

section \<open>Properties\<close>

text \<open>
  C22. The hash set and deque implement the specification: over any sequence of packets offered to a
  new filter of capacity \<open>n\<close>, the answers are those of the window of the last \<open>n\<close> distinct hashes, the
  deque is that window, the set holds exactly its elements, and it never exceeds the capacity.
\<close>

theorem seen_packets_refines_window:
  "fst (seen_run fx ps (SeenPackets_new n)) = fst (window_run n (map fx ps) []) \<and>
   deque (snd (seen_run fx ps (SeenPackets_new n))) = snd (window_run n (map fx ps) []) \<and>
   hashset (snd (seen_run fx ps (SeenPackets_new n))) = set (snd (window_run n (map fx ps) [])) \<and>
   distinct (snd (window_run n (map fx ps) [])) \<and>
   length (snd (window_run n (map fx ps) [])) \<le> n"
  using seen_run_window [OF seen_inv_new, of fx ps n] seen_run_inv [OF seen_inv_new, of fx ps n]
  by (auto simp: seen_inv_def SeenPackets_new_def)

text \<open>
  How long a packet is remembered: after a packet was accepted, and as long as no packet with
  the same hash is offered, the filter knows it exactly until as many other packets as the
  capacity have been accepted. With capacity zero it is forgotten at once.
\<close>

theorem seen_packets_memory:
  assumes "seen_inv s" and "seen_add fx p s = (False, s')" and "fx p \<notin> fx ` set qs"
  shows "seen_contains fx (snd (seen_run fx qs s')) p \<longleftrightarrow>
    fresh_count (fst (seen_run fx qs s')) < capacity s"
proof (cases "capacity s = 0")
  case True
  then have "fx p \<notin> hashset s'"
    using assms(1,2) by (auto simp: seen_inv_def seen_add_def evict_def Let_def split: if_splits)
  moreover have "seen_inv s'" using seen_inv_add [OF assms(1), of fx p] assms(2) by simp
  ultimately show ?thesis
    using absent_stays [of s' "fx p" fx qs] assms(3) True by (simp add: seen_contains_def)
next
  case False
  have inv: "seen_inv s'" and cap: "capacity s' = capacity s"
    using seen_inv_add [OF assms(1), of fx p] capacity_seen_add [of fx p s] assms(2) by simp_all
  have "deque s' = drop (length (deque s) + 1 - capacity s) (deque s @ [fx p])"
    using deque_seen_add [OF assms(1), of fx p] assms(2) by (auto simp: window_add_def split: if_splits)
  moreover have "length (deque s) + 1 - capacity s \<le> length (deque s)"
    using False by simp
  ultimately have pos: "deque s' = drop (length (deque s) + 1 - capacity s) (deque s) @ fx p # []"
    by simp
  show ?thesis
    using window_keeps [OF inv pos, of fx qs] window_forgets [OF inv pos assms(3)] cap
    unfolding seen_contains_def by (simp, meson linorder_not_less)
qed

theorem seen_packets_memory_witness:
  "seen_contains (\<lambda>p. of_nat (length p))
     (snd (seen_run (\<lambda>p. of_nat (length p)) [[0, 0], [0, 0, 0]]
       (snd (seen_add (\<lambda>p. of_nat (length p)) [0] (SeenPackets_new 3))))) [0] \<and>
   \<not> seen_contains (\<lambda>p. of_nat (length p))
     (snd (seen_run (\<lambda>p. of_nat (length p)) [[0, 0], [0, 0, 0]]
       (snd (seen_add (\<lambda>p. of_nat (length p)) [0] (SeenPackets_new 2))))) [0]"
proof -
  let ?fx = "\<lambda>p :: bytes. of_nat (length p) :: u64"
  have new: "seen_add ?fx [0] (SeenPackets_new n) = (False, snd (seen_add ?fx [0] (SeenPackets_new n)))"
    for n by (simp add: seen_add_def SeenPackets_new_def Let_def)
  have ne: "?fx [0] \<notin> ?fx ` set [[0, 0], [0, 0, 0]]" by simp
  have count: "fresh_count (fst (seen_run ?fx [[0, 0], [0, 0, 0]]
      (snd (seen_add ?fx [0] (SeenPackets_new n))))) = 2" if "n \<in> {2, 3}" for n
    using that by (auto simp: seen_add_def SeenPackets_new_def Let_def evict_def fresh_count_def)
  show ?thesis
    using seen_packets_memory [OF seen_inv_new new ne, of 3] count [of 3]
      seen_packets_memory [OF seen_inv_new new ne, of 2] count [of 2]
    by (simp add: SeenPackets_new_def)
qed

end
