(* ===== verification/Raw_Speck.thy ===== *)
theory Raw_Speck
  imports Prelude
begin

text \<open>
  The Speck round functions and key schedule of \<^verbatim>\<open>rust/src/raw_speck.rs\<close>. Encryption and decryption
  rounds are inverse to each other, so any sequence of rounds is a permutation of the pairs of
  64-bit words; the derivation of node addresses rests on this. The interface is the locale
  \<open>keyed_permutation\<close>.
\<close>

section \<open>A family of permutations indexed by round keys\<close>

locale keyed_permutation =
  fixes enc :: "'k \<Rightarrow> 's \<Rightarrow> 's"
    and dec :: "'k \<Rightarrow> 's \<Rightarrow> 's"
  assumes dec_enc: "dec k (enc k s) = s"
    and enc_dec: "enc k (dec k s) = s"
begin

lemma enc_eq_iff: "enc k s = enc k t \<longleftrightarrow> s = t"
  by (metis dec_enc)

lemma bij_enc: "bij (enc k)"
  by (metis bijI' enc_dec enc_eq_iff)

lemma dec_fold_enc: "fold dec (rev ks) (fold enc ks s) = s"
  by (induction ks arbitrary: s) (simp_all add: dec_enc)

lemma inj_fold_enc: "inj (fold enc ks)"
  by (metis dec_fold_enc injI)

text \<open>
  On a finite state space every state lies on a cycle of the round function, no longer than the
  space has states, so whatever an orbit reaches it reaches within that many rounds.
\<close>

lemma inj_enc_iter: "inj (enc k ^^ n)"
  using bij_enc by (simp add: bij_betw_def inj_fn)

lemma enc_cycle:
  assumes fin: "finite (UNIV :: 's set)"
  shows "\<exists>n > 0. n \<le> card (UNIV :: 's set) \<and> (enc k ^^ n) s = s"
proof -
  let ?f = "\<lambda>n. (enc k ^^ n) s"
  have "card (?f ` {0..card (UNIV :: 's set)}) < card {0..card (UNIV :: 's set)}"
    using card_mono [OF fin, of "?f ` {0..card (UNIV :: 's set)}"] by simp
  then have "\<not> inj_on ?f {0..card (UNIV :: 's set)}" by (rule pigeonhole)
  then obtain i j where eq: "?f i = ?f j" and "i < j" and j: "j \<le> card (UNIV :: 's set)"
    unfolding inj_on_def by (metis atLeastAtMost_iff linorder_neqE_nat)
  then have "?f i = (enc k ^^ i) (?f (j - i))"
    by (metis add_diff_inverse_nat comp_apply funpow_add less_imp_not_less)
  then have "?f (j - i) = s" using inj_enc_iter [of i] by (metis injD)
  with \<open>i < j\<close> j show ?thesis by (intro exI [of _ "j - i"]) auto
qed

lemma enc_orbit_bound:
  assumes fin: "finite (UNIV :: 's set)"
  shows "(\<exists>n. P ((enc k ^^ n) s)) \<longleftrightarrow> (\<exists>n < card (UNIV :: 's set). P ((enc k ^^ n) s))"
proof
  assume "\<exists>n. P ((enc k ^^ n) s)"
  then obtain n where n: "P ((enc k ^^ n) s)" ..
  obtain c where c: "0 < c" "c \<le> card (UNIV :: 's set)" "(enc k ^^ c) s = s"
    using enc_cycle [OF fin] by blast
  have "P ((enc k ^^ (n mod c)) s)" using n funpow_mod_eq [OF c(3), of n] by simp
  moreover have "n mod c < card (UNIV :: 's set)"
    using c by (meson mod_less_divisor order_less_le_trans)
  ultimately show "\<exists>n < card (UNIV :: 's set). P ((enc k ^^ n) s)" by blast
qed blast

end

section \<open>Rounds\<close>

definition ernd :: "u64 \<Rightarrow> u64 \<Rightarrow> u64 \<Rightarrow> u64 \<times> u64" where
  "ernd x y k =
    (let x = rotate_right x 8;
         x = x + y;
         x = x XOR k;
         y = rotate_left y 3;
         y = y XOR x
     in (x, y))"

definition drnd :: "u64 \<Rightarrow> u64 \<Rightarrow> u64 \<Rightarrow> u64 \<times> u64" where
  "drnd x y k =
    (let y = y XOR x;
         y = rotate_right y 3;
         x = x XOR k;
         x = x - y;
         x = rotate_left x 8
     in (x, y))"

lemma drnd_ernd: "ernd x y k = (x', y') \<Longrightarrow> drnd x' y' k = (x, y)"
  by (auto simp: ernd_def drnd_def Let_def xor.assoc)

lemma ernd_drnd: "drnd x y k = (x', y') \<Longrightarrow> ernd x' y' k = (x, y)"
  by (auto simp: ernd_def drnd_def Let_def xor.assoc)

interpretation speck: keyed_permutation
  "\<lambda>k (x, y). ernd x y k" "\<lambda>k (x, y). drnd x y k"
  by unfold_locales (auto split: prod.splits dest: drnd_ernd ernd_drnd)

text \<open>The evaluation form of a round, which computes the new left word once.\<close>

definition ernd_out :: "u64 \<Rightarrow> u64 \<Rightarrow> u64 \<times> u64" where
  "ernd_out x y = (x, rotate_left y 3 XOR x)"

lemma ernd_eval [word_eval]: "ernd x y k = ernd_out ((rotate_right x 8 + y) XOR k) y"
  by (simp add: ernd_def ernd_out_def Let_def)

text \<open>The unit tests of the module.\<close>

lemma ernd_vector: "ernd 1 2 3 = (72057594037927937, 72057594037927953)"
  by (simp add: word_eval ernd_out_def)

lemma drnd_vector: "drnd 1 2 3 = (672, 6917529027641081856)"
  by (simp add: drnd_def word_eval)

section \<open>Key schedule\<close>

text \<open>The loop that loads the key, eight bytes at a time, least significant byte first.\<close>

definition load_word :: "bytes \<Rightarrow> nat \<Rightarrow> u64" where
  "load_word key i = fold (\<lambda>j x. x OR shl (ucast (key ! (i + j))) (j * 8)) [0..<8] 0"

function load_words :: "bytes \<Rightarrow> nat \<Rightarrow> u64 list \<Rightarrow> u64 list" where
  "load_words key i a =
    (if i < length key then load_words key (i + 8) (a @ [load_word key i]) else a)"
  by pat_completeness auto
termination
  by (relation "measure (\<lambda>(key, i, a). length key - i)") auto

declare load_words.simps [simp del]

text \<open>One pass of the expansion loop, on the result so far, the key words and the running word.\<close>

definition schedule_step :: "nat \<Rightarrow> u64 list \<times> u64 list \<times> u64 \<Rightarrow> u64 list \<times> u64 list \<times> u64" where
  "schedule_step i = (\<lambda>(res, a, b).
    (let res = res @ [b];
         ind = i mod length a;
         (ai, b) = ernd (a ! ind) b (of_nat i)
     in (res, a[ind := ai], b)))"

definition key_schedule :: "bytes \<Rightarrow> nat \<Rightarrow> u64 list exec" where
  "key_schedule key rounds =
    (if length key mod 8 \<noteq> 0 then Panic AssertFailed
     else case load_words key 0 [] of
       [] \<Rightarrow> Panic IndexOutOfBounds
     | b # a \<Rightarrow>
         if a = [] \<and> 0 < rounds then Panic RemainderByZero
         else Done (fst (fold schedule_step [0..<rounds] ([], a, b))))"

text \<open>Loading the words is reading the chunks of the key in little-endian order.\<close>

lemma load_word_eq:
  assumes "i + 8 \<le> length key"
  shows "load_word key i = from_le_bytes (take 8 (drop i key))"
proof -
  obtain b0 b1 b2 b3 b4 b5 b6 b7 where bs: "take 8 (drop i key) = [b0, b1, b2, b3, b4, b5, b6, b7]"
  proof -
    have "length (take 8 (drop i key)) = Suc (Suc (Suc (Suc (Suc (Suc (Suc (Suc 0)))))))"
      using assms by simp
    then show thesis by (auto simp only: length_Suc_conv length_0_conv intro: that)
  qed
  have nth: "key ! (i + j) = [b0, b1, b2, b3, b4, b5, b6, b7] ! j" if "j < 8" for j
    using that assms bs [symmetric] by simp
  have upt: "[0..<8] = [0, 1, 2, 3, 4, 5, 6, 7 :: nat]" by code_simp
  have "load_word key i = fold (\<lambda>j x. x OR shl (ucast ([b0, b1, b2, b3, b4, b5, b6, b7] ! j)) (j * 8))
      [0..<8] 0"
    unfolding load_word_def by (rule fold_cong) (simp_all add: nth)
  also have "\<dots> = from_le_bytes [b0, b1, b2, b3, b4, b5, b6, b7]"
    by (simp add: upt shl_def push_bit_or push_bit_push_bit or.assoc)
  finally show ?thesis by (simp add: bs)
qed

lemma load_words_eq:
  assumes "length key mod 8 = 0" and "i mod 8 = 0" and "i \<le> length key"
  shows "load_words key i a = a @ map from_le_bytes (chunks 8 (drop i key))"
  using assms
proof (induction key i a rule: load_words.induct)
  case (1 key i a)
  show ?case
  proof (cases "i < length key")
    case True
    have le: "i + 8 \<le> length key" using True "1.prems"(1,2) by presburger
    have "load_words key (i + 8) (a @ [load_word key i]) =
        (a @ [load_word key i]) @ map from_le_bytes (chunks 8 (drop (i + 8) key))"
      using True le "1.prems" by (intro "1.IH") auto
    then show ?thesis
      using True le
      by (simp add: load_words.simps [of key i a] chunks.simps [of 8 "drop i key"] load_word_eq
          add.commute)
  next
    case False
    then show ?thesis using "1.prems" by (subst load_words.simps) simp
  qed
qed

lemma load_words_chunks:
  "length key mod 8 = 0 \<Longrightarrow> load_words key 0 [] = map from_le_bytes (chunks 8 key)"
  using load_words_eq [of key 0 "[]"] by simp

text \<open>The expansion only appends to its result, one word per pass.\<close>

lemma schedule_fold_append:
  "fst (fold schedule_step is (res, a, b)) = res @ fst (fold schedule_step is ([], a, b))"
proof (induction "is" arbitrary: res a b)
  case Nil
  then show ?case by simp
next
  case (Cons i "is")
  obtain ai b' where "ernd (a ! (i mod length a)) b (of_nat i) = (ai, b')" by fastforce
  then have st: "schedule_step i (r, a, b) = (r @ [b], a[i mod length a := ai], b')" for r
    by (simp add: schedule_step_def Let_def)
  let ?a' = "a[i mod length a := ai]"
  show ?case using Cons.IH [of "res @ [b]" ?a' b'] Cons.IH [of "[b]" ?a' b'] by (simp add: st)
qed

lemma schedule_fold_length: "length (fst (fold schedule_step is (res, a, b))) = length res + length is"
proof (induction "is" arbitrary: res a b)
  case Nil
  then show ?case by simp
next
  case (Cons i "is")
  then show ?case by (simp add: schedule_step_def Let_def split: prod.split)
qed

lemma schedule_fold_take:
  assumes "r \<le> n"
  shows "take r (fst (fold schedule_step [0..<n] ([], a, b))) =
    fst (fold schedule_step [0..<r] ([], a, b))"
proof -
  obtain res a' b' where fr: "fold schedule_step [0..<r] ([], a, b) = (res, a', b')"
    by (metis prod_cases3)
  have "[0..<n] = [0..<r] @ [r..<n]" using assms by (metis le_add_diff_inverse le0 upt_add_eq_append)
  then have "fst (fold schedule_step [0..<n] ([], a, b)) =
      res @ fst (fold schedule_step [r..<n] ([], a', b'))"
    by (simp add: fr) (rule schedule_fold_append)
  moreover have "length res = r"
    using schedule_fold_length [of "[0..<r]" "[]" a b] by (simp add: fr)
  ultimately show ?thesis by (simp add: fr)
qed

lemma key_schedule_Done:
  assumes "length key mod 8 = 0" and "16 \<le> length key"
  shows "\<exists>a. a \<noteq> [] \<and> (\<forall>r. key_schedule key r =
    Done (fst (fold schedule_step [0..<r] ([], a, from_le_bytes (take 8 key)))))"
proof -
  have "chunks 8 key = take 8 key # take 8 (drop 8 key) # chunks 8 (drop 16 key)"
    using assms(2) by (subst chunks.simps, subst chunks.simps) auto
  then show ?thesis
    using assms by (auto simp: key_schedule_def load_words_chunks)
qed

section \<open>Properties\<close>

text \<open>
  Every encryption round is undone by the decryption round with the same key word, and the
  other way round, on all of the 128-bit state space.
\<close>

theorem speck_rounds_inverse:
  "(case ernd x y k of (x', y') \<Rightarrow> drnd x' y' k) = (x, y) \<and>
   (case drnd x y k of (x', y') \<Rightarrow> ernd x' y' k) = (x, y)"
  using speck.dec_enc [of k "(x, y)"] speck.enc_dec [of k "(x, y)"] by (auto split: prod.splits)

text \<open>
  On a key of at least two words the schedule returns: exactly as many round keys as asked for,
  starting with the first key word read in little-endian order, and asking for fewer rounds gives
  a prefix of the same schedule.
\<close>

theorem key_schedule_correct:
  assumes "length key mod 8 = 0" and "16 \<le> length key" and "r \<le> rounds"
  shows "\<exists>rks. key_schedule key rounds = Done rks \<and> length rks = rounds \<and>
    key_schedule key r = Done (take r rks) \<and>
    (0 < r \<longrightarrow> rks ! 0 = from_le_bytes (take 8 key))"
proof -
  obtain a where ks: "key_schedule key n =
      Done (fst (fold schedule_step [0..<n] ([], a, from_le_bytes (take 8 key))))" for n
    using key_schedule_Done [OF assms(1,2)] by blast
  let ?f = "\<lambda>n. fst (fold schedule_step [0..<n] ([], a, from_le_bytes (take 8 key)))"
  have first: "?f 1 = [from_le_bytes (take 8 key)]"
    by (simp add: schedule_step_def Let_def split: prod.split)
  have "?f rounds ! 0 = from_le_bytes (take 8 key)" if "0 < r"
  proof -
    have "take 1 (?f rounds) = ?f 1" using that assms(3) by (intro schedule_fold_take) simp
    then have "take 1 (?f rounds) ! 0 = [from_le_bytes (take 8 key)] ! 0" by (simp only: first)
    then show ?thesis by simp
  qed
  then show ?thesis
    using ks schedule_fold_take [OF assms(3)] schedule_fold_length [of "[0..<rounds]"] by auto
qed

theorem key_schedule_correct_witness:
  "\<exists>rks. key_schedule (replicate 16 1) 32 = Done rks \<and> length rks = 32 \<and>
    key_schedule (replicate 16 1) 22 = Done (take 22 rks) \<and>
    rks ! 0 = from_le_bytes (take 8 (replicate 16 1))"
  using key_schedule_correct [of "replicate 16 1" 22 32] by simp

end
