(* ===== verification/Ip_Addr.thy ===== *)
theory Ip_Addr
  imports Raw_Speck
begin

text \<open>
  Addresses of the mesh, \<^verbatim>\<open>rust/src/ip_addr.rs\<close>: construction from packet bytes, the derivation of a
  node's IPv6 address from its name, and the textual form used in shell commands. The search for
  the address prefix is a loop with no bound in the source, so it is a partial function; its
  results lie in \<^verbatim>\<open>fd00::/16\<close>, and it returns exactly when the orbit of the mixed name reaches the
  prefix, which by invertibility of the rounds is decided within \<open>2 ^ 128\<close> rounds.
\<close>

datatype IpAddr =
    V4 u8 u8 u8 u8
  | V6 u8 u8 u8 u8 u8 u8 u8 u8 u8 u8 u8 u8 u8 u8 u8 u8

section \<open>Addresses from buffers\<close>

fun ipv4_from_buf :: "bytes \<Rightarrow> IpAddr exec" where
  "ipv4_from_buf [a, b, c, d] = Done (V4 a b c d)"
| "ipv4_from_buf _ = Panic AssertFailed"

definition ipv6_from_buf :: "bytes \<Rightarrow> IpAddr exec" where
  "ipv6_from_buf buf =
    (if length buf \<noteq> 16 then Panic AssertFailed
     else Done (V6 (buf ! 0) (buf ! 1) (buf ! 2) (buf ! 3) (buf ! 4) (buf ! 5) (buf ! 6) (buf ! 7)
       (buf ! 8) (buf ! 9) (buf ! 10) (buf ! 11) (buf ! 12) (buf ! 13) (buf ! 14) (buf ! 15)))"

text \<open>The bytes of an address as they stand in IP headers and announcements.\<close>

fun addr_bytes :: "IpAddr \<Rightarrow> bytes" where
  "addr_bytes (V4 a b c d) = [a, b, c, d]"
| "addr_bytes (V6 a b c d e f g h i j k l m n p q) = [a, b, c, d, e, f, g, h, i, j, k, l, m, n, p, q]"

lemma ipv4_from_buf_Done_iff: "(\<exists>x. ipv4_from_buf buf = Done x) \<longleftrightarrow> length buf = 4"
  by (cases buf rule: ipv4_from_buf.cases) auto

lemma ipv4_from_buf_bytes: "ipv4_from_buf buf = Done x \<Longrightarrow> addr_bytes x = buf"
  by (cases buf rule: ipv4_from_buf.cases) auto

lemma length_16_cases:
  assumes "length xs = 16"
  obtains a b c d e f g h i j k l m n p q
  where "xs = [a, b, c, d, e, f, g, h, i, j, k, l, m, n, p, q]"
proof -
  have "length xs = Suc (Suc (Suc (Suc (Suc (Suc (Suc (Suc (Suc (Suc (Suc (Suc (Suc (Suc (Suc (Suc 0)))))))))))))))"
    using assms by simp
  then show thesis by (auto simp only: length_Suc_conv length_0_conv intro: that)
qed

lemma ipv6_from_buf_bytes: "ipv6_from_buf buf = Done x \<Longrightarrow> addr_bytes x = buf"
  by (auto simp: ipv6_from_buf_def split: if_splits elim: length_16_cases)

lemma ipv4_from_addr_bytes [simp]: "ipv4_from_buf (addr_bytes (V4 a b c d)) = Done (V4 a b c d)"
  by simp

lemma ipv6_from_addr_bytes [simp]:
  "ipv6_from_buf [a, b, c, d, e, f, g, h, i, j, k, l, m, n, p, q] =
   Done (V6 a b c d e f g h i j k l m n p q)"
  by (simp add: ipv6_from_buf_def)

section \<open>Addresses from node names\<close>

definition ernd0 :: "u64 \<times> u64 \<Rightarrow> u64 \<times> u64" where
  "ernd0 = (\<lambda>(a, b). ernd a b 0)"

definition mix_byte :: "u8 \<Rightarrow> u64 \<times> u64 \<Rightarrow> u64 \<times> u64" where
  "mix_byte c = (\<lambda>(a, b). (ernd0 ^^ 32) (ernd a b (ucast c)))"

definition mix_name :: "bytes \<Rightarrow> u64 \<times> u64" where
  "mix_name name = (ernd0 ^^ 32) (fold mix_byte name (69, of_nat (length name)))"

definition has_prefix :: "u64 \<times> u64 \<Rightarrow> bool" where
  "has_prefix = (\<lambda>(a, b). to_le_bytes 8 b ! 0 = 0xfd \<and> to_le_bytes 8 b ! 1 = 0x00)"

partial_function (option) find_prefix :: "u64 \<times> u64 \<Rightarrow> (u64 \<times> u64) option" where
  "find_prefix s = (if has_prefix s then Some s else find_prefix (ernd0 s))"

definition words_to_addr :: "u64 \<times> u64 \<Rightarrow> IpAddr" where
  "words_to_addr = (\<lambda>(a, b).
    (let a = to_le_bytes 8 a; b = to_le_bytes 8 b
     in V6 (b ! 0) (b ! 1) (b ! 2) (b ! 3) (b ! 4) (b ! 5) (b ! 6) (b ! 7)
          (a ! 0) (a ! 1) (a ! 2) (a ! 3) (a ! 4) (a ! 5) (a ! 6) (a ! 7)))"

text \<open>\<open>None\<close> stands for a search that never ends.\<close>

definition from_node_name :: "bytes \<Rightarrow> IpAddr option" where
  "from_node_name name = map_option words_to_addr (find_prefix (mix_name name))"

text \<open>The search returns the first state of the orbit that has the prefix.\<close>

lemma find_prefix_hit:
  assumes "has_prefix ((ernd0 ^^ n) s)" and "\<forall>m < n. \<not> has_prefix ((ernd0 ^^ m) s)"
  shows "find_prefix s = Some ((ernd0 ^^ n) s)"
  using assms
proof (induction n arbitrary: s)
  case 0
  then show ?case by (simp add: find_prefix.simps)
next
  case (Suc n)
  have "\<not> has_prefix s" using Suc.prems(2) by (metis funpow_0 zero_less_Suc)
  moreover have "find_prefix (ernd0 s) = Some ((ernd0 ^^ n) (ernd0 s))"
  proof (rule Suc.IH)
    show "has_prefix ((ernd0 ^^ n) (ernd0 s))"
      using Suc.prems(1) by (simp add: funpow_swap1)
    show "\<forall>m < n. \<not> has_prefix ((ernd0 ^^ m) (ernd0 s))"
      using Suc.prems(2) by (metis Suc_less_eq comp_apply funpow_Suc_right)
  qed
  ultimately show ?case by (subst find_prefix.simps) (simp add: funpow_swap1)
qed

lemma find_prefix_result:
  assumes "find_prefix s = Some t"
  shows "has_prefix t \<and> (\<exists>n. t = (ernd0 ^^ n) s)"
proof (rule find_prefix.raw_induct [where P = "\<lambda>s t. has_prefix t \<and> (\<exists>n. t = (ernd0 ^^ n) s)",
    OF _ assms])
  fix f :: "u64 \<times> u64 \<Rightarrow> (u64 \<times> u64) option" and s t
  assume IH: "\<And>s t. f s = Some t \<Longrightarrow> has_prefix t \<and> (\<exists>n. t = (ernd0 ^^ n) s)"
    and eq: "(if has_prefix s then Some s else f (ernd0 s)) = Some t"
  show "has_prefix t \<and> (\<exists>n. t = (ernd0 ^^ n) s)"
  proof (cases "has_prefix s")
    case True
    with eq show ?thesis by (metis funpow_0 option.inject)
  next
    case False
    with eq have "f (ernd0 s) = Some t" by simp
    from IH [OF this] obtain n where "has_prefix t" "t = (ernd0 ^^ n) (ernd0 s)" by blast
    then show ?thesis by (metis comp_apply funpow_Suc_right)
  qed
qed

lemma find_prefix_returns_iff: "(\<exists>t. find_prefix s = Some t) \<longleftrightarrow> (\<exists>n. has_prefix ((ernd0 ^^ n) s))"
proof
  assume "\<exists>t. find_prefix s = Some t"
  then show "\<exists>n. has_prefix ((ernd0 ^^ n) s)" by (metis find_prefix_result)
next
  assume "\<exists>n. has_prefix ((ernd0 ^^ n) s)"
  then obtain n where "has_prefix ((ernd0 ^^ n) s)" "\<forall>m < n. \<not> has_prefix ((ernd0 ^^ m) s)"
    using exists_least_iff [of "\<lambda>n. has_prefix ((ernd0 ^^ n) s)"] by blast
  then show "\<exists>t. find_prefix s = Some t" using find_prefix_hit by blast
qed

lemma card_words: "card (UNIV :: (u64 \<times> u64) set) = 2 ^ 128"
  by (simp add: card_cartesian_product card_word flip: UNIV_Times_UNIV)

lemma ernd0_orbit_bound:
  "(\<exists>n. P ((ernd0 ^^ n) s)) \<longleftrightarrow> (\<exists>n < 2 ^ 128. P ((ernd0 ^^ n) s))"
  using speck.enc_orbit_bound [of P 0 s] unfolding ernd0_def card_words by simp

lemma words_to_addr_prefix:
  "has_prefix s \<Longrightarrow> \<exists>c d e f g h i j k l m n p q.
     words_to_addr s = V6 0xfd 0x00 c d e f g h i j k l m n p q"
  by (auto simp: has_prefix_def words_to_addr_def Let_def split: prod.splits)

text \<open>A search that starts at the all-zero state runs forever.\<close>

lemma ernd0_zero: "(ernd0 ^^ n) (0, 0) = (0, 0)"
  by (induction n) (simp_all add: ernd0_def ernd_def rotate_left_def rotate_right_def)

lemma not_has_prefix_zero: "\<not> has_prefix (0, 0)"
  by (simp add: has_prefix_def to_le_bytes_8)

lemma find_prefix_zero: "find_prefix (0, 0) = None"
  using find_prefix_returns_iff [of "(0, 0)"]
  by (cases "find_prefix (0, 0)") (auto simp: ernd0_zero not_has_prefix_zero)

section \<open>Textual form\<close>

definition digit_char :: "nat \<Rightarrow> char" where
  "digit_char n = ''0123456789abcdef'' ! n"

fun dec_digits :: "nat \<Rightarrow> string" where
  "dec_digits n =
    (if n < 10 then [digit_char n] else dec_digits (n div 10) @ [digit_char (n mod 10)])"

declare dec_digits.simps [simp del]

definition fmt_dec :: "u8 \<Rightarrow> string" where
  "fmt_dec b = dec_digits (unat b)"

text \<open>The format \<^verbatim>\<open>{:02x}\<close>.\<close>

definition fmt_hex2 :: "u8 \<Rightarrow> string" where
  "fmt_hex2 b = [digit_char (unat b div 16), digit_char (unat b mod 16)]"

fun fmt_addr :: "IpAddr \<Rightarrow> string" where
  "fmt_addr (V4 a b c d) = fmt_dec a @ ''.'' @ fmt_dec b @ ''.'' @ fmt_dec c @ ''.'' @ fmt_dec d"
| "fmt_addr (V6 a b c d e f g h i j k l m n p q) =
    fmt_hex2 a @ fmt_hex2 b @ '':'' @ fmt_hex2 c @ fmt_hex2 d @ '':'' @
    fmt_hex2 e @ fmt_hex2 f @ '':'' @ fmt_hex2 g @ fmt_hex2 h @ '':'' @
    fmt_hex2 i @ fmt_hex2 j @ '':'' @ fmt_hex2 k @ fmt_hex2 l @ '':'' @
    fmt_hex2 m @ fmt_hex2 n @ '':'' @ fmt_hex2 p @ fmt_hex2 q"

lemma digit_char_inject:
  assumes "m < 16" and "n < 16" and "digit_char m = digit_char n"
  shows "m = n"
proof -
  have "distinct ''0123456789abcdef''" by simp
  moreover have "length ''0123456789abcdef'' = 16" by simp
  ultimately show ?thesis using assms nth_eq_iff_index_eq unfolding digit_char_def by metis
qed

lemma digit_char_no_separator: "n < 16 \<Longrightarrow> digit_char n \<noteq> CHR ''.'' \<and> digit_char n \<noteq> CHR '':''"
proof -
  assume "n < 16"
  then have "digit_char n \<in> set ''0123456789abcdef''"
    unfolding digit_char_def by (intro nth_mem) simp
  then show ?thesis by auto
qed

lemma fmt_hex2_inject: "fmt_hex2 a = fmt_hex2 b \<longleftrightarrow> a = b"
proof
  assume eq: "fmt_hex2 a = fmt_hex2 b"
  have lt: "unat w div 16 < 16" for w :: u8
    using unat_u8_less [of w] by (intro less_mult_imp_div_less) simp
  have "unat a div 16 = unat b div 16" "unat a mod 16 = unat b mod 16"
    using eq lt by (auto simp: fmt_hex2_def intro: digit_char_inject)
  then have "unat a = unat b" by (metis div_mult_mod_eq)
  then show "a = b" by (simp add: word_unat_eq_iff)
qed simp

lemma length_fmt_hex2: "length (fmt_hex2 b) = 2"
  by (simp add: fmt_hex2_def)

lemma dec_digits_no_dot: "CHR ''.'' \<notin> set (dec_digits n)"
proof (induction n rule: dec_digits.induct)
  case (1 n)
  have "digit_char (n mod 10) \<noteq> CHR ''.''" "n < 10 \<Longrightarrow> digit_char n \<noteq> CHR ''.''"
    by (rule digit_char_no_separator [THEN conjunct1]; simp)+
  then show ?case using 1 by (subst dec_digits.simps) auto
qed

lemma dec_digits_inject: "dec_digits m = dec_digits n \<Longrightarrow> m = n"
proof (induction m arbitrary: n rule: dec_digits.induct)
  case (1 m)
  have nonempty: "dec_digits k \<noteq> []" for k by (subst dec_digits.simps) simp
  show ?case
  proof (cases "m < 10")
    case True
    then have "dec_digits n = [digit_char m]" using "1.prems" dec_digits.simps [of m] by simp
    then have "n < 10 \<and> digit_char n = digit_char m"
      using nonempty [of "n div 10"] dec_digits.simps [of n] by (auto split: if_splits)
    then show ?thesis using True digit_char_inject [of m n] by simp
  next
    case False
    then have m: "dec_digits m = dec_digits (m div 10) @ [digit_char (m mod 10)]"
      by (subst dec_digits.simps) simp
    then have "\<not> n < 10" using "1.prems" nonempty [of "m div 10"] dec_digits.simps [of n] by auto
    then have "dec_digits n = dec_digits (n div 10) @ [digit_char (n mod 10)]"
      by (subst dec_digits.simps) simp
    then have "dec_digits (m div 10) = dec_digits (n div 10)"
      and "digit_char (m mod 10) = digit_char (n mod 10)"
      using "1.prems" m by auto
    then have "m div 10 = n div 10" "m mod 10 = n mod 10"
      using "1.IH" False digit_char_inject [of "m mod 10" "n mod 10"] by auto
    then show ?thesis by (metis div_mult_mod_eq)
  qed
qed

lemma fmt_dec_inject: "fmt_dec a = fmt_dec b \<longleftrightarrow> a = b"
  unfolding fmt_dec_def using dec_digits_inject by (auto simp: word_unat_eq_iff)

lemma fmt_dec_no_dot: "CHR ''.'' \<notin> set (fmt_dec b)"
  by (simp add: fmt_dec_def dec_digits_no_dot)

lemma fmt_hex2_no_dot: "CHR ''.'' \<notin> set (fmt_hex2 b)"
  using digit_char_no_separator [of "unat b div 16"] digit_char_no_separator [of "unat b mod 16"]
    less_mult_imp_div_less [of "unat b" 16 16] unat_u8_less [of b]
  by (auto simp: fmt_hex2_def)

lemma fmt_V4_inject: "fmt_addr (V4 a b c d) = fmt_addr (V4 a' b' c' d') \<longleftrightarrow> V4 a b c d = V4 a' b' c' d'"
  by (simp add: append_sep_inject fmt_dec_no_dot fmt_dec_inject)

lemma append_same_length:
  "length xs = length xs' \<Longrightarrow> xs @ ys = xs' @ ys' \<longleftrightarrow> xs = xs' \<and> ys = ys'"
  by simp

lemma fmt_V6_inject:
  "fmt_addr (V6 a b c d e f g h i j k l m n p q) =
     fmt_addr (V6 a' b' c' d' e' f' g' h' i' j' k' l' m' n' p' q') \<Longrightarrow>
   V6 a b c d e f g h i j k l m n p q = V6 a' b' c' d' e' f' g' h' i' j' k' l' m' n' p' q'"
  by (simp add: append_same_length length_fmt_hex2 fmt_hex2_inject)

lemma fmt_V4_has_dot: "CHR ''.'' \<in> set (fmt_addr (V4 a b c d))"
  by simp

lemma fmt_V6_no_dot: "CHR ''.'' \<notin> set (fmt_addr (V6 a b c d e f g h i j k l m n p q))"
  by (simp add: fmt_hex2_no_dot)

section \<open>Properties\<close>

text \<open>
  Whatever address is derived from a node name lies in \<^verbatim>\<open>fd00::/16\<close>, as the documentation says.
\<close>

theorem from_node_name_prefix:
  assumes "from_node_name name = Some addr"
  shows "\<exists>c d e f g h i j k l m n p q. addr = V6 0xfd 0x00 c d e f g h i j k l m n p q"
proof -
  obtain t where "find_prefix (mix_name name) = Some t" and "addr = words_to_addr t"
    using assms unfolding from_node_name_def by fastforce
  then show ?thesis using find_prefix_result words_to_addr_prefix by metis
qed

text \<open>
  Deriving an address returns exactly when some state of the orbit of the mixed name has the
  prefix, and that is settled within \<open>2 ^ 128\<close> rounds; the address returned is the one of the first
  such state.
\<close>

theorem from_node_name_returns_iff:
  "(\<exists>addr. from_node_name name = Some addr) \<longleftrightarrow>
     (\<exists>n < 2 ^ 128. has_prefix ((ernd0 ^^ n) (mix_name name)))"
proof -
  have "(\<exists>addr. from_node_name name = Some addr) \<longleftrightarrow> (\<exists>t. find_prefix (mix_name name) = Some t)"
    by (auto simp: from_node_name_def)
  also have "\<dots> \<longleftrightarrow> (\<exists>n. has_prefix ((ernd0 ^^ n) (mix_name name)))"
    by (rule find_prefix_returns_iff)
  also have "\<dots> \<longleftrightarrow> (\<exists>n < 2 ^ 128. has_prefix ((ernd0 ^^ n) (mix_name name)))"
    by (rule ernd0_orbit_bound)
  finally show ?thesis .
qed

text \<open>
  The textual form identifies the address: two addresses that print alike are equal, also across
  the two families. The route and address commands built from it therefore never confuse nodes.
\<close>

theorem fmt_addr_injective: "inj fmt_addr"
proof (rule injI)
  fix x y
  assume eq: "fmt_addr x = fmt_addr y"
  show "x = y"
    using eq fmt_V4_has_dot fmt_V6_no_dot
    by (cases x; cases y) (metis fmt_V4_inject fmt_V6_inject)+
qed

end
