(* ===== verification/All_Senders.thy ===== *)
theory All_Senders
  imports Ip_Addr
begin

text \<open>
  The dispatcher of outgoing packets, \<^verbatim>\<open>rust/src/all_senders.rs\<close>: a task that owns the list of link
  senders and the table of the fastest link per address, and reacts to messages. A sender is the
  identity of an unbounded channel of the \<^verbatim>\<open>futures\<close> crate. What a channel does with data is outside
  the model: a step returns the sends it attempts, in order, and whether a channel still has its
  receiver is the argument \<open>alive\<close>, the answer of \<^verbatim>\<open>unbounded_send\<close>. The table's contract is the
  locale \<open>route_table\<close>.
\<close>

type_synonym sender = nat

datatype AllSendersMessage =
    AddSender sender
  | AddFastestTo u64 IpAddr sender
  | SendToFastest IpAddr bytes
  | SendToAll bytes
  | CleanBrokenSenders

record AllSendersState =
  senders :: "sender list"
  fastest_to_address :: "IpAddr \<rightharpoonup> (u64 \<times> sender)"

definition all_senders_init :: AllSendersState where
  "all_senders_init = \<lparr>senders = [], fastest_to_address = Map.empty\<rparr>"

definition add_fastest :: "u64 \<Rightarrow> IpAddr \<Rightarrow> sender \<Rightarrow> AllSendersState \<Rightarrow> AllSendersState" where
  "add_fastest millis addr sndr st =
    (case fastest_to_address st addr of
       Some (millis_old, _) \<Rightarrow>
         if millis \<le> millis_old then st
         else st\<lparr>fastest_to_address := (fastest_to_address st)(addr \<mapsto> (millis, sndr))\<rparr>
     | None \<Rightarrow> st\<lparr>fastest_to_address := (fastest_to_address st)(addr \<mapsto> (millis, sndr))\<rparr>)"

text \<open>One pass of the loop of \<^verbatim>\<open>all_senders_task\<close>.\<close>

fun all_senders_step ::
  "(sender \<Rightarrow> bool) \<Rightarrow> AllSendersMessage \<Rightarrow> AllSendersState \<Rightarrow> AllSendersState \<times> (sender \<times> bytes) list"
where
  "all_senders_step alive (AddSender sndr) st = (st\<lparr>senders := senders st @ [sndr]\<rparr>, [])"
| "all_senders_step alive (AddFastestTo millis addr sndr) st = (add_fastest millis addr sndr st, [])"
| "all_senders_step alive (SendToFastest addr data) st =
    (st, case fastest_to_address st addr of Some (_, sndr) \<Rightarrow> [(sndr, data)] | None \<Rightarrow> [])"
| "all_senders_step alive (SendToAll data) st = (st, map (\<lambda>sndr. (sndr, data)) (senders st))"
| "all_senders_step alive CleanBrokenSenders st =
    (st\<lparr>senders := filter alive (senders st)\<rparr>, map (\<lambda>sndr. (sndr, [])) (senders st))"

text \<open>The task on a sequence of messages, each with the channels alive at its time.\<close>

fun all_senders_task ::
  "((sender \<Rightarrow> bool) \<times> AllSendersMessage) list \<Rightarrow> AllSendersState \<Rightarrow>
   AllSendersState \<times> (sender \<times> bytes) list"
where
  "all_senders_task [] st = (st, [])"
| "all_senders_task ((alive, msg) # msgs) st =
    (let (st, sends) = all_senders_step alive msg st;
         (st, sends') = all_senders_task msgs st
     in (st, sends @ sends'))"

text \<open>The methods of the handle, which all post a message to the task.\<close>

definition AllSenders_add :: "sender \<Rightarrow> AllSendersMessage" where
  "AllSenders_add = AddSender"

definition add_fastest_to :: "u64 \<Rightarrow> IpAddr \<Rightarrow> sender \<Rightarrow> AllSendersMessage" where
  "add_fastest_to = AddFastestTo"

definition send_to_fastest :: "IpAddr \<Rightarrow> bytes \<Rightarrow> AllSendersMessage" where
  "send_to_fastest = SendToFastest"

definition clean_broken_senders :: AllSendersMessage where
  "clean_broken_senders = CleanBrokenSenders"

definition send_all :: "bytes \<Rightarrow> AllSendersMessage" where
  "send_all = SendToAll"

lemmas handle_defs = AllSenders_add_def add_fastest_to_def send_to_fastest_def
  clean_broken_senders_def send_all_def

section \<open>The contract of the routing table\<close>

text \<open>
  The best of a sequence of announcements of one address, each a time stamp and a sender: the first
  among those with the greatest time stamp.
\<close>

definition best_of :: "('t::linorder \<times> 's) list \<Rightarrow> ('t \<times> 's) \<Rightarrow> bool" where
  "best_of xs x \<longleftrightarrow> (\<exists>pre post. xs = pre @ x # post \<and> (\<forall>y \<in> set pre. fst y < fst x) \<and>
     (\<forall>y \<in> set post. fst y \<le> fst x))"

lemma best_of_snoc:
  assumes "best_of xs x"
  shows "best_of (xs @ [y]) (if fst y \<le> fst x then x else y)"
proof -
  obtain pre post where xs: "xs = pre @ x # post"
    and pre: "\<forall>z \<in> set pre. fst z < fst x" and post: "\<forall>z \<in> set post. fst z \<le> fst x"
    using assms unfolding best_of_def by blast
  show ?thesis
  proof (cases "fst y \<le> fst x")
    case True
    then show ?thesis using xs pre post unfolding best_of_def
      by (intro exI [of _ pre] exI [of _ "post @ [y]"]) auto
  next
    case False
    then have "\<forall>z \<in> set xs. fst z < fst y" using xs pre post by auto
    then show ?thesis using False unfolding best_of_def
      by (intro exI [of _ xs] exI [of _ "[]"]) auto
  qed
qed

locale route_table =
  fixes learn :: "'t::linorder \<Rightarrow> 'a \<Rightarrow> 's \<Rightarrow> 'm \<Rightarrow> 'm"
    and route :: "'m \<Rightarrow> 'a \<Rightarrow> ('t \<times> 's) option"
  assumes learn_new: "route m a = None \<Longrightarrow> route (learn t a s m) a = Some (t, s)"
    and learn_newer: "route m a = Some (t0, s0) \<Longrightarrow> t0 < t \<Longrightarrow> route (learn t a s m) a = Some (t, s)"
    and learn_older: "route m a = Some (t0, s0) \<Longrightarrow> t \<le> t0 \<Longrightarrow> route (learn t a s m) a = Some (t0, s0)"
    and learn_other: "a \<noteq> b \<Longrightarrow> route (learn t a s m) b = route m b"
begin

lemma learn_cases:
  "route (learn t a s m) a =
    (case route m a of
       None \<Rightarrow> Some (t, s)
     | Some x \<Rightarrow> if t \<le> fst x then Some x else Some (t, s))"
  by (auto simp: learn_new learn_older learn_newer not_le split: option.split)

lemma learn_best:
  assumes "case route m a of None \<Rightarrow> xs = [] | Some x \<Rightarrow> best_of xs x"
  shows "case route (learn t a s m) a of None \<Rightarrow> xs @ [(t, s)] = [] | Some x \<Rightarrow> best_of (xs @ [(t, s)]) x"
proof (cases "route m a")
  case None
  then have "xs = []" using assms by simp
  then show ?thesis using None
    by (auto simp: learn_cases best_of_def intro!: exI [of _ "[]"])
next
  case (Some x)
  then have "best_of xs x" using assms by simp
  from best_of_snoc [OF this, of "(t, s)"] show ?thesis
    using Some by (auto simp: learn_cases split: if_splits)
qed

text \<open>Time stamps in the table never decrease.\<close>

lemma learn_monotone:
  assumes "route m b = Some (t0, s0)"
  shows "\<exists>t1 s1. route (learn t a s m) b = Some (t1, s1) \<and> t0 \<le> t1"
  using assms by (cases "a = b") (auto simp: learn_cases learn_other)

end

interpretation rt: route_table add_fastest fastest_to_address
  by unfold_locales (auto simp: add_fastest_def split: option.splits)

section \<open>Runs of the task\<close>

text \<open>The announcements of an address among the messages, in order.\<close>

fun announcements :: "IpAddr \<Rightarrow> AllSendersMessage list \<Rightarrow> (u64 \<times> sender) list" where
  "announcements a [] = []"
| "announcements a (AddFastestTo t b s # msgs) =
    (if a = b then (t, s) # announcements a msgs else announcements a msgs)"
| "announcements a (_ # msgs) = announcements a msgs"

lemma announcements_append: "announcements a (xs @ ys) = announcements a xs @ announcements a ys"
  by (induction a xs rule: announcements.induct) auto

lemma all_senders_task_append:
  "all_senders_task (xs @ ys) st =
    (let (st, s1) = all_senders_task xs st; (st, s2) = all_senders_task ys st in (st, s1 @ s2))"
  by (induction xs st rule: all_senders_task.induct) (auto simp: Let_def split: prod.splits)

lemma step_table:
  "fastest_to_address (fst (all_senders_step alive msg st)) =
    (case msg of AddFastestTo t a s \<Rightarrow> fastest_to_address (add_fastest t a s st)
     | _ \<Rightarrow> fastest_to_address st)"
  by (cases msg) auto

lemma task_table:
  "case fastest_to_address (fst (all_senders_task msgs all_senders_init)) a of
     None \<Rightarrow> announcements a (map snd msgs) = []
   | Some x \<Rightarrow> best_of (announcements a (map snd msgs)) x"
proof (induction msgs rule: rev_induct)
  case Nil
  then show ?case by (simp add: all_senders_init_def)
next
  case (snoc m msgs)
  obtain alive msg where m: "m = (alive, msg)" by fastforce
  let ?st = "fst (all_senders_task msgs all_senders_init)"
  have st: "fst (all_senders_task (msgs @ [m]) all_senders_init) =
      fst (all_senders_step alive msg ?st)"
    by (simp add: all_senders_task_append m Let_def split: prod.splits)
  show ?case
  proof (cases "\<exists>t s. msg = AddFastestTo t a s")
    case True
    then obtain t s where msg: "msg = AddFastestTo t a s" by blast
    have run: "fst (all_senders_task (msgs @ [m]) all_senders_init) = add_fastest t a s ?st"
      unfolding st by (simp add: msg)
    have ann: "announcements a (map snd (msgs @ [m])) = announcements a (map snd msgs) @ [(t, s)]"
      by (simp add: m msg announcements_append)
    show ?thesis unfolding run ann by (rule rt.learn_best [OF snoc])
  next
    case False
    then have run: "fastest_to_address (fst (all_senders_step alive msg ?st)) a = fastest_to_address ?st a"
      by (cases msg) (auto simp: rt.learn_other)
    have ann: "announcements a (map snd (msgs @ [m])) = announcements a (map snd msgs)"
      using False by (cases msg) (auto simp: m announcements_append)
    show ?thesis unfolding st run ann by (rule snoc)
  qed
qed

text \<open>Only the senders that were added are ever sent to by a broadcast, in the order they came.\<close>

fun added_senders :: "AllSendersMessage list \<Rightarrow> sender list" where
  "added_senders [] = []"
| "added_senders (AddSender s # msgs) = s # added_senders msgs"
| "added_senders (_ # msgs) = added_senders msgs"

lemma added_senders_append: "added_senders (xs @ ys) = added_senders xs @ added_senders ys"
  by (induction xs rule: added_senders.induct) auto

lemma task_senders:
  assumes "\<forall>(alive, msg) \<in> set msgs. alive s"
  shows "filter ((=) s) (senders (fst (all_senders_task msgs st))) =
    filter ((=) s) (senders st @ added_senders (map snd msgs))"
  using assms
proof (induction msgs arbitrary: st)
  case Nil
  then show ?case by simp
next
  case (Cons m msgs)
  obtain alive msg where m: "m = (alive, msg)" by fastforce
  have "alive s" using Cons.prems m by auto
  then have "filter ((=) s) (senders (fst (all_senders_step alive msg st))) =
      filter ((=) s) (senders st @ added_senders [msg])"
    by (cases msg) (auto simp: add_fastest_def filter_filter split: option.split
        intro!: filter_cong)
  moreover have "added_senders (map snd (m # msgs)) = added_senders [msg] @ added_senders (map snd msgs)"
    using added_senders_append [of "[msg]" "map snd msgs"] by (simp add: m)
  ultimately show ?case
    using Cons.IH [of "fst (all_senders_step alive msg st)"] Cons.prems
    by (auto simp: m Let_def split: prod.splits)
qed

lemma filter_sends:
  "filter (\<lambda>(r, _). r = s) (map (\<lambda>r. (r, data)) xs) = replicate (count_list xs s) (s, data)"
  by (induction xs) auto

lemma step_no_new_sender:
  "s \<notin> set (senders st) \<Longrightarrow> msg \<noteq> AddSender s \<Longrightarrow>
   s \<notin> set (senders (fst (all_senders_step alive msg st)))"
  by (cases msg) (auto simp: add_fastest_def split: option.split)

lemma task_no_new_sender:
  "s \<notin> set (senders st) \<Longrightarrow> AddSender s \<notin> set (map snd msgs) \<Longrightarrow>
   s \<notin> set (senders (fst (all_senders_task msgs st)))"
proof (induction msgs arbitrary: st)
  case Nil
  then show ?case by simp
next
  case (Cons m msgs)
  obtain alive msg where m: "m = (alive, msg)" by fastforce
  have "s \<notin> set (senders (fst (all_senders_step alive msg st)))"
    using Cons.prems m by (intro step_no_new_sender) auto
  then show ?case
    using Cons.IH [of "fst (all_senders_step alive msg st)"] Cons.prems
    by (auto simp: m Let_def split: prod.splits)
qed

section \<open>Properties\<close>

text \<open>
  Routing follows the newest announcement, and among equally new ones the first to arrive: after
  any sequence of messages the table has an entry for an address exactly when it was announced,
  and the entry is the first announcement that carries the greatest time stamp. Data for the
  address is then handed to that sender and to no other.
\<close>

theorem fastest_route_is_best:
  "(case fastest_to_address (fst (all_senders_task msgs all_senders_init)) a of
      None \<Rightarrow> announcements a (map snd msgs) = [] \<and>
        snd (all_senders_step alive (send_to_fastest a data)
          (fst (all_senders_task msgs all_senders_init))) = []
    | Some (t, s) \<Rightarrow> best_of (announcements a (map snd msgs)) (t, s) \<and>
        snd (all_senders_step alive (send_to_fastest a data)
          (fst (all_senders_task msgs all_senders_init))) = [(s, data)])"
  using task_table [of a msgs] by (auto simp: send_to_fastest_def split: option.splits)

text \<open>
  C25. A link that stays up is never dropped from the broadcast list: as long as the channel of \<open>s\<close> is
  alive at every message, a broadcast reaches it once for every time it was added, whatever
  cleanings happened in between.
\<close>

theorem broadcast_reaches_live_links:
  assumes "\<forall>(alive, msg) \<in> set msgs. alive s"
  shows "filter (\<lambda>(r, _). r = s)
      (snd (all_senders_step ok (send_all data) (fst (all_senders_task msgs all_senders_init)))) =
    replicate (count_list (added_senders (map snd msgs)) s) (s, data)"
proof -
  let ?S = "senders (fst (all_senders_task msgs all_senders_init))"
  have "filter ((=) s) ?S = filter ((=) s) (added_senders (map snd msgs))"
    using task_senders [OF assms] by (simp add: all_senders_init_def)
  then have "count_list ?S s = count_list (added_senders (map snd msgs)) s"
    by (metis count_list_eq_length_filter)
  then show ?thesis by (simp add: send_all_def filter_sends)
qed

theorem broadcast_reaches_live_links_witness:
  "filter (\<lambda>(r, _). r = 7)
      (snd (all_senders_step (\<lambda>_. True) (send_all [1, 2])
        (fst (all_senders_task
          [(\<lambda>_. True, AllSenders_add 7), (\<lambda>_. True, AllSenders_add 8),
           (\<lambda>r. r = 7, clean_broken_senders)] all_senders_init)))) =
    [(7, [1, 2])]"
  using broadcast_reaches_live_links [of "[(\<lambda>_. True, AllSenders_add 7),
      (\<lambda>_. True, AllSenders_add 8), (\<lambda>r. r = 7, clean_broken_senders)]" 7 "\<lambda>_. True" "[1, 2]"]
  by (simp add: handle_defs)

text \<open>
  A link that went down is dropped: after a cleaning that finds the channel of \<open>s\<close> dead, no
  broadcast is attempted on it until it is added again.
\<close>

theorem cleaning_drops_dead_links:
  assumes "\<not> alive s" and "AddSender s \<notin> set (map snd msgs)"
  shows "s \<notin> fst ` set (snd (all_senders_step ok (send_all data)
    (fst (all_senders_task ((alive, clean_broken_senders) # msgs) st))))"
proof -
  have "s \<notin> set (senders (fst (all_senders_step alive CleanBrokenSenders st)))"
    using assms(1) by simp
  from task_no_new_sender [OF this assms(2)] show ?thesis
    by (auto simp: send_all_def clean_broken_senders_def Let_def split: prod.splits)
qed

theorem cleaning_drops_dead_links_witness:
  "8 \<notin> fst ` set (snd (all_senders_step (\<lambda>_. True) (send_all [1, 2])
    (fst (all_senders_task [(\<lambda>r. r = 7, clean_broken_senders), (\<lambda>_. True, AllSenders_add 9)]
      \<lparr>senders = [7, 8], fastest_to_address = Map.empty\<rparr>))))"
  using cleaning_drops_dead_links [of "\<lambda>r. r = 7" 8 "[(\<lambda>_. True, AllSenders_add 9)]"]
  by (simp add: AllSenders_add_def)

end
