(* ===== verification/Mesh_Node.thy ===== *)
theory Mesh_Node
  imports Seen_Packets All_Senders
begin

text \<open>
  The packet loop of a mesh node, the second half of \<^verbatim>\<open>run_meshnode\<close> in \<^verbatim>\<open>rust/src/main.rs\<close>, and the
  announcements the node broadcasts. What a packet makes the node do is the list of its actions, in
  order, together with how handling it ended: the next state, a panic, or a loop that never ends. The
  hash of the duplicate filter and the clock are arguments.
\<close>

section \<open>UTF-8\<close>

text \<open>\<^verbatim>\<open>std::str::from_utf8(..).is_ok()\<close>: the well-formed byte sequences of the Unicode standard.\<close>

definition utf8_cont :: "u8 \<Rightarrow> bool" where
  "utf8_cont b \<longleftrightarrow> b AND 0xC0 = 0x80"

definition utf8_second3 :: "u8 \<Rightarrow> u8 \<Rightarrow> bool" where
  "utf8_second3 a b \<longleftrightarrow>
    a = 0xE0 \<and> 0xA0 \<le> b \<and> b \<le> 0xBF \<or>
    0xE1 \<le> a \<and> a \<le> 0xEC \<and> 0x80 \<le> b \<and> b \<le> 0xBF \<or>
    a = 0xED \<and> 0x80 \<le> b \<and> b \<le> 0x9F \<or>
    0xEE \<le> a \<and> a \<le> 0xEF \<and> 0x80 \<le> b \<and> b \<le> 0xBF"

definition utf8_second4 :: "u8 \<Rightarrow> u8 \<Rightarrow> bool" where
  "utf8_second4 a b \<longleftrightarrow>
    a = 0xF0 \<and> 0x90 \<le> b \<and> b \<le> 0xBF \<or>
    0xF1 \<le> a \<and> a \<le> 0xF3 \<and> 0x80 \<le> b \<and> b \<le> 0xBF \<or>
    a = 0xF4 \<and> 0x80 \<le> b \<and> b \<le> 0x8F"

fun from_utf8 :: "bytes \<Rightarrow> bool" where
  "from_utf8 [] = True"
| "from_utf8 (a # bs) =
    (if a < 0x80 then from_utf8 bs
     else case bs of
       [] \<Rightarrow> False
     | b # cs \<Rightarrow>
         if 0xC2 \<le> a \<and> a \<le> 0xDF then utf8_cont b \<and> from_utf8 cs
         else case cs of
           [] \<Rightarrow> False
         | c # ds \<Rightarrow>
             if utf8_second3 a b then utf8_cont c \<and> from_utf8 ds
             else case ds of
               [] \<Rightarrow> False
             | d # es \<Rightarrow> utf8_second4 a b \<and> utf8_cont c \<and> utf8_cont d \<and> from_utf8 es)"

section \<open>The state of a node and what it does\<close>

text \<open>
  The channels to the TUN device and to the route creator exist when the device was configured;
  then they come with whether their receiver is still there.
\<close>

record MeshNode =
  our_ips :: "IpAddr set"
  seen_packets :: SeenPackets
  tun_sender :: "bool option"
  route_adder :: "bool option"

datatype node_action = Post_All_Senders AllSendersMessage | Post_Route IpAddr | Post_Tun bytes

definition abs_diff :: "u64 \<Rightarrow> u64 \<Rightarrow> u64" where
  "abs_diff a b = (if a \<le> b then b - a else a - b)"

definition ignore_after :: u64 where
  "ignore_after = 1000 * 60 * 3"

text \<open>\<^verbatim>\<open>if let Some(route_adder) = &route_adder { route_adder.unbounded_send(addr).unwrap(); }\<close>\<close>

definition add_route :: "MeshNode \<Rightarrow> IpAddr \<Rightarrow> node_action list \<times> MeshNode exec" where
  "add_route node addr =
    (case route_adder node of
       None \<Rightarrow> ([], Done node)
     | Some alive \<Rightarrow> if alive then ([Post_Route addr], Done node) else ([], Panic UnwrapFailed))"

definition then_do ::
  "node_action list \<Rightarrow> node_action list \<times> 'a exec \<Rightarrow> node_action list \<times> 'a exec"
where
  "then_do acts r = (acts @ fst r, snd r)"

text \<open>Command 0: the flooded name of a node.\<close>

definition on_node_name :: "u64 \<Rightarrow> bytes \<Rightarrow> bytes \<Rightarrow> sender \<Rightarrow> MeshNode \<Rightarrow> node_action list \<times> MeshNode exec" where
  "on_node_name ms orig_data data sndr node =
    (if from_utf8 data then
       (case from_node_name data of
          None \<Rightarrow> ([], Diverges)
        | Some addr \<Rightarrow>
            then_do [Post_All_Senders (add_fastest_to ms addr sndr)]
              (case add_route node addr of
                 (acts, Done node) \<Rightarrow>
                   (acts @ [Post_All_Senders (send_all orig_data)], Done node)
               | r \<Rightarrow> r))
     else ([Post_All_Senders (send_all orig_data)], Done node))"

text \<open>Commands 1 and 2: a node that handles an address.\<close>

definition on_address ::
  "(bytes \<Rightarrow> IpAddr exec) \<Rightarrow> nat \<Rightarrow> u64 \<Rightarrow> bytes \<Rightarrow> bytes \<Rightarrow> sender \<Rightarrow> MeshNode \<Rightarrow>
   node_action list \<times> MeshNode exec"
where
  "on_address from_buf len ms orig_data data sndr node =
    (if length data \<noteq> len then ([], Done node)
     else case from_buf data of
       Done addr \<Rightarrow>
         then_do [Post_All_Senders (add_fastest_to ms addr sndr), Post_All_Senders (send_all orig_data)]
           (add_route node addr)
     | Panic p \<Rightarrow> ([], Panic p)
     | Diverges \<Rightarrow> ([], Diverges))"

text \<open>The destination in the header of an IP packet: no value for a version other than 4 and 6.\<close>

definition target_addr :: "bytes \<Rightarrow> IpAddr option exec" where
  "target_addr data =
    (case data of
       [] \<Rightarrow> Panic IndexOutOfBounds
     | b # _ \<Rightarrow>
         (let ip_version = drop_bit 4 (b AND 0xF0);
              from = (\<lambda>i j from_buf.
                case slice_range i j data of
                  None \<Rightarrow> Panic IndexOutOfBounds
                | Some buf \<Rightarrow>
                    (case from_buf buf of Done a \<Rightarrow> Done (Some a) | Panic p \<Rightarrow> Panic p | Diverges \<Rightarrow> Diverges))
          in if ip_version = 4 then from 16 20 ipv4_from_buf
             else if ip_version = 6 then from 24 40 ipv6_from_buf
             else Done None))"

text \<open>Command 3: an IP packet under way to its target.\<close>

definition on_ip_packet :: "bytes \<Rightarrow> bytes \<Rightarrow> MeshNode \<Rightarrow> node_action list \<times> MeshNode exec" where
  "on_ip_packet orig_data data node =
    (case target_addr data of
       Panic p \<Rightarrow> ([], Panic p)
     | Diverges \<Rightarrow> ([], Diverges)
     | Done None \<Rightarrow> ([], Done node)
     | Done (Some target) \<Rightarrow>
         if target \<in> our_ips node then
           (case tun_sender node of
              None \<Rightarrow> ([], Done node)
            | Some alive \<Rightarrow> if alive then ([Post_Tun data], Done node) else ([], Panic UnwrapFailed))
         else ([Post_All_Senders (send_to_fastest target orig_data)], Done node))"

text \<open>One pass of the loop, on a packet and the sender of the link it came from.\<close>

definition handle_packet ::
  "(bytes \<Rightarrow> u64) \<Rightarrow> u64 \<Rightarrow> bytes \<Rightarrow> sender \<Rightarrow> MeshNode \<Rightarrow> node_action list \<times> MeshNode exec"
where
  "handle_packet fx current data sndr node =
    (if length data < 9 then ([], Done node)
     else
       let ms = from_le_bytes [data ! 0, data ! 1, data ! 2, data ! 3, data ! 4, data ! 5, data ! 6, data ! 7]
       in if abs_diff current ms > ignore_after then ([], Done node)
       else
         let (dup, seen) = seen_add fx data (seen_packets node);
             node = node\<lparr>seen_packets := seen\<rparr>
         in if dup then ([], Done node)
         else
           let orig_data = data;
               cmd = data ! 8;
               data = drop 9 data
           in if cmd = 0 then on_node_name ms orig_data data sndr node
              else if cmd = 1 then on_address ipv6_from_buf 16 ms orig_data data sndr node
              else if cmd = 2 then on_address ipv4_from_buf 4 ms orig_data data sndr node
              else if cmd = 3 then on_ip_packet orig_data data node
              else ([], Done node))"

text \<open>The loop over the packets that arrive, each with the time and the link it came from.\<close>

fun node_loop ::
  "(bytes \<Rightarrow> u64) \<Rightarrow> (u64 \<times> bytes \<times> sender) list \<Rightarrow> MeshNode \<Rightarrow> node_action list \<times> MeshNode exec"
where
  "node_loop fx [] node = ([], Done node)"
| "node_loop fx ((current, data, sndr) # packets) node =
    (case handle_packet fx current data sndr node of
       (acts, Done node) \<Rightarrow> then_do acts (node_loop fx packets node)
     | (acts, r) \<Rightarrow> (acts, r))"

section \<open>Announcements\<close>

definition name_announcement :: "u64 \<Rightarrow> bytes \<Rightarrow> bytes" where
  "name_announcement millis node_name = to_le_bytes 8 millis @ [0] @ node_name"

definition ipv4_announcement :: "u64 \<Rightarrow> bytes \<Rightarrow> bytes" where
  "ipv4_announcement millis addr = to_le_bytes 8 millis @ [2] @ addr"

section \<open>The structure of a pass\<close>

definition packet_ms :: "bytes \<Rightarrow> u64" where
  "packet_ms data = from_le_bytes (take 8 data)"

definition accepts :: "(bytes \<Rightarrow> u64) \<Rightarrow> u64 \<Rightarrow> bytes \<Rightarrow> MeshNode \<Rightarrow> bool" where
  "accepts fx current data node \<longleftrightarrow>
    9 \<le> length data \<and> abs_diff current (packet_ms data) \<le> ignore_after \<and>
    \<not> seen_contains fx (seen_packets node) data"

definition note_seen :: "(bytes \<Rightarrow> u64) \<Rightarrow> bytes \<Rightarrow> MeshNode \<Rightarrow> MeshNode" where
  "note_seen fx data node = node\<lparr>seen_packets := snd (seen_add fx data (seen_packets node))\<rparr>"

definition dispatch :: "u8 \<Rightarrow> u64 \<Rightarrow> bytes \<Rightarrow> bytes \<Rightarrow> sender \<Rightarrow> MeshNode \<Rightarrow> node_action list \<times> MeshNode exec" where
  "dispatch cmd ms orig_data data sndr node =
    (if cmd = 0 then on_node_name ms orig_data data sndr node
     else if cmd = 1 then on_address ipv6_from_buf 16 ms orig_data data sndr node
     else if cmd = 2 then on_address ipv4_from_buf 4 ms orig_data data sndr node
     else if cmd = 3 then on_ip_packet orig_data data node
     else ([], Done node))"

lemma take_8: "8 \<le> length xs \<Longrightarrow>
  take 8 xs = [xs ! 0, xs ! 1, xs ! 2, xs ! 3, xs ! 4, xs ! 5, xs ! 6, xs ! 7]"
  by (rule nth_equalityI) (auto simp: nth_Cons' less_Suc_eq numeral_nat)

lemma handle_packet_eq:
  "handle_packet fx current data sndr node =
    (if accepts fx current data node
     then dispatch (data ! 8) (packet_ms data) data (drop 9 data) sndr (note_seen fx data node)
     else ([], Done node))"
proof (cases "length data < 9")
  case True
  then show ?thesis by (simp add: handle_packet_def accepts_def)
next
  case False
  have ms: "packet_ms data =
      from_le_bytes [data ! 0, data ! 1, data ! 2, data ! 3, data ! 4, data ! 5, data ! 6, data ! 7]"
    using False take_8 [of data] by (simp add: packet_ms_def)
  show ?thesis
    using False unfolding handle_packet_def ms [symmetric] Let_def
    by (cases "abs_diff current (packet_ms data) \<le> ignore_after")
      (simp_all add: accepts_def dispatch_def note_seen_def seen_contains_def seen_add_def
        not_less [symmetric] Let_def)
qed

lemma note_seen_keeps [simp]:
  "our_ips (note_seen fx data node) = our_ips node" "tun_sender (note_seen fx data node) = tun_sender node"
  "route_adder (note_seen fx data node) = route_adder node"
  "seen_packets (note_seen fx data node) = snd (seen_add fx data (seen_packets node))"
  by (simp_all add: note_seen_def)

text \<open>A pass that ends leaves the node as it was, except for the filter.\<close>

lemma add_route_Done: "add_route node addr = (acts, Done node') \<Longrightarrow> node' = node"
  by (auto simp: add_route_def split: option.splits if_splits)

lemma dispatch_Done:
  assumes "dispatch cmd ms orig_data data sndr node = (acts, Done node')"
  shows "node' = node"
  using assms
  by (auto simp: dispatch_def on_node_name_def on_address_def on_ip_packet_def add_route_def then_do_def
      split: if_splits option.splits exec.splits)

lemma handle_packet_Done:
  assumes "handle_packet fx current data sndr node = (acts, Done node')"
  shows "node' = (if accepts fx current data node then note_seen fx data node else node)"
  using assms dispatch_Done by (auto simp: handle_packet_eq split: if_splits)

text \<open>Every byte string a node passes on is the packet it got, or its payload for the TUN device.\<close>

definition action_data :: "node_action \<Rightarrow> bytes list" where
  "action_data a = (case a of
     Post_All_Senders (SendToAll d) \<Rightarrow> [d]
   | Post_All_Senders (SendToFastest _ d) \<Rightarrow> [d]
   | Post_Tun d \<Rightarrow> [d]
   | _ \<Rightarrow> [])"

lemma dispatch_action_data:
  assumes "a \<in> set (fst (dispatch cmd ms orig_data data sndr node))" and "d \<in> set (action_data a)"
  shows "d = orig_data \<or> d = data"
  using assms
  by (auto simp: dispatch_def on_node_name_def on_address_def on_ip_packet_def add_route_def then_do_def
      action_data_def handle_defs split: if_splits option.splits exec.splits)

section \<open>IP headers\<close>

definition ip_version :: "bytes \<Rightarrow> u8" where
  "ip_version data = drop_bit 4 (hd data AND 0xF0)"

text \<open>A payload that ends before the destination address of its header.\<close>

definition short_ip :: "bytes \<Rightarrow> bool" where
  "short_ip data \<longleftrightarrow> data = [] \<or> ip_version data = 4 \<and> length data < 20 \<or>
    ip_version data = 6 \<and> length data < 40"

definition ip_target :: "bytes \<Rightarrow> IpAddr option" where
  "ip_target data =
    (if ip_version data = 4 then
       (case ipv4_from_buf (take 4 (drop 16 data)) of Done a \<Rightarrow> Some a | _ \<Rightarrow> None)
     else if ip_version data = 6 then
       (case ipv6_from_buf (take 16 (drop 24 data)) of Done a \<Rightarrow> Some a | _ \<Rightarrow> None)
     else None)"

lemma ipv4_from_buf_total: "length buf = 4 \<Longrightarrow> \<exists>a. ipv4_from_buf buf = Done a"
  using ipv4_from_buf_Done_iff by blast

lemma ipv6_from_buf_total: "length buf = 16 \<Longrightarrow> \<exists>a. ipv6_from_buf buf = Done a"
  by (simp add: ipv6_from_buf_def)

lemma target_addr_eq:
  "target_addr data = (if short_ip data then Panic IndexOutOfBounds else Done (ip_target data))"
proof (cases data)
  case Nil
  then show ?thesis by (simp add: target_addr_def short_ip_def)
next
  case (Cons b bs)
  have eq: "target_addr data =
    (let from = (\<lambda>i j from_buf.
       case slice_range i j data of
         None \<Rightarrow> Panic IndexOutOfBounds
       | Some buf \<Rightarrow>
           (case from_buf buf of Done a \<Rightarrow> Done (Some a) | Panic p \<Rightarrow> Panic p | Diverges \<Rightarrow> Diverges))
     in if ip_version data = 4 then from 16 20 ipv4_from_buf
        else if ip_version data = 6 then from 24 40 ipv6_from_buf
        else Done None)"
    unfolding Cons target_addr_def ip_version_def by (simp add: Let_def)
  consider (v4) "ip_version data = 4" | (v6) "ip_version data = 6"
    | (none) "ip_version data \<noteq> 4" "ip_version data \<noteq> 6"
    by blast
  then show ?thesis
  proof cases
    case v4
    then show ?thesis
      using ipv4_from_buf_total [of "take 4 (drop 16 data)"] Cons
      unfolding eq by (auto simp: short_ip_def ip_target_def slice_range_def)
  next
    case v6
    then show ?thesis
      using ipv6_from_buf_total [of "take 16 (drop 24 data)"] Cons
      unfolding eq by (auto simp: short_ip_def ip_target_def slice_range_def)
  next
    case none
    then show ?thesis using Cons unfolding eq by (simp add: short_ip_def ip_target_def)
  qed
qed

section \<open>How a pass ends\<close>

lemma on_node_name_ends: "snd (on_node_name ms orig_data data sndr node) =
    (if \<not> from_utf8 data then Done node
     else if from_node_name data = None then Diverges
     else if route_adder node = Some False then Panic UnwrapFailed else Done node)"
  by (auto simp: on_node_name_def add_route_def then_do_def split: option.split)

lemma on_address_ends:
  "snd (on_address ipv4_from_buf 4 ms orig_data data sndr node) =
    (if length data = 4 \<and> route_adder node = Some False then Panic UnwrapFailed else Done node)"
  "snd (on_address ipv6_from_buf 16 ms orig_data data sndr node) =
    (if length data = 16 \<and> route_adder node = Some False then Panic UnwrapFailed else Done node)"
  using ipv4_from_buf_total [of data] ipv6_from_buf_total [of data]
  by (auto simp: on_address_def add_route_def then_do_def split: option.split)

lemma on_ip_packet_ends: "snd (on_ip_packet orig_data data node) =
    (if short_ip data then Panic IndexOutOfBounds
     else if tun_sender node = Some False \<and> (\<exists>a. ip_target data = Some a \<and> a \<in> our_ips node)
     then Panic UnwrapFailed else Done node)"
  by (auto simp: on_ip_packet_def target_addr_eq split: option.split)

lemmas dispatch_ends = dispatch_def on_node_name_ends on_address_ends on_ip_packet_ends

text \<open>A node with one address, and an IPv4 packet for another one.\<close>

definition sample_node :: MeshNode where
  "sample_node = \<lparr>our_ips = {V4 10 0 0 1}, seen_packets = SeenPackets_new 16384,
    tun_sender = Some True, route_adder = Some True\<rparr>"

definition sample_packet :: bytes where
  "sample_packet = [0, 0, 0, 0, 0, 0, 0, 0, 3,
    0x45, 0, 0, 20, 0, 0, 0, 0, 64, 0, 0, 0, 10, 0, 0, 1, 10, 0, 0, 2]"

lemma sample_target: "ip_version (drop 9 sample_packet) = 4"
  "ip_target (drop 9 sample_packet) = Some (V4 10 0 0 2)" "\<not> short_ip (drop 9 sample_packet)"
proof -
  show v: "ip_version (drop 9 sample_packet) = 4" by (simp add: ip_version_def sample_packet_def)
  show "ip_target (drop 9 sample_packet) = Some (V4 10 0 0 2)"
    unfolding ip_target_def v by (simp add: sample_packet_def)
  show "\<not> short_ip (drop 9 sample_packet)"
    unfolding short_ip_def v by (simp add: sample_packet_def)
qed

lemma sample_accepts: "accepts (\<lambda>_. 0) 0 sample_packet sample_node"
  by (simp add: accepts_def sample_node_def sample_packet_def packet_ms_def abs_diff_def
      seen_contains_def SeenPackets_new_def)

section \<open>Properties of the packet loop\<close>

text \<open>
  Packets that are too short, more than three minutes away from the clock of the node in either
  direction, or still in the duplicate filter have no effect at all: nothing is sent and the state of
  the node stays the same.
\<close>

theorem rejected_packets_ignored:
  assumes "length data < 9 \<or> abs_diff current (packet_ms data) > 180000 \<or>
    seen_contains fx (seen_packets node) data"
  shows "handle_packet fx current data sndr node = ([], Done node)"
proof -
  have "ignore_after = 180000" by (simp add: ignore_after_def)
  then have "\<not> accepts fx current data node" using assms by (auto simp: accepts_def)
  then show ?thesis by (simp add: handle_packet_eq)
qed

theorem rejected_packets_ignored_witness:
  "handle_packet (\<lambda>_. 0) 180001 [0, 0, 0, 0, 0, 0, 0, 0, 0, 97] 5
     \<lparr>our_ips = {}, seen_packets = SeenPackets_new 16384, tun_sender = None, route_adder = None\<rparr> =
   ([], Done \<lparr>our_ips = {}, seen_packets = SeenPackets_new 16384, tun_sender = None, route_adder = None\<rparr>)"
  by (rule rejected_packets_ignored) (simp add: packet_ms_def abs_diff_def)

text \<open>
  C19. When exactly a packet stops the node with an index out of bounds: an accepted packet with command
  3 whose payload is empty or ends before the destination address of the IP version it claims.
\<close>

theorem short_ip_packet_crashes:
  "snd (handle_packet fx current data sndr node) = Panic IndexOutOfBounds \<longleftrightarrow>
    accepts fx current data node \<and> data ! 8 = 3 \<and> short_ip (drop 9 data)"
proof -
  have "snd (dispatch cmd ms orig_data d sndr n) = Panic IndexOutOfBounds \<longleftrightarrow> cmd = 3 \<and> short_ip d"
    for cmd ms orig_data d n
    by (simp add: dispatch_ends)
  then show ?thesis by (simp add: handle_packet_eq)
qed

text \<open>
  C20. Nothing else a peer sends can stop the node: as long as the tasks behind the TUN and route channels
  run, every packet other than those short IP packets, and names whose address search never ends, is
  handled to the end, and only the duplicate filter changes.
\<close>

theorem node_survives:
  assumes "tun_sender node \<noteq> Some False" and "route_adder node \<noteq> Some False"
    and "\<not> (data ! 8 = 3 \<and> short_ip (drop 9 data))"
    and "\<not> (data ! 8 = 0 \<and> from_node_name (drop 9 data) = None)"
  shows "\<exists>acts. handle_packet fx current data sndr node =
    (acts, Done (if accepts fx current data node then note_seen fx data node else node))"
proof -
  have "snd (dispatch (data ! 8) ms data (drop 9 data) sndr (note_seen fx data node)) =
      Done (note_seen fx data node)" for ms
    using assms by (auto simp: dispatch_ends)
  then have "snd (handle_packet fx current data sndr node) =
      Done (if accepts fx current data node then note_seen fx data node else node)"
    by (simp add: handle_packet_eq)
  then show ?thesis by (metis prod.collapse)
qed

theorem node_survives_witness:
  "\<exists>acts. handle_packet (\<lambda>_. 0) 0 [0, 0, 0, 0, 0, 0, 0, 0, 3, 0x10] 5
     \<lparr>our_ips = {}, seen_packets = SeenPackets_new 16384, tun_sender = Some True, route_adder = None\<rparr> =
   (acts, Done (note_seen (\<lambda>_. 0) [0, 0, 0, 0, 0, 0, 0, 0, 3, 0x10]
     \<lparr>our_ips = {}, seen_packets = SeenPackets_new 16384, tun_sender = Some True, route_adder = None\<rparr>))"
  using node_survives [of "\<lparr>our_ips = {}, seen_packets = SeenPackets_new 16384, tun_sender = Some True,
      route_adder = None\<rparr>" "[0, 0, 0, 0, 0, 0, 0, 0, 3, 0x10]" "\<lambda>_. 0" 0 5]
  by (simp add: short_ip_def ip_version_def accepts_def packet_ms_def abs_diff_def seen_contains_def
      SeenPackets_new_def)

text \<open>
  Where an IP packet goes: an accepted packet with command 3 and a complete header goes to the TUN
  device, without the mesh header, exactly if its destination is one of the node's addresses; otherwise
  the packet is passed on unchanged over the fastest link to its destination; the destination is read
  from bytes 16 to 19 of an IPv4 header and 24 to 39 of an IPv6 header, and other versions are dropped.
\<close>

theorem ip_packet_forwarding:
  assumes "accepts fx current data node" and "data ! 8 = 3" and "\<not> short_ip (drop 9 data)"
    and "tun_sender node = Some True"
  shows "handle_packet fx current data sndr node =
      (case ip_target (drop 9 data) of
         None \<Rightarrow> []
       | Some target \<Rightarrow>
           if target \<in> our_ips node then [Post_Tun (drop 9 data)]
           else [Post_All_Senders (SendToFastest target data)],
       Done (note_seen fx data node)) \<and>
    (\<forall>target. ip_target (drop 9 data) = Some target \<longrightarrow>
      addr_bytes target = (if ip_version (drop 9 data) = 4 then take 4 (drop 25 data)
        else take 16 (drop 33 data)))"
proof
  show "handle_packet fx current data sndr node =
      (case ip_target (drop 9 data) of
         None \<Rightarrow> []
       | Some target \<Rightarrow>
           if target \<in> our_ips node then [Post_Tun (drop 9 data)]
           else [Post_All_Senders (SendToFastest target data)],
       Done (note_seen fx data node))"
    using assms
    by (auto simp: handle_packet_eq dispatch_def on_ip_packet_def target_addr_eq handle_defs
        split: option.split)
  show "\<forall>target. ip_target (drop 9 data) = Some target \<longrightarrow>
      addr_bytes target = (if ip_version (drop 9 data) = 4 then take 4 (drop 25 data)
        else take 16 (drop 33 data))"
    by (auto simp: ip_target_def split: if_splits exec.splits
        dest: ipv4_from_buf_bytes ipv6_from_buf_bytes)
qed

theorem ip_packet_forwarding_witness:
  "fst (handle_packet (\<lambda>_. 0) 0 sample_packet 5 sample_node) =
    [Post_All_Senders (SendToFastest (V4 10 0 0 2) sample_packet)]"
proof -
  have "sample_packet ! 8 = 3" "tun_sender sample_node = Some True" "V4 10 0 0 2 \<notin> our_ips sample_node"
    by (simp_all add: sample_packet_def sample_node_def)
  then show ?thesis
    using ip_packet_forwarding [OF sample_accepts _ sample_target(3), of 5] sample_target by simp
qed

text \<open>
  Nodes do not tamper: whatever a pass posts to the links or the TUN device is the packet it was
  given, byte for byte, or for the TUN device that packet without its nine header bytes; so a relay
  never makes a packet longer than one that arrived over a link.
\<close>

theorem packets_relayed_unchanged:
  assumes "a \<in> set (fst (handle_packet fx current data sndr node))" and "d \<in> set (action_data a)"
  shows "(d = data \<or> d = drop 9 data) \<and> length d \<le> length data"
proof -
  have "d = data \<or> d = drop 9 data"
    using assms dispatch_action_data by (auto simp: handle_packet_eq split: if_splits)
  then show ?thesis by auto
qed

theorem packets_relayed_unchanged_witness:
  "Post_All_Senders (SendToFastest (V4 10 0 0 2) sample_packet)
      \<in> set (fst (handle_packet (\<lambda>_. 0) 0 sample_packet 5 sample_node)) \<and>
    (sample_packet = sample_packet \<or> sample_packet = drop 9 sample_packet) \<and>
    length sample_packet \<le> length sample_packet"
proof -
  have "Post_All_Senders (SendToFastest (V4 10 0 0 2) sample_packet)
      \<in> set (fst (handle_packet (\<lambda>_. 0) 0 sample_packet 5 sample_node))"
    using sample_target sample_accepts
    by (simp add: handle_packet_eq dispatch_def on_ip_packet_def target_addr_eq handle_defs)
      (simp add: sample_packet_def sample_node_def)
  then show ?thesis
    using packets_relayed_unchanged [of _ "\<lambda>_. 0" 0 sample_packet 5 sample_node sample_packet]
    by (simp add: action_data_def)
qed

section \<open>Floods\<close>

definition broadcasts :: "bytes \<Rightarrow> node_action list \<Rightarrow> nat" where
  "broadcasts d acts = length (filter (\<lambda>a. a = Post_All_Senders (SendToAll d)) acts)"

lemma broadcasts_simps [simp]:
  "broadcasts d [] = 0"
  "broadcasts d (a # acts) = (if a = Post_All_Senders (SendToAll d) then 1 else 0) + broadcasts d acts"
  "broadcasts d (xs @ ys) = broadcasts d xs + broadcasts d ys"
  by (simp_all add: broadcasts_def)

lemma add_route_broadcasts [simp]: "broadcasts d (fst (add_route node addr)) = 0"
  by (simp add: add_route_def split: option.split)

lemma on_node_name_broadcasts:
  "broadcasts d (fst (on_node_name ms orig_data data sndr node)) \<le> (if d = orig_data then 1 else 0)"
  by (auto simp: on_node_name_def add_route_def then_do_def handle_defs split: option.split)

lemma on_address_broadcasts:
  "broadcasts d (fst (on_address from_buf len ms orig_data data sndr node)) \<le>
    (if d = orig_data then 1 else 0)"
  by (auto simp: on_address_def then_do_def handle_defs split: exec.split)

lemma on_ip_packet_broadcasts: "broadcasts d (fst (on_ip_packet orig_data data node)) = 0"
  by (simp add: on_ip_packet_def target_addr_eq handle_defs split: option.split)

lemma handle_packet_broadcasts:
  "broadcasts d (fst (handle_packet fx current data sndr node)) \<le>
    (if d = data \<and> accepts fx current data node then 1 else 0)"
  using on_node_name_broadcasts [of d _ data] on_address_broadcasts [of d _ _ _ data]
  by (auto simp: handle_packet_eq dispatch_def on_ip_packet_broadcasts)

text \<open>As long as no more hashes occur than the filter holds, it forgets none.\<close>

lemma seen_add_no_evict:
  assumes "seen_inv s" and "hashset s \<subseteq> H" and "fx p \<in> H" and "finite H" and "card H \<le> capacity s"
  shows "hashset (snd (seen_add fx p s)) = insert (fx p) (hashset s)"
proof (cases "fx p \<in> hashset s")
  case True
  then show ?thesis by (simp add: seen_add_def insert_absorb)
next
  case False
  let ?q = "deque s @ [fx p]"
  have "distinct ?q" and "set ?q \<subseteq> H" using assms False by (auto simp: seen_inv_def)
  then have "length ?q \<le> card H" using assms(4) card_mono distinct_card by metis
  then show ?thesis using False assms(5) by (simp add: seen_add_def evict_def Let_def)
qed

lemma node_loop_broadcasts:
  assumes "seen_inv (seen_packets node)" and "hashset (seen_packets node) \<subseteq> H"
    and "(\<lambda>(_, data, _). fx data) ` set packets \<subseteq> H" and "finite H"
    and "card H \<le> capacity (seen_packets node)"
  shows "broadcasts d (fst (node_loop fx packets node)) \<le> (if seen_contains fx (seen_packets node) d then 0 else 1)"
  using assms
proof (induction fx packets node rule: node_loop.induct)
  case (1 fx node)
  then show ?case by simp
next
  case (2 fx current data sndr packets node)
  obtain acts r where h: "handle_packet fx current data sndr node = (acts, r)" by fastforce
  have first: "broadcasts d acts \<le> (if d = data \<and> accepts fx current data node then 1 else 0)"
    using handle_packet_broadcasts [of d fx current data sndr node] h by simp
  show ?case
  proof (cases r)
    case (Done node')
    note node' = handle_packet_Done [OF h [unfolded Done]]
    have hashes: "hashset (seen_packets node') =
        (if accepts fx current data node then insert (fx data) else id) (hashset (seen_packets node))"
      using node' seen_add_no_evict [of "seen_packets node" H fx data] "2.prems" by simp
    have "broadcasts d (fst (node_loop fx packets node')) \<le>
        (if seen_contains fx (seen_packets node') d then 0 else 1)"
      using "2.prems" node' hashes seen_inv_add
      by (intro "2.IH" [OF h [symmetric] Done]) (auto split: if_splits)
    then show ?thesis
      using first hashes
      by (auto simp: h Done then_do_def seen_contains_def accepts_def split: if_splits)
  qed (use first in \<open>auto simp: h accepts_def split: if_splits\<close>)
qed

text \<open>
  A node at work: packets arrive at its packet loop, and in between its announcing tasks broadcast the node's own
  announcements, which they do without telling the duplicate filter.
\<close>

datatype node_event = Arrives u64 bytes sender | Announces bytes

fun node_run :: "(bytes \<Rightarrow> u64) \<Rightarrow> node_event list \<Rightarrow> MeshNode \<Rightarrow> node_action list \<times> MeshNode exec" where
  "node_run fx [] node = ([], Done node)"
| "node_run fx (Announces data # events) node =
    then_do [Post_All_Senders (send_all data)] (node_run fx events node)"
| "node_run fx (Arrives current data sndr # events) node =
    (case handle_packet fx current data sndr node of
       (acts, Done node) \<Rightarrow> then_do acts (node_run fx events node)
     | (acts, r) \<Rightarrow> (acts, r))"

fun arrivals :: "node_event list \<Rightarrow> (u64 \<times> bytes \<times> sender) list" where
  "arrivals [] = []"
| "arrivals (Arrives current data sndr # events) = (current, data, sndr) # arrivals events"
| "arrivals (Announces _ # events) = arrivals events"

lemma node_run_broadcasts:
  "broadcasts d (fst (node_run fx events node)) \<le>
    count_list events (Announces d) + broadcasts d (fst (node_loop fx (arrivals events) node))"
proof (induction fx events node rule: node_run.induct)
  case (2 fx data events node)
  then show ?case by (auto simp: then_do_def send_all_def)
next
  case (3 fx current data sndr events node)
  obtain acts r where h: "handle_packet fx current data sndr node = (acts, r)" by fastforce
  show ?case
  proof (cases r)
    case (Done node')
    then show ?thesis using "3.IH" [OF h [symmetric] Done] by (simp add: h then_do_def)
  qed (simp_all add: h)
qed simp

text \<open>
  C9. Floods die out: whatever packets arrive at a node that has just started, over whatever links and however often,
  and whatever its own tasks announce in between, it broadcasts each packet at most once more than it
  announced that packet itself; so a packet of another node at most once, and an announcement of its own a second time
  only when it comes back. This holds as long as no more different hashes arrive than the duplicate filter
  holds (16384 in the program).
\<close>

theorem flood_once:
  assumes "card ((\<lambda>(_, data, _). fx data) ` set (arrivals events)) \<le> n"
    and "seen_packets node = SeenPackets_new n"
  shows "broadcasts d (fst (node_run fx events node)) \<le> count_list events (Announces d) + 1"
proof -
  have "broadcasts d (fst (node_loop fx (arrivals events) node)) \<le>
      (if seen_contains fx (seen_packets node) d then 0 else 1)"
    by (rule node_loop_broadcasts [where H = "(\<lambda>(_, data, _). fx data) ` set (arrivals events)"])
      (use assms seen_inv_new in \<open>auto simp: SeenPackets_new_def\<close>)
  then show ?thesis using node_run_broadcasts [of d fx events node] by (auto split: if_splits)
qed

text \<open>The bound is met when an announcement comes back.\<close>

theorem flood_once_witness:
  "broadcasts (ipv4_announcement 0 [10, 0, 0, 1]) (fst (node_run (\<lambda>p. of_nat (length p))
      [Announces (ipv4_announcement 0 [10, 0, 0, 1]), Arrives 0 (ipv4_announcement 0 [10, 0, 0, 1]) 5,
       Arrives 0 (ipv4_announcement 0 [10, 0, 0, 1]) 6] sample_node)) \<le> 2 \<and>
   broadcasts (ipv4_announcement 0 [10, 0, 0, 1]) (fst (node_run (\<lambda>p. of_nat (length p))
      [Announces (ipv4_announcement 0 [10, 0, 0, 1]), Arrives 0 (ipv4_announcement 0 [10, 0, 0, 1]) 5] sample_node)) = 2"
proof
  let ?fx = "\<lambda>p :: bytes. of_nat (length p) :: u64" and ?d = "ipv4_announcement 0 [10, 0, 0, 1]"
  show "broadcasts ?d (fst (node_run ?fx [Announces ?d, Arrives 0 ?d 5, Arrives 0 ?d 6] sample_node)) \<le> 2"
    using flood_once [of ?fx "[Announces ?d, Arrives 0 ?d 5, Arrives 0 ?d 6]" 16384 sample_node ?d]
    by (simp add: sample_node_def)
  have "accepts ?fx 0 ?d sample_node"
    by (simp add: accepts_def sample_node_def ipv4_announcement_def packet_ms_def abs_diff_def
        seen_contains_def SeenPackets_new_def)
  moreover have "?d ! 8 = 2" "drop 9 ?d = [10, 0, 0, 1]"
    using nth_append_length [of "to_le_bytes 8 (0 :: u64)" 2 "[10, 0, 0, 1]"] by (simp_all add: ipv4_announcement_def)
  ultimately show "broadcasts ?d (fst (node_run ?fx [Announces ?d, Arrives 0 ?d 5] sample_node)) = 2"
    by (simp add: handle_packet_eq dispatch_def on_address_def add_route_def then_do_def handle_defs split: option.split)
qed

end
