(* ===== verification/Ip_Addr_Example.thy ===== *)
theory Ip_Addr_Example
  imports Ip_Addr
begin

text \<open>
  The derivation of an address evaluated on a concrete node name, which shows that the search of
  \<open>from_node_name\<close> does return.
\<close>

section \<open>A concrete name\<close>

text \<open>The name \<^verbatim>\<open>r12\<close>, whose search takes one extra round.\<close>

lemma funpow_numeral_eval: "(f ^^ numeral k) x = (f ^^ pred_numeral k) (f x)"
  by (simp add: numeral_eq_Suc funpow_swap1)

lemma ernd0_eval: "ernd0 (a, b) = ernd a b 0"
  by (simp add: ernd0_def)

lemma mix_byte_eval: "mix_byte c (a, b) = (ernd0 ^^ 32) (ernd a b (ucast c))"
  by (simp add: mix_byte_def)

lemmas name_eval = funpow_numeral_eval ernd0_eval mix_byte_eval ernd_out_def word_eval

lemma mix_name_r12: "mix_name [0x72, 0x31, 0x32] = (0xdf6f65ee1493aad8, 0x1c7324ce6b47a77b)"
  by (simp add: mix_name_def name_eval)

lemma find_prefix_r12: "find_prefix (0xdf6f65ee1493aad8, 0x1c7324ce6b47a77b) =
  Some (0xf5529434595c3b25, 0x16cbb247036100fd)"
proof -
  have "ernd0 (0xdf6f65ee1493aad8, 0x1c7324ce6b47a77b) = (0xf5529434595c3b25, 0x16cbb247036100fd)"
    by (simp add: name_eval)
  moreover have "\<not> has_prefix (0xdf6f65ee1493aad8, 0x1c7324ce6b47a77b)"
    "has_prefix (0xf5529434595c3b25, 0x16cbb247036100fd)"
    by (simp_all add: has_prefix_def to_le_bytes_8)
  ultimately show ?thesis by (simp add: find_prefix.simps)
qed

lemma from_node_name_r12: "from_node_name [0x72, 0x31, 0x32] =
  Some (V6 0xfd 0x00 0x61 0x03 0x47 0xb2 0xcb 0x16 0x25 0x3b 0x5c 0x59 0x34 0x94 0x52 0xf5)"
  by (simp add: from_node_name_def mix_name_r12 find_prefix_r12 words_to_addr_def to_le_bytes_8)

theorem from_node_name_prefix_witness:
  "from_node_name [0x72, 0x31, 0x32] = Some (V6 0xfd 0x00 0x61 0x03 0x47 0xb2 0xcb 0x16
     0x25 0x3b 0x5c 0x59 0x34 0x94 0x52 0xf5) \<and>
   (\<exists>c d e f g h i j k l m n p q. V6 0xfd 0x00 0x61 0x03 0x47 0xb2 0xcb 0x16
     0x25 0x3b 0x5c 0x59 0x34 0x94 0x52 0xf5 = V6 0xfd 0x00 c d e f g h i j k l m n p q)"
  using from_node_name_r12 from_node_name_prefix [OF from_node_name_r12] by blast

end
