(* ===== verification/Mesh_Routing.thy ===== *)
theory Mesh_Routing
  imports Mesh_Node Ip_Addr_Example
begin

text \<open>
  How packets find their way: what a node learns from the announcements it hears, and where the packet
  loop (\<^verbatim>\<open>rust/src/main.rs\<close>) and the dispatcher (\<^verbatim>\<open>rust/src/all_senders.rs\<close>) together send an IP packet.
\<close>

fun senders_msgs :: "node_action list \<Rightarrow> AllSendersMessage list" where
  "senders_msgs [] = []"
| "senders_msgs (Post_All_Senders m # acts) = m # senders_msgs acts"
| "senders_msgs (_ # acts) = senders_msgs acts"

lemma senders_msgs_append [simp]: "senders_msgs (xs @ ys) = senders_msgs xs @ senders_msgs ys"
  by (induction xs rule: senders_msgs.induct) auto

lemma best_of_single: "best_of [x] y \<longleftrightarrow> y = x"
  by (auto simp: best_of_def Cons_eq_append_conv)

section \<open>Announcements\<close>

lemma packet_ms_append [simp]: "packet_ms (to_le_bytes 8 ms @ rest) = ms"
  by (simp add: packet_ms_def)

lemma nth_8_append [simp]: "(to_le_bytes 8 ms @ cmd # rest) ! 8 = cmd"
  using nth_append_length [of "to_le_bytes 8 ms" cmd rest] by simp

lemma drop_9_append [simp]: "drop 9 (to_le_bytes 8 ms @ cmd # rest) = rest"
  by simp

lemma learn_name:
  assumes "from_utf8 name" and "from_node_name name = Some addr"
    and "accepts fx current (name_announcement ms name) node" and "route_adder node \<noteq> Some False"
  shows "handle_packet fx current (name_announcement ms name) sndr node =
    (Post_All_Senders (AddFastestTo ms addr sndr) #
     (if route_adder node = None then [] else [Post_Route addr]) @
     [Post_All_Senders (SendToAll (name_announcement ms name))],
     Done (note_seen fx (name_announcement ms name) node))"
  using assms unfolding name_announcement_def
  by (auto simp: handle_packet_eq dispatch_def on_node_name_def add_route_def then_do_def handle_defs
      split: option.split)

text \<open>
  A node name that another node floods is learnt: a node that accepts the announcement made by
  \<^verbatim>\<open>run_meshnode\<close> for a name records the link it came from under the address of that name and the
  sender's time stamp, adds a route when it has a route creator, and floods the identical packet.
\<close>

theorem name_announcement_learned:
  assumes "from_utf8 name" and "from_node_name name = Some addr"
    and "accepts fx current (name_announcement ms name) node" and "route_adder node \<noteq> Some False"
  shows "handle_packet fx current (name_announcement ms name) sndr node =
    (Post_All_Senders (AddFastestTo ms addr sndr) #
     (if route_adder node = None then [] else [Post_Route addr]) @
     [Post_All_Senders (SendToAll (name_announcement ms name))],
     Done (note_seen fx (name_announcement ms name) node))"
  using assms by (rule learn_name)

theorem name_announcement_learned_witness:
  "fst (handle_packet (\<lambda>_. 0) 0 (name_announcement 0 [0x72, 0x31, 0x32]) 5 sample_node) =
    [Post_All_Senders (AddFastestTo 0 (V6 0xfd 0x00 0x61 0x03 0x47 0xb2 0xcb 0x16
       0x25 0x3b 0x5c 0x59 0x34 0x94 0x52 0xf5) 5),
     Post_Route (V6 0xfd 0x00 0x61 0x03 0x47 0xb2 0xcb 0x16 0x25 0x3b 0x5c 0x59 0x34 0x94 0x52 0xf5),
     Post_All_Senders (SendToAll (name_announcement 0 [0x72, 0x31, 0x32]))]"
proof -
  have "accepts (\<lambda>_. 0) 0 (name_announcement 0 [0x72, 0x31, 0x32]) sample_node"
    by (simp add: accepts_def sample_node_def name_announcement_def abs_diff_def
        seen_contains_def SeenPackets_new_def)
  then show ?thesis
    using name_announcement_learned [OF _ from_node_name_r12, of "\<lambda>_. 0" 0 0 sample_node 5]
    by (simp add: sample_node_def)
qed

text \<open>
  The same for an IPv4 address: the announcement of four bytes is learnt under that address and
  flooded unchanged.
\<close>

theorem ipv4_announcement_learned:
  assumes "accepts fx current (ipv4_announcement ms (addr_bytes (V4 a b c d))) node"
    and "route_adder node \<noteq> Some False"
  shows "handle_packet fx current (ipv4_announcement ms (addr_bytes (V4 a b c d))) sndr node =
    ([Post_All_Senders (AddFastestTo ms (V4 a b c d) sndr),
      Post_All_Senders (SendToAll (ipv4_announcement ms (addr_bytes (V4 a b c d))))] @
     (if route_adder node = None then [] else [Post_Route (V4 a b c d)]),
     Done (note_seen fx (ipv4_announcement ms (addr_bytes (V4 a b c d))) node))"
  using assms unfolding ipv4_announcement_def
  by (auto simp: handle_packet_eq dispatch_def on_address_def add_route_def then_do_def handle_defs
      split: option.split)

theorem ipv4_announcement_learned_witness:
  "senders_msgs (fst (handle_packet (\<lambda>_. 0) 7 (ipv4_announcement 7 [10, 0, 0, 2]) 5 sample_node)) =
    [AddFastestTo 7 (V4 10 0 0 2) 5, SendToAll (ipv4_announcement 7 [10, 0, 0, 2])]"
proof -
  have "accepts (\<lambda>_. 0) 7 (ipv4_announcement 7 (addr_bytes (V4 10 0 0 2))) sample_node"
    by (simp add: accepts_def sample_node_def ipv4_announcement_def abs_diff_def
        seen_contains_def SeenPackets_new_def)
  from ipv4_announcement_learned [OF this, of 5] show ?thesis by (simp add: sample_node_def)
qed

section \<open>What a node has heard\<close>

text \<open>The address a packet announces, if it is an announcement.\<close>

definition announces :: "bytes \<Rightarrow> IpAddr option" where
  "announces data =
    (let body = drop 9 data
     in if data ! 8 = 0 \<and> from_utf8 body then from_node_name body
        else if data ! 8 = 1 \<and> length body = 16 then
          (case ipv6_from_buf body of Done a \<Rightarrow> Some a | _ \<Rightarrow> None)
        else if data ! 8 = 2 \<and> length body = 4 then
          (case ipv4_from_buf body of Done a \<Rightarrow> Some a | _ \<Rightarrow> None)
        else None)"

text \<open>The announcements of an address among the accepted packets: time stamps and links.\<close>

fun heard :: "(bytes \<Rightarrow> u64) \<Rightarrow> IpAddr \<Rightarrow> (u64 \<times> bytes \<times> sender) list \<Rightarrow> MeshNode \<Rightarrow> (u64 \<times> sender) list" where
  "heard fx addr [] node = []"
| "heard fx addr ((current, data, sndr) # packets) node =
    (if accepts fx current data node then
       (if announces data = Some addr then [(packet_ms data, sndr)] else []) @
       heard fx addr packets (note_seen fx data node)
     else heard fx addr packets node)"

lemma dispatch_announcements:
  assumes "dispatch (data ! 8) ms data (drop 9 data) sndr node = (acts, Done node')"
  shows "announcements addr (senders_msgs acts) = (if announces data = Some addr then [(ms, sndr)] else [])"
  using assms ipv4_from_buf_total [of "drop 9 data"] ipv6_from_buf_total [of "drop 9 data"]
  by (auto simp: dispatch_def on_node_name_def on_address_def on_ip_packet_def add_route_def then_do_def
      handle_defs announces_def Let_def split: if_splits option.splits exec.splits)

lemma node_loop_heard:
  assumes "node_loop fx packets node = (acts, Done node')"
  shows "announcements addr (senders_msgs acts) = heard fx addr packets node"
  using assms
proof (induction fx packets node arbitrary: acts rule: node_loop.induct)
  case (1 fx node)
  then show ?case by simp
next
  case (2 fx current data sndr packets node)
  obtain acts1 r where h: "handle_packet fx current data sndr node = (acts1, r)" by fastforce
  then obtain node1 where r: "r = Done node1" using "2.prems" by (cases r) auto
  obtain acts2 r2 where n: "node_loop fx packets node1 = (acts2, r2)" by fastforce
  then have acts: "acts = acts1 @ acts2" and rest: "node_loop fx packets node1 = (acts2, Done node')"
    using "2.prems" by (simp_all add: h r then_do_def)
  have tail: "announcements addr (senders_msgs acts2) = heard fx addr packets node1"
    by (rule "2.IH" [OF h [symmetric] r rest])
  show ?case
  proof (cases "accepts fx current data node")
    case True
    then show ?thesis
      using dispatch_announcements h handle_packet_Done [OF h [unfolded r]] tail
      by (simp add: acts announcements_append handle_packet_eq r)
  next
    case False
    then show ?thesis
      using h handle_packet_Done [OF h [unfolded r]] tail by (simp add: acts handle_packet_eq)
  qed
qed

text \<open>
  C6. An IP packet takes the best route the node has heard of. After any packets, with the dispatcher
  having learnt from the packet loop, an accepted IP packet for an address that is not the node's own is
  sent unchanged over one link: the one over which the newest announcement of the address came in
  first. If the address was never announced the packet is dropped.
\<close>

theorem ip_packet_takes_best_route:
  assumes "node_loop fx packets node = (acts, Done node')"
    and "announcements target (map snd msgs) = announcements target (senders_msgs acts)"
    and "accepts fx current data node'" and "data ! 8 = 3" and "\<not> short_ip (drop 9 data)"
    and "ip_target (drop 9 data) = Some target" and "target \<notin> our_ips node'"
  shows "\<exists>msg. fst (handle_packet fx current data sndr node') = [Post_All_Senders msg] \<and>
    (let sends = snd (all_senders_step alive msg (fst (all_senders_task msgs all_senders_init)));
         routes = heard fx target packets node
     in routes = [] \<and> sends = [] \<or> (\<exists>ms link. best_of routes (ms, link) \<and> sends = [(link, data)]))"
proof -
  let ?st = "fst (all_senders_task msgs all_senders_init)"
  have "fst (handle_packet fx current data sndr node') = [Post_All_Senders (SendToFastest target data)]"
    using assms(3-7) by (simp add: handle_packet_eq dispatch_def on_ip_packet_def target_addr_eq handle_defs)
  moreover have "announcements target (map snd msgs) = heard fx target packets node"
    using node_loop_heard [OF assms(1), of target] assms(2) by simp
  note table = task_table [of target msgs, unfolded this]
  ultimately show ?thesis
    by (intro exI [of _ "SendToFastest target data"]) (use table in \<open>auto simp: Let_def split: option.splits\<close>)
qed

text \<open>The node of the examples hears of \<^verbatim>\<open>10.0.0.2\<close> on link 5 and then gets a packet for it on link 6.\<close>

theorem ip_packet_takes_best_route_witness:
  "\<exists>node' msg. snd (node_loop (\<lambda>p. of_nat (length p)) [(0, ipv4_announcement 0 [10, 0, 0, 2], 5)] sample_node) =
      Done node' \<and>
    fst (handle_packet (\<lambda>p. of_nat (length p)) 0 sample_packet 6 node') = [Post_All_Senders msg] \<and>
    snd (all_senders_step (\<lambda>_. True) msg (fst (all_senders_task
      [(\<lambda>_. True, AddFastestTo 0 (V4 10 0 0 2) 5)] all_senders_init))) = [(5, sample_packet)]"
proof -
  let ?fx = "\<lambda>p :: bytes. of_nat (length p) :: u64"
  let ?ann = "ipv4_announcement 0 [10, 0, 0, 2]"
  let ?node = "note_seen ?fx ?ann sample_node"
  have acc: "accepts ?fx 0 ?ann sample_node"
    by (simp add: accepts_def sample_node_def ipv4_announcement_def abs_diff_def
        seen_contains_def SeenPackets_new_def)
  have ann: "?ann ! 8 = 2" "drop 9 ?ann = [10, 0, 0, 2]" "packet_ms ?ann = 0"
    by (simp_all add: ipv4_announcement_def)
  have loop: "node_loop ?fx [(0, ?ann, 5)] sample_node =
      ([Post_All_Senders (AddFastestTo 0 (V4 10 0 0 2) 5), Post_All_Senders (SendToAll ?ann),
        Post_Route (V4 10 0 0 2)], Done ?node)"
    using acc ann by (simp add: handle_packet_eq dispatch_def on_address_def add_route_def then_do_def
        handle_defs) (simp add: sample_node_def)
  have "heard ?fx (V4 10 0 0 2) [(0, ?ann, 5)] sample_node = [(0, 5)]"
    using acc ann by (simp add: announces_def)
  moreover have "accepts ?fx 0 sample_packet ?node"
    by (simp add: accepts_def packet_ms_def abs_diff_def seen_contains_def seen_add_def evict_def
        sample_packet_def sample_node_def ipv4_announcement_def SeenPackets_new_def Let_def)
  moreover have "sample_packet ! 8 = 3" "V4 10 0 0 2 \<notin> our_ips ?node"
    by (simp_all add: sample_packet_def sample_node_def)
  ultimately show ?thesis
    using ip_packet_takes_best_route [OF loop, of "V4 10 0 0 2"
        "[(\<lambda>_. True, AddFastestTo 0 (V4 10 0 0 2) 5)]" 0 sample_packet 6 "\<lambda>_. True"] sample_target loop
    by (simp add: Let_def best_of_single)
qed

end
