(* ===== verification/Tuntap.thy ===== *)
theory Tuntap
  imports Mesh_Node
begin

text \<open>
  The TUN devices, \<^verbatim>\<open>rust/src/linux_tuntap.rs\<close> and \<^verbatim>\<open>rust/src/mac_tuntap.rs\<close>: what the node makes of
  the IP packets it reads from the device, what it writes to the device, and the commands that give the
  interface its addresses and routes. A device is the list of results of reading from it and of writing
  to it; commands are the strings handed to the shell, running them is outside the model.
\<close>

section \<open>From the device to the mesh\<close>

datatype tun_read = Packet bytes | Read_Error

text \<open>The mesh packet around an IP packet, for the link that is fastest to its destination.\<close>

definition net_packet :: "u64 \<Rightarrow> bytes \<Rightarrow> bytes" where
  "net_packet millis packet = to_le_bytes 8 millis @ [3] @ packet"

definition tun_target :: "bytes \<Rightarrow> IpAddr option exec" where
  "tun_target packet =
    (case packet of
       [] \<Rightarrow> Panic IndexOutOfBounds
     | b # _ \<Rightarrow>
         (let ip_version = drop_bit 4 (b AND 0xF0);
              from = (\<lambda>i j from_buf.
                case slice_range i j packet of
                  None \<Rightarrow> Panic IndexOutOfBounds
                | Some buf \<Rightarrow>
                    (case from_buf buf of Done a \<Rightarrow> Done (Some a) | Panic p \<Rightarrow> Panic p | Diverges \<Rightarrow> Diverges))
          in if ip_version = 4 \<and> 20 \<le> length packet then from 16 20 ipv4_from_buf
             else if ip_version = 6 \<and> 40 \<le> length packet then from 24 40 ipv6_from_buf
             else Done None))"

definition tun_send :: "u64 \<Rightarrow> bytes \<Rightarrow> AllSendersMessage list exec" where
  "tun_send millis packet =
    (case tun_target packet of
       Done None \<Rightarrow> Done []
     | Done (Some target) \<Rightarrow> Done [send_to_fastest target (net_packet millis packet)]
     | Panic p \<Rightarrow> Panic p
     | Diverges \<Rightarrow> Diverges)"

text \<open>The task reading a Linux device; reading no bytes ends it.\<close>

fun linux_tun_reader :: "(u64 \<times> tun_read) list \<Rightarrow> AllSendersMessage list exec" where
  "linux_tun_reader [] = Done []"
| "linux_tun_reader ((millis, Read_Error) # reads) = linux_tun_reader reads"
| "linux_tun_reader ((millis, Packet packet) # reads) =
    (if packet = [] then Done []
     else case tun_send millis packet of
       Done msgs \<Rightarrow>
         (case linux_tun_reader reads of Done msgs' \<Rightarrow> Done (msgs @ msgs') | r \<Rightarrow> r)
     | r \<Rightarrow> r)"

text \<open>The same task for macOS, where four bytes of protocol family come before the IP packet.\<close>

fun mac_tun_reader :: "(u64 \<times> tun_read) list \<Rightarrow> AllSendersMessage list exec" where
  "mac_tun_reader [] = Done []"
| "mac_tun_reader ((millis, Read_Error) # reads) = mac_tun_reader reads"
| "mac_tun_reader ((millis, Packet buf) # reads) =
    (if buf = [] then Done []
     else if length buf < 4 then mac_tun_reader reads
     else
       let packet = drop 4 buf
       in if packet = [] then mac_tun_reader reads
          else case tun_send millis packet of
            Done msgs \<Rightarrow>
              (case mac_tun_reader reads of Done msgs' \<Rightarrow> Done (msgs @ msgs') | r \<Rightarrow> r)
          | r \<Rightarrow> r)"

section \<open>From the mesh to the device\<close>

text \<open>Packets with whether writing them succeeds. On Linux a failed write is unwrapped.\<close>

fun linux_tun_writer :: "(bytes \<times> bool) list \<Rightarrow> bytes list \<times> unit exec" where
  "linux_tun_writer [] = ([], Done ())"
| "linux_tun_writer ((packet, ok) # packets) =
    (if ok then let (ws, r) = linux_tun_writer packets in (packet # ws, r) else ([], Panic UnwrapFailed))"

definition proto_family :: "u8 \<Rightarrow> bytes option" where
  "proto_family version =
    (if version = 4 then Some [0x00, 0x00, 0x00, 0x02]
     else if version = 6 then Some [0x00, 0x00, 0x00, 0x1e]
     else None)"

fun mac_tun_writer :: "(bytes \<times> bool) list \<Rightarrow> bytes list \<times> unit exec" where
  "mac_tun_writer [] = ([], Done ())"
| "mac_tun_writer ((packet, ok) # packets) =
    (case packet of
       [] \<Rightarrow> ([], Panic IndexOutOfBounds)
     | b # _ \<Rightarrow>
         (case proto_family (drop_bit 4 (b AND 0xF0)) of
            None \<Rightarrow> mac_tun_writer packets
          | Some family \<Rightarrow>
              let (ws, r) = mac_tun_writer packets
              in (if ok then (family @ packet) # ws else ws, r)))"

section \<open>Commands\<close>

definition linux_set_ip6 :: "IpAddr \<Rightarrow> u8 \<Rightarrow> string" where
  "linux_set_ip6 addr prefix_len =
    ''ip -6 addr add '' @ fmt_addr addr @ ''/'' @ fmt_dec prefix_len @ '' dev smolmesh1''"

definition linux_set_ipv4 :: "IpAddr \<Rightarrow> string" where
  "linux_set_ipv4 addr = ''ip -4 addr add '' @ fmt_addr addr @ ''/32 dev smolmesh1''"

definition linux_route_cmd :: "IpAddr \<Rightarrow> string" where
  "linux_route_cmd addr =
    (let version = (case addr of V4 _ _ _ _ \<Rightarrow> 4 | _ \<Rightarrow> 6);
         prefix_len = (case addr of V4 _ _ _ _ \<Rightarrow> 32 | _ \<Rightarrow> 128)
     in ''ip -'' @ fmt_dec version @ '' route add '' @ fmt_addr addr @ ''/'' @ fmt_dec prefix_len @
        '' dev smolmesh1'')"

definition mac_set_ip6 :: "string \<Rightarrow> IpAddr \<Rightarrow> u8 \<Rightarrow> string" where
  "mac_set_ip6 name addr prefix_len =
    ''ifconfig '' @ name @ '' inet6 '' @ fmt_addr addr @ ''/'' @ fmt_dec prefix_len @ '' alias''"

definition mac_route_cmd :: "string \<Rightarrow> IpAddr \<Rightarrow> string" where
  "mac_route_cmd name addr =
    (let inet_flag = (case addr of V4 _ _ _ _ \<Rightarrow> ''inet'' | _ \<Rightarrow> ''inet6'')
     in ''route add -'' @ inet_flag @ '' '' @ fmt_addr addr @ '' -interface '' @ name)"

text \<open>The task behind \<^verbatim>\<open>route_creator\<close>: the commands it runs for the addresses it receives.\<close>

fun route_creator :: "(IpAddr \<Rightarrow> string) \<Rightarrow> IpAddr set \<Rightarrow> IpAddr list \<Rightarrow> string list" where
  "route_creator cmd already_added [] = []"
| "route_creator cmd already_added (addr # addrs) =
    (if addr \<in> already_added then route_creator cmd already_added addrs
     else cmd addr # route_creator cmd (insert addr already_added) addrs)"

text \<open>The interface request of \<^verbatim>\<open>TunInterface::open\<close> on Linux: the name, and two bytes of flags.\<close>

definition tun_ifr :: "bytes \<Rightarrow> u32 \<Rightarrow> bytes exec" where
  "tun_ifr ifname flags =
    (let ifr = replicate (16 + 2) 0;
         len = length ifname
     in if len \<le> 18 then
          let ifr = copy_from_slice 0 ifname ifr;
              flags_encoded = to_le_bytes 4 flags
          in Done (ifr[16 := flags_encoded ! 0, 17 := flags_encoded ! 1])
        else Panic IndexOutOfBounds)"

text \<open>\<^verbatim>\<open>open_sync_device\<close> on macOS: the first of a hundred names the system grants.\<close>

fun open_sync_device :: "(nat \<Rightarrow> bool) \<Rightarrow> nat \<Rightarrow> nat \<Rightarrow> nat option" where
  "open_sync_device builds i 0 = None"
| "open_sync_device builds i (Suc n) = (if builds i then Some i else open_sync_device builds (i + 1) n)"

section \<open>Packets from the device\<close>

lemma tun_target_eq:
  "packet \<noteq> [] \<Longrightarrow> tun_target packet = Done (if short_ip packet then None else ip_target packet)"
proof (cases packet)
  case (Cons b bs)
  have eq: "tun_target packet =
    (let from = (\<lambda>i j from_buf.
       case slice_range i j packet of
         None \<Rightarrow> Panic IndexOutOfBounds
       | Some buf \<Rightarrow>
           (case from_buf buf of Done a \<Rightarrow> Done (Some a) | Panic p \<Rightarrow> Panic p | Diverges \<Rightarrow> Diverges))
     in if ip_version packet = 4 \<and> 20 \<le> length packet then from 16 20 ipv4_from_buf
        else if ip_version packet = 6 \<and> 40 \<le> length packet then from 24 40 ipv6_from_buf
        else Done None)"
    unfolding Cons tun_target_def ip_version_def by (simp add: Let_def)
  consider (v4) "ip_version packet = 4" | (v6) "ip_version packet = 6"
    | (none) "ip_version packet \<noteq> 4" "ip_version packet \<noteq> 6"
    by blast
  then show ?thesis
  proof cases
    case v4
    then show ?thesis
      using ipv4_from_buf_total [of "take 4 (drop 16 packet)"] Cons
      unfolding eq by (auto simp: short_ip_def ip_target_def slice_range_def)
  next
    case v6
    then show ?thesis
      using ipv6_from_buf_total [of "take 16 (drop 24 packet)"] Cons
      unfolding eq by (auto simp: short_ip_def ip_target_def slice_range_def)
  next
    case none
    then show ?thesis using Cons unfolding eq by (simp add: short_ip_def ip_target_def)
  qed
qed simp

lemma tun_send_eq:
  "packet \<noteq> [] \<Longrightarrow> tun_send millis packet =
    Done (if short_ip packet then []
      else case ip_target packet of
        None \<Rightarrow> []
      | Some target \<Rightarrow> [SendToFastest target (net_packet millis packet)])"
  by (simp add: tun_send_def tun_target_eq send_to_fastest_def split: option.split)

text \<open>What the reading task may post for the reads it was given.\<close>

definition tun_message_ok :: "(u64 \<times> tun_read) list \<Rightarrow> AllSendersMessage \<Rightarrow> bool" where
  "tun_message_ok reads m \<longleftrightarrow>
    (\<exists>millis packet target. (millis, Packet packet) \<in> set reads \<and>
      m = SendToFastest target (net_packet millis packet) \<and>
      ip_target packet = Some target \<and> \<not> short_ip packet)"

lemma tun_message_ok_mono: "tun_message_ok reads m \<Longrightarrow> tun_message_ok (r # reads) m"
  by (auto simp: tun_message_ok_def)

lemma linux_tun_reader_ok:
  "\<exists>msgs. linux_tun_reader reads = Done msgs \<and> (\<forall>m \<in> set msgs. tun_message_ok reads m)"
proof (induction reads rule: linux_tun_reader.induct)
  case 1
  then show ?case by simp
next
  case (2 millis reads)
  then show ?case by (auto simp: tun_message_ok_def)
next
  case (3 millis packet reads)
  show ?case
  proof (cases "packet = []")
    case True
    then show ?thesis by simp
  next
    case False
    obtain msgs where rest: "linux_tun_reader reads = Done msgs" "\<forall>m \<in> set msgs. tun_message_ok reads m"
      using "3.IH" [OF False tun_send_eq [OF False]] by blast
    define first where "first = (if short_ip packet then []
      else case ip_target packet of
        None \<Rightarrow> []
      | Some target \<Rightarrow> [SendToFastest target (net_packet millis packet)])"
    then have "tun_send millis packet = Done first" using tun_send_eq [OF False] by simp
    moreover have "\<forall>m \<in> set first. tun_message_ok ((millis, Packet packet) # reads) m"
      by (auto simp: first_def tun_message_ok_def intro!: exI [of _ millis] exI [of _ packet]
          split: if_splits option.splits)
    ultimately show ?thesis
      using False rest tun_message_ok_mono by auto
  qed
qed

text \<open>The macOS device with its protocol family stripped is the Linux device.\<close>

lemma mac_tun_reader_eq:
  assumes "\<forall>(millis, packet) \<in> set reads. packet \<noteq> []" and "length family = 4"
  shows "mac_tun_reader (map (\<lambda>(millis, packet). (millis, Packet (family @ packet))) reads) =
    linux_tun_reader (map (\<lambda>(millis, packet). (millis, Packet packet)) reads)"
  using assms(1)
proof (induction reads)
  case Nil
  then show ?case by simp
next
  case (Cons r reads)
  obtain millis packet where r: "r = (millis, packet)" by fastforce
  have "family \<noteq> []" using assms(2) by auto
  then show ?case
    using Cons assms(2) by (auto simp: r tun_send_eq split: option.split exec.split)
qed

section \<open>Properties\<close>

text \<open>What one read of the device should lead to: a complete IP packet goes to the destination in its header.\<close>

definition read_posts :: "u64 \<times> tun_read \<Rightarrow> AllSendersMessage list" where
  "read_posts r =
    (case snd r of
       Read_Error \<Rightarrow> []
     | Packet packet \<Rightarrow>
         if short_ip packet then []
         else case ip_target packet of
           None \<Rightarrow> []
         | Some target \<Rightarrow> [SendToFastest target (net_packet (fst r) packet)])"

lemma linux_tun_reader_posts:
  "linux_tun_reader reads = Done (concat (map read_posts (takeWhile (\<lambda>r. snd r \<noteq> Packet []) reads)))"
proof (induction reads rule: linux_tun_reader.induct)
  case (3 millis packet reads)
  show ?case
  proof (cases "packet = []")
    case False
    then show ?thesis using "3.IH" [OF False tun_send_eq [OF False]] by (simp add: tun_send_eq read_posts_def split: option.split)
  qed simp
qed (simp_all add: read_posts_def)

lemma net_packet_handled:
  assumes "\<not> short_ip packet" and "tun_sender node \<noteq> Some False"
  shows "\<exists>node'. snd (handle_packet fx current (net_packet millis packet) sndr node) = Done node'"
proof -
  have "net_packet millis packet ! 8 = 3" "drop 9 (net_packet millis packet) = packet"
    using nth_append_length [of "to_le_bytes 8 millis" 3 packet] by (simp_all add: net_packet_def)
  then show ?thesis
    using assms
    by (auto simp: handle_packet_eq dispatch_def on_ip_packet_def target_addr_eq split: option.split)
qed

text \<open>
  C28. The task that reads a Linux TUN device posts exactly what it should: it never panics, whatever it reads, and until
  a read of no bytes ends it, every complete IP packet it reads is posted once, in order, for the destination in
  its header, and nothing else is. With the 2048 bytes of its buffer the mesh packets it makes are at most 2057 bytes, so
  they fit the 16-bit length of a frame; and a node that receives one handles it without a panic, as long as the
  task behind its own TUN device runs.
\<close>

theorem tun_reader_posts:
  assumes "\<forall>(millis, r) \<in> set reads. \<forall>packet. r = Packet packet \<longrightarrow> length packet \<le> 2048"
    and "tun_sender node \<noteq> Some False"
  shows "\<exists>msgs. linux_tun_reader reads = Done msgs \<and>
    msgs = concat (map read_posts (takeWhile (\<lambda>r. snd r \<noteq> Packet []) reads)) \<and>
    (\<forall>target data. SendToFastest target data \<in> set msgs \<longrightarrow> length data \<le> 2057 \<and>
      (\<exists>node'. snd (handle_packet fx current data sndr node) = Done node'))"
proof -
  obtain msgs where msgs: "linux_tun_reader reads = Done msgs" "\<forall>m \<in> set msgs. tun_message_ok reads m"
    using linux_tun_reader_ok by blast
  have "length data \<le> 2057 \<and> (\<exists>node'. snd (handle_packet fx current data sndr node) = Done node')"
    if m: "SendToFastest target data \<in> set msgs" for target data
  proof -
    obtain millis packet where p: "(millis, Packet packet) \<in> set reads" "data = net_packet millis packet" "\<not> short_ip packet"
      using msgs(2) m by (fastforce simp: tun_message_ok_def)
    then have "length data \<le> 2057" using assms(1) by (fastforce simp: net_packet_def)
    then show ?thesis using net_packet_handled [OF p(3) assms(2)] p(2) by blast
  qed
  moreover have "msgs = concat (map read_posts (takeWhile (\<lambda>r. snd r \<noteq> Packet []) reads))"
    using linux_tun_reader_posts [of reads] msgs(1) by simp
  ultimately show ?thesis using msgs(1) by blast
qed

theorem tun_reader_posts_witness:
  "linux_tun_reader [(7, Packet (drop 9 sample_packet)), (8, Read_Error), (9, Packet [1])] =
    Done [SendToFastest (V4 10 0 0 2) (net_packet 7 (drop 9 sample_packet))]"
proof -
  let ?reads = "[(7, Packet (drop 9 sample_packet)), (8, Read_Error), (9, Packet [1])] :: (u64 \<times> tun_read) list"
  have ne: "drop 9 sample_packet \<noteq> []" "length (drop 9 sample_packet) \<le> 2048" by (simp_all add: sample_packet_def)
  have junk: "read_posts (9, Packet [1]) = []"
    by (simp add: read_posts_def short_ip_def ip_target_def ip_version_def)
  have "\<forall>(millis, r) \<in> set ?reads. \<forall>packet. r = Packet packet \<longrightarrow> length packet \<le> 2048" using ne(2) by simp
  then have "linux_tun_reader ?reads = Done (concat (map read_posts (takeWhile (\<lambda>r. snd r \<noteq> Packet []) ?reads)))"
    using tun_reader_posts [of ?reads sample_node "\<lambda>_. 0" 0 5] by (auto simp: sample_node_def)
  moreover have "takeWhile (\<lambda>r. snd r \<noteq> Packet []) ?reads = ?reads" using ne(1) by simp
  moreover have "read_posts (7, Packet (drop 9 sample_packet)) =
      [SendToFastest (V4 10 0 0 2) (net_packet 7 (drop 9 sample_packet))]"
    using sample_target by (simp add: read_posts_def)
  ultimately show ?thesis using junk by (simp add: read_posts_def [of "(8, Read_Error)"])
qed

text \<open>
  An IP packet travels the mesh unchanged: what a node reads from its TUN device is posted for the
  packet's destination, every node on the way that does not own that address passes the identical bytes
  on, and the owner hands exactly the packet that was read to its own TUN device, which writes it.
\<close>

theorem packet_travels_unchanged:
  assumes "packet \<noteq> []" and "\<not> short_ip packet" and "ip_target packet = Some target"
    and "accepts fx current (net_packet millis packet) node" and "tun_sender node = Some True"
  shows "linux_tun_reader [(millis, Packet packet)] = Done [SendToFastest target (net_packet millis packet)] \<and>
    fst (handle_packet fx current (net_packet millis packet) sndr node) =
      (if target \<in> our_ips node then [Post_Tun packet]
       else [Post_All_Senders (SendToFastest target (net_packet millis packet))]) \<and>
    linux_tun_writer [(packet, True)] = ([packet], Done ())"
proof -
  have "net_packet millis packet ! 8 = 3" "drop 9 (net_packet millis packet) = packet"
    using nth_append_length [of "to_le_bytes 8 millis" 3 packet] by (simp_all add: net_packet_def)
  then show ?thesis
    using assms
    by (simp add: tun_send_eq handle_packet_eq dispatch_def on_ip_packet_def target_addr_eq handle_defs)
qed

theorem packet_travels_unchanged_witness:
  "fst (handle_packet (\<lambda>_. 0) 0 (net_packet 0 (drop 9 sample_packet)) 5 (sample_node\<lparr>our_ips := {V4 10 0 0 2}\<rparr>)) =
    [Post_Tun (drop 9 sample_packet)]"
proof -
  have "accepts (\<lambda>_. 0) 0 (net_packet 0 (drop 9 sample_packet)) (sample_node\<lparr>our_ips := {V4 10 0 0 2}\<rparr>)"
    by (simp add: accepts_def net_packet_def sample_packet_def sample_node_def packet_ms_def abs_diff_def
        seen_contains_def SeenPackets_new_def)
  moreover have "drop 9 sample_packet \<noteq> []" by (simp add: sample_packet_def)
  ultimately show ?thesis
    using packet_travels_unchanged [OF _ sample_target(3,2), of "\<lambda>_. 0" 0 0
        "sample_node\<lparr>our_ips := {V4 10 0 0 2}\<rparr>" 5]
    by (simp add: sample_node_def)
qed

text \<open>The protocol family macOS wants before a packet: \<^verbatim>\<open>AF_INET\<close> or \<^verbatim>\<open>AF_INET6\<close> as a big-endian number.\<close>

definition with_family :: "bytes \<Rightarrow> bytes" where
  "with_family packet = [0, 0, 0, if ip_version packet = 4 then 2 else 30] @ packet"

lemma mac_tun_writer_eq:
  assumes "\<forall>(packet, ok) \<in> set writes. packet \<noteq> [] \<and> ip_version packet \<in> {4, 6}"
  shows "mac_tun_writer writes = (map (\<lambda>w. with_family (fst w)) (filter snd writes), Done ())"
  using assms
proof (induction writes)
  case Nil
  then show ?case by simp
next
  case (Cons w writes)
  obtain b bs ok where w: "w = (b # bs, ok)" using Cons.prems by (cases w) (auto simp: neq_Nil_conv)
  have "drop_bit 4 (b AND 0xF0) = 4 \<or> drop_bit 4 (b AND 0xF0) = 6"
    using Cons.prems by (auto simp: w ip_version_def)
  then show ?case using Cons by (auto simp: w proto_family_def with_family_def ip_version_def)
qed

lemma linux_tun_writer_eq:
  "linux_tun_writer writes =
    (map fst (takeWhile snd writes), if \<forall>w \<in> set writes. snd w then Done () else Panic UnwrapFailed)"
  by (induction writes rule: linux_tun_writer.induct) auto

text \<open>
  C29. The macOS device behaves like the Linux device, up to the protocol family and to failed writes. A device
  that delivers IP packets behind any four bytes leads to the same messages as a Linux device that delivers them
  bare. Of IP packets sent to the device Linux writes all up to the first write that fails, where it panics, and macOS
  writes all whose write succeeds and goes on, each behind the four bytes of the family of its IP version; so
  while writes succeed both write the same packets.
\<close>

theorem mac_device_matches_linux:
  assumes "\<forall>(millis, packet) \<in> set reads. packet \<noteq> []" and "length family = 4"
    and "\<forall>(packet, ok) \<in> set writes. packet \<noteq> [] \<and> ip_version packet \<in> {4, 6}"
  shows "mac_tun_reader (map (\<lambda>(millis, packet). (millis, Packet (family @ packet))) reads) =
      linux_tun_reader (map (\<lambda>(millis, packet). (millis, Packet packet)) reads) \<and>
    mac_tun_writer writes = (map (\<lambda>w. with_family (fst w)) (filter snd writes), Done ()) \<and>
    linux_tun_writer writes =
      (map fst (takeWhile snd writes), if \<forall>w \<in> set writes. snd w then Done () else Panic UnwrapFailed) \<and>
    ((\<forall>w \<in> set writes. snd w) \<longrightarrow> fst (mac_tun_writer writes) = map with_family (fst (linux_tun_writer writes)))"
proof -
  have "map (\<lambda>w. with_family (fst w)) (filter snd writes) = map with_family (map fst (takeWhile snd writes))"
    if "\<forall>w \<in> set writes. snd w"
  proof -
    have all: "filter snd writes = writes" "takeWhile snd writes = writes"
      using that by (simp_all add: takeWhile_eq_all_conv)
    show ?thesis unfolding all by simp
  qed
  then show ?thesis
    using mac_tun_reader_eq [OF assms(1,2)] mac_tun_writer_eq [OF assms(3)] linux_tun_writer_eq [of writes] by simp
qed

text \<open>Two packets to the device, of which the first write fails.\<close>

theorem mac_device_matches_linux_witness:
  "mac_tun_writer [([0x45, 1], False), ([0x60, 2], True)] = ([[0, 0, 0, 30, 0x60, 2]], Done ()) \<and>
   linux_tun_writer [([0x45, 1], False), ([0x60, 2], True)] = ([], Panic UnwrapFailed)"
  using mac_device_matches_linux [of "[(0, [1])]" "[0, 0, 0, 2]" "[([0x45, 1], False), ([0x60, 2], True)]"]
  by (simp add: ip_version_def with_family_def)

section \<open>Routes\<close>

lemma fmt_dec_eval: "fmt_dec 4 = ''4''" "fmt_dec 6 = ''6''"
  by (simp_all add: fmt_dec_def dec_digits.simps digit_char_def)

lemma linux_route_cmd_inject:
  assumes "linux_route_cmd a = linux_route_cmd b"
  shows "a = b"
proof -
  have "fmt_addr a = fmt_addr b \<and> (\<exists>p q r s. a = V4 p q r s) = (\<exists>p q r s. b = V4 p q r s)"
    using assms
    by (cases a; cases b) (simp_all add: linux_route_cmd_def Let_def fmt_dec_eval del: fmt_addr.simps)
  then show ?thesis
    using fmt_V6_inject by (cases a; cases b) (auto simp: fmt_V4_inject simp del: fmt_addr.simps)
qed

text \<open>The first occurrences of the elements of a list.\<close>

definition firsts :: "'a list \<Rightarrow> 'a list" where
  "firsts xs = rev (remdups (rev xs))"

lemma remdups_snoc: "remdups (ys @ [y]) = filter (\<lambda>x. x \<noteq> y) (remdups ys) @ [y]"
  by (induction ys) auto

lemma route_creator_commands:
  "route_creator cmd S addrs = map cmd (firsts (filter (\<lambda>a. a \<notin> S) addrs))"
proof (induction cmd S addrs rule: route_creator.induct)
  case (1 cmd S)
  then show ?case by (simp add: firsts_def)
next
  case (2 cmd S addr addrs)
  have "(\<lambda>a. a \<notin> S \<and> a \<noteq> addr) = (\<lambda>a. a \<notin> insert addr S)" by auto
  then have "filter (\<lambda>a. a \<noteq> addr) (remdups (rev (filter (\<lambda>a. a \<notin> S) addrs))) =
      remdups (rev (filter (\<lambda>a. a \<notin> insert addr S) addrs))"
    by (simp only: remdups_filter [symmetric] rev_filter [symmetric] filter_filter)
  then show ?case using 2 by (simp add: firsts_def remdups_snoc)
qed

text \<open>
  The route creator asks the system for each address exactly once, in the order in which the addresses
  were first announced, and the commands for different addresses differ.
\<close>

theorem routes_created_once:
  "route_creator linux_route_cmd {} addrs = map linux_route_cmd (rev (remdups (rev addrs))) \<and>
   distinct (route_creator linux_route_cmd {} addrs)"
proof -
  have "route_creator linux_route_cmd {} addrs = map linux_route_cmd (firsts addrs)"
    by (simp add: route_creator_commands)
  moreover have "inj linux_route_cmd" using linux_route_cmd_inject by (rule injI)
  ultimately show ?thesis
    using inj_on_subset [of linux_route_cmd UNIV] by (auto simp: distinct_map firsts_def)
qed

lemma update_pair: "length xs = 16 \<Longrightarrow> (xs @ [a, b])[16 := x, 17 := y] = xs @ [x, y]"
  by (simp add: list_update_append)

text \<open>
  The interface request carries a name of at most fifteen bytes, padded with zero bytes to sixteen, and
  then the flags in little-endian order; a name of more than eighteen bytes would panic.
\<close>

theorem tun_ifr_layout:
  assumes "length ifname \<le> 15"
  shows "tun_ifr ifname flags =
      Done (ifname @ replicate (16 - length ifname) 0 @ take 2 (to_le_bytes 4 flags)) \<and>
    (length long > 18 \<longrightarrow> tun_ifr long flags = Panic IndexOutOfBounds)"
proof -
  let ?ifr = "copy_from_slice 0 ifname (replicate 18 0)"
  have "replicate (18 - length ifname) (0 :: u8) = replicate (16 - length ifname) 0 @ [0, 0]"
  proof -
    have "18 - length ifname = (16 - length ifname) + 2" using assms by simp
    then show ?thesis by (simp only: replicate_add) (simp add: numeral_2_eq_2)
  qed
  then have ifr: "?ifr = (ifname @ replicate (16 - length ifname) 0) @ [0, 0]"
    by (simp add: copy_from_slice_def)
  have len: "length (ifname @ replicate (16 - length ifname) (0 :: u8)) = 16" using assms by simp
  have "?ifr[16 := x, 17 := y] = (ifname @ replicate (16 - length ifname) 0) @ [x, y]" for x y
    unfolding ifr by (rule update_pair [OF len])
  then show ?thesis using assms by (simp add: tun_ifr_def Let_def to_le_bytes_4)
qed

theorem tun_ifr_layout_witness:
  "tun_ifr [115, 109] 0x1001 = Done ([115, 109] @ replicate 14 0 @ [0x01, 0x10])"
  using tun_ifr_layout [of "[115, 109]" "0x1001" "[]"] by (simp add: to_le_bytes_4)

end
