(* ===== verification/Mesh_Network.thy ===== *)
theory Mesh_Network
  imports Mesh_Routing Tuntap
begin

text \<open>
  A mesh of any number of nodes. Each node has the state of its packet loop (\<^verbatim>\<open>run_meshnode\<close>), the state of its
  dispatcher (\<^verbatim>\<open>all_senders_task\<close>) and the queue of messages between them; packets handed to a link are under way
  until they arrive at the other end, in any order, or are lost. The steps are those of the components: an
  announcing task, the task that reads the TUN device, a new link, the dispatcher, the packet loop. The theory
  has the invariant of the network that keeps the routing tables free of loops.
\<close>

section \<open>The network\<close>

text \<open>
  \<open>tun_out\<close> is what the packet loop of a node handed to the task that writes the TUN device. \<open>tick\<close> and \<open>learned\<close> record
  when a table entry was made; no step depends on them.
\<close>

record mesh =
  nodes :: "nat \<Rightarrow> MeshNode"
  tables :: "nat \<Rightarrow> AllSendersState"
  inbox :: "nat \<Rightarrow> AllSendersMessage list"
  flying :: "(nat \<times> sender \<times> bytes) list"
  tun_out :: "nat \<Rightarrow> bytes list"
  tick :: nat
  learned :: "nat \<Rightarrow> IpAddr \<Rightarrow> nat"

text \<open>
  What does not change: the hash of the duplicate filter, the other end of each link, the names of the nodes, and
  the IPv4 addresses they announce.
\<close>

record topology =
  hash_of :: "bytes \<Rightarrow> u64"
  peer :: "nat \<times> sender \<Rightarrow> nat \<times> sender"
  name_of :: "nat \<Rightarrow> bytes"
  ipv4s_of :: "nat \<Rightarrow> bytes list"

definition post :: "nat \<Rightarrow> AllSendersMessage list \<Rightarrow> mesh \<Rightarrow> mesh" where
  "post i msgs m = m\<lparr>inbox := (inbox m)(i := inbox m i @ msgs)\<rparr>"

fun tun_posts :: "node_action list \<Rightarrow> bytes list" where
  "tun_posts [] = []"
| "tun_posts (Post_Tun p # acts) = p # tun_posts acts"
| "tun_posts (_ # acts) = tun_posts acts"

text \<open>The dispatcher of a node takes a message; \<open>learned\<close> notes when an entry of its table was made.\<close>

definition dispatch_step :: "(sender \<Rightarrow> bool) \<Rightarrow> nat \<Rightarrow> AllSendersMessage \<Rightarrow> mesh \<Rightarrow> mesh" where
  "dispatch_step alive i msg m =
    (let (st, sends) = all_senders_step alive msg (tables m i)
     in m\<lparr>tables := (tables m)(i := st), inbox := (inbox m)(i := tl (inbox m i)),
          flying := flying m @ map (\<lambda>(s, data). (i, s, data)) (filter (\<lambda>(_, data). data \<noteq> []) sends),
          tick := Suc (tick m),
          learned := (learned m)(i := (\<lambda>a. if fastest_to_address st a \<noteq> fastest_to_address (tables m i) a then tick m
            else learned m i a))\<rparr>)"

text \<open>A packet arrives at a node over one of its links.\<close>

definition arrive :: "nat \<Rightarrow> node_action list \<Rightarrow> MeshNode \<Rightarrow> mesh \<Rightarrow> mesh" where
  "arrive j acts node m =
    post j (senders_msgs acts) (m\<lparr>nodes := (nodes m)(j := node), tun_out := (tun_out m)(j := tun_out m j @ tun_posts acts)\<rparr>)"

inductive mesh_step :: "topology \<Rightarrow> mesh \<Rightarrow> mesh \<Rightarrow> bool" for T where
  announce_name: "mesh_step T m (post i [send_all (name_announcement ms (name_of T i))] m)"
| announce_ipv4: "octets \<in> set (ipv4s_of T i) \<Longrightarrow> mesh_step T m (post i [send_all (ipv4_announcement ms octets)] m)"
| read_tun: "linux_tun_reader [(ms, Packet packet)] = Done msgs \<Longrightarrow> mesh_step T m (post i msgs m)"
| new_link: "mesh_step T m (post i [AllSenders_add s] m)"
| clean: "mesh_step T m (post i [clean_broken_senders] m)"
| dispatching: "inbox m i = msg # msgs \<Longrightarrow> mesh_step T m (dispatch_step alive i msg m)"
| arriving: "flying m = xs @ (i, s, data) # ys \<Longrightarrow> peer T (i, s) = (j, s') \<Longrightarrow>
    handle_packet (hash_of T) current data s' (nodes m j) = (acts, Done node) \<Longrightarrow>
    mesh_step T m (arrive j acts node (m\<lparr>flying := xs @ ys\<rparr>))"
| losing: "flying m = xs @ p # ys \<Longrightarrow> mesh_step T m (m\<lparr>flying := xs @ ys\<rparr>)"

definition mesh_init :: "(nat \<Rightarrow> MeshNode) \<Rightarrow> mesh" where
  "mesh_init ns = \<lparr>nodes = ns, tables = (\<lambda>_. all_senders_init), inbox = (\<lambda>_. []), flying = [], tun_out = (\<lambda>_. []),
     tick = 0, learned = (\<lambda>_ _. 0)\<rparr>"

text \<open>The other end of a link sees it as the same link.\<close>

definition links_ok :: "topology \<Rightarrow> bool" where
  "links_ok T \<longleftrightarrow> (\<forall>l. peer T (peer T l) = l)"

section \<open>The invariant\<close>

text \<open>The nodes that announce an address as their own.\<close>

definition origin :: "topology \<Rightarrow> nat \<Rightarrow> IpAddr \<Rightarrow> bool" where
  "origin T i a \<longleftrightarrow> from_utf8 (name_of T i) \<and> from_node_name (name_of T i) = Some a \<or>
    (\<exists>octets \<in> set (ipv4s_of T i). length octets = 4 \<and> ipv4_from_buf octets = Done a)"

text \<open>What a packet of sufficient length announces, and with which time stamp.\<close>

definition tells :: "bytes \<Rightarrow> IpAddr \<Rightarrow> bool" where
  "tells data a \<longleftrightarrow> 9 \<le> length data \<and> announces data = Some a"

text \<open>A node knows of an address at least as much as an announcement with the given time stamp tells.\<close>

definition knows :: "topology \<Rightarrow> mesh \<Rightarrow> nat \<Rightarrow> IpAddr \<Rightarrow> u64 \<Rightarrow> bool" where
  "knows T m i a ms \<longleftrightarrow> origin T i a \<or> (\<exists>t s. fastest_to_address (tables m i) a = Some (t, s) \<and> ms \<le> t)"

text \<open>The next hop of an entry is an origin, or has a fresher entry, or an equally fresh one it made earlier.\<close>

definition fresher :: "topology \<Rightarrow> mesh \<Rightarrow> nat \<Rightarrow> nat \<Rightarrow> IpAddr \<Rightarrow> u64 \<Rightarrow> bool" where
  "fresher T m i j a ms \<longleftrightarrow> origin T i a \<or> (\<exists>t s. fastest_to_address (tables m i) a = Some (t, s) \<and>
    (ms < t \<or> ms = t \<and> learned m i a < learned m j a))"

definition flying_inv :: "topology \<Rightarrow> mesh \<Rightarrow> bool" where
  "flying_inv T m \<longleftrightarrow> (\<forall>i s data a. (i, s, data) \<in> set (flying m) \<longrightarrow> tells data a \<longrightarrow> knows T m i a (packet_ms data))"

text \<open>
  A queue of messages to the dispatcher of a node: what it is to enter came from a node that knows it, and what it is
  to flood it knows already or learns from a message before.
\<close>

definition queue_ok :: "topology \<Rightarrow> mesh \<Rightarrow> nat \<Rightarrow> AllSendersMessage list \<Rightarrow> bool" where
  "queue_ok T m j q \<longleftrightarrow>
    (\<forall>ms a s. AddFastestTo ms a s \<in> set q \<longrightarrow> knows T m (fst (peer T (j, s))) a ms) \<and>
    (\<forall>a b data. SendToFastest b data \<in> set q \<longrightarrow> \<not> tells data a) \<and>
    (\<forall>pre data rest a. q = pre @ SendToAll data # rest \<longrightarrow> tells data a \<longrightarrow>
      knows T m j a (packet_ms data) \<or> (\<exists>ms s. packet_ms data \<le> ms \<and> AddFastestTo ms a s \<in> set pre))"

definition inbox_inv :: "topology \<Rightarrow> mesh \<Rightarrow> bool" where
  "inbox_inv T m \<longleftrightarrow> (\<forall>j. queue_ok T m j (inbox m j))"

definition table_inv :: "topology \<Rightarrow> mesh \<Rightarrow> bool" where
  "table_inv T m \<longleftrightarrow> (\<forall>j a ms s. fastest_to_address (tables m j) a = Some (ms, s) \<longrightarrow>
    fresher T m (fst (peer T (j, s))) j a ms \<and> learned m j a < tick m)"

definition mesh_inv :: "topology \<Rightarrow> mesh \<Rightarrow> bool" where
  "mesh_inv T m \<longleftrightarrow> flying_inv T m \<and> inbox_inv T m \<and> table_inv T m"

text \<open>Only the tables matter for what nodes know.\<close>

lemma knows_tables: "tables m' = tables m \<Longrightarrow> knows T m' i a ms \<longleftrightarrow> knows T m i a ms"
  by (simp add: knows_def)

lemma table_inv_tables:
  "tables m' = tables m \<Longrightarrow> learned m' = learned m \<Longrightarrow> tick m' = tick m \<Longrightarrow> table_inv T m' \<longleftrightarrow> table_inv T m"
  by (simp add: table_inv_def fresher_def)

lemma post_simps [simp]:
  "tables (post i msgs m) = tables m" "learned (post i msgs m) = learned m" "tick (post i msgs m) = tick m"
  "flying (post i msgs m) = flying m" "nodes (post i msgs m) = nodes m" "tun_out (post i msgs m) = tun_out m"
  "inbox (post i msgs m) j = (if j = i then inbox m i @ msgs else inbox m j)"
  by (simp_all add: post_def)

lemma queue_ok_tables: "tables m' = tables m \<Longrightarrow> queue_ok T m' j q \<longleftrightarrow> queue_ok T m j q"
  by (simp add: queue_ok_def knows_def)

lemma split_append:
  assumes "xs @ ys = pre @ x # rest"
  shows "(\<exists>zs. xs = pre @ x # zs) \<or> (\<exists>pre'. pre = xs @ pre' \<and> ys = pre' @ x # rest)"
  using assms by (auto simp: append_eq_append_conv2 append_eq_Cons_conv)

lemma queue_ok_append:
  assumes "queue_ok T m j q" and "queue_ok T m j r"
  shows "queue_ok T m j (q @ r)"
proof -
  have "knows T m j a (packet_ms data) \<or> (\<exists>ms s. packet_ms data \<le> ms \<and> AddFastestTo ms a s \<in> set pre)"
    if "q @ r = pre @ SendToAll data # rest" "tells data a" for pre data rest a
    using split_append [OF that(1)]
  proof
    assume "\<exists>zs. q = pre @ SendToAll data # zs"
    then show ?thesis using assms(1) that(2) unfolding queue_ok_def by blast
  next
    assume "\<exists>pre'. pre = q @ pre' \<and> r = pre' @ SendToAll data # rest"
    then obtain pre' where "pre = q @ pre'" "r = pre' @ SendToAll data # rest" by blast
    moreover from this have "knows T m j a (packet_ms data) \<or> (\<exists>ms s. packet_ms data \<le> ms \<and> AddFastestTo ms a s \<in> set pre')"
      using assms(2) that(2) unfolding queue_ok_def by blast
    ultimately show ?thesis by auto
  qed
  then show ?thesis using assms unfolding queue_ok_def by auto
qed

text \<open>Posting to a queue.\<close>

lemma mesh_inv_post:
  assumes "mesh_inv T m" and "queue_ok T m i msgs"
  shows "mesh_inv T (post i msgs m)"
proof -
  have "queue_ok T m j (inbox (post i msgs m) j)" for j
    using assms by (auto simp: mesh_inv_def inbox_inv_def intro: queue_ok_append)
  then have "inbox_inv T (post i msgs m)" by (simp add: inbox_inv_def queue_ok_tables [of "post i msgs m" m])
  then show ?thesis
    using assms(1) knows_tables [of "post i msgs m" m] table_inv_tables [of "post i msgs m" m]
    by (simp add: mesh_inv_def flying_inv_def)
qed

lemma queue_ok_flood:
  assumes "\<And>a. tells data a \<Longrightarrow> origin T i a"
  shows "queue_ok T m i [SendToAll data]"
  using assms by (auto simp: queue_ok_def knows_def Cons_eq_append_conv)

lemma queue_ok_quiet: "(\<And>msg. msg \<in> set q \<Longrightarrow> (\<exists>s. msg = AddSender s) \<or> msg = CleanBrokenSenders \<or>
    (\<exists>b data. msg = SendToFastest b data \<and> (\<forall>a. \<not> tells data a))) \<Longrightarrow> queue_ok T m i q"
  by (fastforce simp: queue_ok_def)

lemma tells_name: "tells (name_announcement ms name) a \<Longrightarrow> from_utf8 name \<and> from_node_name name = Some a"
  by (auto simp: tells_def announces_def name_announcement_def Let_def split: if_splits)

lemma tells_ipv4: "tells (ipv4_announcement ms octets) a \<Longrightarrow> length octets = 4 \<and> ipv4_from_buf octets = Done a"
  by (auto simp: tells_def announces_def ipv4_announcement_def Let_def split: if_splits exec.splits)

lemma tells_net_packet: "\<not> tells (net_packet ms packet) a"
  by (simp add: tells_def announces_def net_packet_def Let_def)

text \<open>What the packet loop posts for a packet.\<close>

lemma dispatch_msgs:
  assumes "dispatch (data ! 8) ms data (drop 9 data) sndr node = (acts, Done node')"
  shows "senders_msgs acts = [] \<or>
    (\<exists>a. announces data = Some a \<and> senders_msgs acts = [AddFastestTo ms a sndr, SendToAll data]) \<or>
    announces data = None \<and> (senders_msgs acts = [SendToAll data] \<or> (\<exists>t. senders_msgs acts = [SendToFastest t data]))"
  using assms ipv4_from_buf_total [of "drop 9 data"] ipv6_from_buf_total [of "drop 9 data"]
  by (auto simp: dispatch_def on_node_name_def on_address_def on_ip_packet_def add_route_def then_do_def
      handle_defs announces_def Let_def split: if_splits option.splits exec.splits)

lemma queue_ok_arrival:
  assumes "handle_packet fx current data sndr node = (acts, Done node')"
    and "\<And>a. tells data a \<Longrightarrow> knows T m (fst (peer T (j, sndr))) a (packet_ms data)"
  shows "queue_ok T m j (senders_msgs acts)"
proof (cases "accepts fx current data node")
  case True
  then have "9 \<le> length data" "dispatch (data ! 8) (packet_ms data) data (drop 9 data) sndr (note_seen fx data node) = (acts, Done node')"
    using assms(1) by (auto simp: accepts_def handle_packet_eq)
  then show ?thesis
    using dispatch_msgs assms(2) by (fastforce simp: queue_ok_def tells_def Cons_eq_append_conv)
next
  case False
  then show ?thesis using assms(1) by (auto simp: handle_packet_eq queue_ok_def)
qed

text \<open>A message to the dispatcher.\<close>

lemma dispatch_step_simps [simp]:
  "nodes (dispatch_step alive i msg m) = nodes m" "tun_out (dispatch_step alive i msg m) = tun_out m"
  "tick (dispatch_step alive i msg m) = Suc (tick m)"
  "inbox (dispatch_step alive i msg m) = (inbox m)(i := tl (inbox m i))"
  "tables (dispatch_step alive i msg m) = (tables m)(i := fst (all_senders_step alive msg (tables m i)))"
  "flying (dispatch_step alive i msg m) =
    flying m @ map (\<lambda>(s, data). (i, s, data)) (filter (\<lambda>(_, data). data \<noteq> []) (snd (all_senders_step alive msg (tables m i))))"
  by (simp_all add: dispatch_step_def split_beta)

lemma learned_dispatch:
  "learned (dispatch_step alive i msg m) j a =
    (if fastest_to_address (tables (dispatch_step alive i msg m) j) a \<noteq> fastest_to_address (tables m j) a
     then tick m else learned m j a)"
  by (simp add: dispatch_step_def split_beta)

lemma dispatch_table:
  assumes "fastest_to_address (tables (dispatch_step alive i msg m) j) a \<noteq> fastest_to_address (tables m j) a"
  shows "j = i \<and> (\<exists>ms s. msg = AddFastestTo ms a s \<and>
    fastest_to_address (tables (dispatch_step alive i msg m) j) a = Some (ms, s) \<and>
    (\<forall>t r. fastest_to_address (tables m j) a = Some (t, r) \<longrightarrow> t < ms))"
  using assms by (cases msg) (auto simp: add_fastest_def split: if_splits option.splits)

lemma knows_dispatch:
  assumes "knows T m k a ms"
  shows "knows T (dispatch_step alive i msg m) k a ms"
proof (cases "origin T k a")
  case False
  then obtain t s where old: "fastest_to_address (tables m k) a = Some (t, s)" "ms \<le> t"
    using assms by (auto simp: knows_def)
  show ?thesis
    using dispatch_table [of alive i msg m k a] old
    by (cases "fastest_to_address (tables (dispatch_step alive i msg m) k) a = fastest_to_address (tables m k) a")
      (auto simp del: dispatch_step_simps simp: knows_def intro: order.trans less_imp_le)
qed (simp add: knows_def)

lemma knows_entered: "packet \<le> ms \<Longrightarrow> knows T (dispatch_step alive i (AddFastestTo ms a s) m) i a packet"
  by (auto simp: knows_def add_fastest_def split: option.split)

lemma queue_ok_mono:
  assumes "queue_ok T m j q" and "\<And>k a ms. knows T m k a ms \<Longrightarrow> knows T m' k a ms"
  shows "queue_ok T m' j q"
  using assms unfolding queue_ok_def by blast

lemma queue_ok_tl:
  assumes "queue_ok T m i (msg # q)"
  shows "queue_ok T (dispatch_step alive i msg m) i q"
proof -
  have "knows T (dispatch_step alive i msg m) i a (packet_ms data) \<or>
      (\<exists>ms s. packet_ms data \<le> ms \<and> AddFastestTo ms a s \<in> set pre)"
    if q: "q = pre @ SendToAll data # rest" "tells data a" for pre data rest a
  proof -
    have "msg # q = (msg # pre) @ SendToAll data # rest" using q by simp
    then have "knows T m i a (packet_ms data) \<or>
        (\<exists>ms s. packet_ms data \<le> ms \<and> AddFastestTo ms a s \<in> set (msg # pre))"
      using assms q(2) unfolding queue_ok_def by blast
    then show ?thesis using knows_dispatch knows_entered by fastforce
  qed
  then show ?thesis using assms knows_dispatch unfolding queue_ok_def by (metis list.set_intros(2))
qed

lemma flying_inv_dispatch:
  assumes "flying_inv T m" and "queue_ok T m i (msg # q)"
  shows "flying_inv T (dispatch_step alive i msg m)"
proof -
  have "knows T m i a (packet_ms data)"
    if "(s, data) \<in> set (snd (all_senders_step alive msg (tables m i)))" "data \<noteq> []" "tells data a" for s data a
  proof (cases msg)
    case (SendToAll d)
    then have "msg # q = [] @ SendToAll data # q" using that(1) by auto
    then show ?thesis using assms(2) that(3) unfolding queue_ok_def by fastforce
  qed (use that assms(2) in \<open>auto simp: queue_ok_def split: option.splits\<close>)
  then show ?thesis
    using assms(1) knows_dispatch by (fastforce simp: flying_inv_def)
qed

lemma table_inv_dispatch:
  assumes "table_inv T m" and "queue_ok T m i (msg # q)"
  shows "table_inv T (dispatch_step alive i msg m)"
proof -
  let ?m = "dispatch_step alive i msg m"
  have "fresher T ?m (fst (peer T (j, s))) j a ms \<and> learned ?m j a < tick ?m"
    if new: "fastest_to_address (tables ?m j) a = Some (ms, s)" for j a ms s
  proof (cases "fastest_to_address (tables ?m j) a = fastest_to_address (tables m j) a")
    case same: True
    let ?k = "fst (peer T (j, s))"
    have old: "fresher T m ?k j a ms" "learned m j a < tick m" "learned ?m j a = learned m j a"
      using assms(1) new [unfolded same] same by (auto simp: table_inv_def learned_dispatch)
    show ?thesis
      using old dispatch_table [of alive i msg m ?k a]
      by (cases "fastest_to_address (tables ?m ?k) a = fastest_to_address (tables m ?k) a")
        (auto simp: fresher_def learned_dispatch simp del: dispatch_step_simps(5))
  next
    case False
    then have entry: "j = i" "msg = AddFastestTo ms a s" "learned ?m j a = tick m"
      and older: "\<And>t r. fastest_to_address (tables m j) a = Some (t, r) \<Longrightarrow> t < ms"
      using dispatch_table [OF False] new by (auto simp: learned_dispatch)
    let ?k = "fst (peer T (j, s))"
    have "knows T m ?k a ms" using assms(2) entry by (simp add: queue_ok_def)
    moreover have "fastest_to_address (tables ?m ?k) a = fastest_to_address (tables m ?k) a"
      if "fastest_to_address (tables m ?k) a = Some (t, r)" "ms \<le> t" for t r
      using older [of t r] that by (cases "?k = i") (auto simp: entry(1))
    ultimately show ?thesis
      using assms(1) entry
      by (auto simp: knows_def fresher_def table_inv_def learned_dispatch simp del: dispatch_step_simps(5))
  qed
  then show ?thesis by (simp add: table_inv_def del: dispatch_step_simps(5))
qed

lemma mesh_inv_dispatch:
  assumes "mesh_inv T m" and "inbox m i = msg # q"
  shows "mesh_inv T (dispatch_step alive i msg m)"
proof -
  have q: "queue_ok T m i (msg # q)" using assms unfolding mesh_inv_def inbox_inv_def by metis
  have "queue_ok T (dispatch_step alive i msg m) j (inbox (dispatch_step alive i msg m) j)" for j
  proof (cases "j = i")
    case True
    then show ?thesis using queue_ok_tl [OF q] assms(2) by simp
  next
    case False
    then show ?thesis
      using assms(1) queue_ok_mono [of T m j "inbox m j"] knows_dispatch by (auto simp: mesh_inv_def inbox_inv_def)
  qed
  then show ?thesis
    using assms(1) flying_inv_dispatch [OF _ q] table_inv_dispatch [OF _ q] by (simp add: mesh_inv_def inbox_inv_def)
qed

text \<open>A packet that arrives or is lost.\<close>

lemma mesh_inv_lose:
  assumes "mesh_inv T m" and "set fs \<subseteq> set (flying m)"
  shows "mesh_inv T (m\<lparr>flying := fs, nodes := ns, tun_out := tun\<rparr>)"
proof -
  let ?m = "m\<lparr>flying := fs, nodes := ns, tun_out := tun\<rparr>"
  have "flying_inv T ?m" using assms knows_tables [of ?m m] by (auto simp: mesh_inv_def flying_inv_def)
  then show ?thesis
    using assms(1) queue_ok_tables [of ?m m] table_inv_tables [of ?m m] by (simp add: mesh_inv_def inbox_inv_def)
qed

lemma mesh_inv_arrive:
  assumes "mesh_inv T m" and "links_ok T" and "flying m = xs @ (i, s, data) # ys" and "peer T (i, s) = (j, s')"
    and "handle_packet (hash_of T) current data s' (nodes m j) = (acts, Done node)"
  shows "mesh_inv T (arrive j acts node (m\<lparr>flying := xs @ ys\<rparr>))"
proof -
  let ?m = "m\<lparr>flying := xs @ ys, nodes := (nodes m)(j := node), tun_out := (tun_out m)(j := tun_out m j @ tun_posts acts)\<rparr>"
  have "peer T (j, s') = (i, s)" using assms(2,4) unfolding links_ok_def by metis
  then have "queue_ok T m j (senders_msgs acts)"
    using assms(1,3) by (intro queue_ok_arrival [OF assms(5)]) (auto simp: mesh_inv_def flying_inv_def)
  then have "queue_ok T ?m j (senders_msgs acts)" using queue_ok_tables [of ?m m] by simp
  then have "mesh_inv T (post j (senders_msgs acts) ?m)"
    using assms(1,3) by (intro mesh_inv_post mesh_inv_lose) auto
  then show ?thesis by (simp add: arrive_def)
qed

lemma mesh_inv_step:
  assumes "mesh_step T m m'" and "links_ok T" and "mesh_inv T m"
  shows "mesh_inv T m'"
  using assms
proof cases
  case (announce_name i ms)
  then show ?thesis
    using assms(3) tells_name by (auto simp: handle_defs origin_def intro!: mesh_inv_post queue_ok_flood)
next
  case (announce_ipv4 octets i ms)
  then have "origin T i a" if "tells (ipv4_announcement ms octets) a" for a
    using tells_ipv4 [OF that] unfolding origin_def by blast
  then show ?thesis
    using announce_ipv4(1) assms(3) by (simp add: handle_defs mesh_inv_post queue_ok_flood)
next
  case (read_tun ms packet msgs i)
  have "queue_ok T m i msgs"
    using linux_tun_reader_ok [of "[(ms, Packet packet)]"] read_tun(2) tells_net_packet
    by (intro queue_ok_quiet) (auto simp: tun_message_ok_def)
  then show ?thesis using read_tun assms(3) mesh_inv_post by simp
next
  case (new_link i s)
  then show ?thesis using assms(3) by (auto simp: handle_defs intro!: mesh_inv_post queue_ok_quiet)
next
  case (clean i)
  then show ?thesis using assms(3) by (auto simp: handle_defs intro!: mesh_inv_post queue_ok_quiet)
next
  case (dispatching i msg msgs alive)
  then show ?thesis using assms(3) mesh_inv_dispatch by simp
next
  case (arriving xs i s data ys j s' current acts node)
  then show ?thesis using assms(2,3) mesh_inv_arrive by simp
next
  case (losing xs p ys)
  then show ?thesis using mesh_inv_lose [OF assms(3), of "xs @ ys" "tun_out m" "nodes m"] by auto
qed

lemma mesh_inv_init: "mesh_inv T (mesh_init ns)"
  by (simp add: mesh_inv_def flying_inv_def inbox_inv_def queue_ok_def table_inv_def mesh_init_def all_senders_init_def)

lemma mesh_inv_run: "(mesh_step T)\<^sup>*\<^sup>* m m' \<Longrightarrow> links_ok T \<Longrightarrow> mesh_inv T m \<Longrightarrow> mesh_inv T m'"
  by (induction rule: rtranclp_induct) (auto intro: mesh_inv_step)

end
