(* ===== verification/Mesh_Delivery.thy ===== *)
theory Mesh_Delivery
  imports Mesh_Network
begin

text \<open>
  What the invariant of the network gives: the routing tables of all nodes together have no loop, every route leads
  to a node that announced the address, and along it an IP packet reaches the TUN device of that node.
\<close>

section \<open>Routes\<close>

text \<open>The edges an IP packet for an address takes: from a node that does not own the address to its next hop.\<close>

definition next_hops :: "topology \<Rightarrow> mesh \<Rightarrow> IpAddr \<Rightarrow> (nat \<times> nat) set" where
  "next_hops T m a = {(j, i). \<not> origin T j a \<and> (\<exists>ms s. fastest_to_address (tables m j) a = Some (ms, s) \<and>
    i = fst (peer T (j, s)))}"

text \<open>How far a node is from knowing the newest announcement.\<close>

definition staleness :: "mesh \<Rightarrow> IpAddr \<Rightarrow> nat \<Rightarrow> nat \<times> nat" where
  "staleness m a j = (case fastest_to_address (tables m j) a of
     None \<Rightarrow> (0, 0)
   | Some (ms, _) \<Rightarrow> (2 ^ 64 - unat ms, learned m j a))"

abbreviation stale_less :: "mesh \<Rightarrow> IpAddr \<Rightarrow> (nat \<times> nat) set" where
  "stale_less m a \<equiv> inv_image (less_than <*lex*> less_than) (staleness m a)"

lemma wf_stale: "wf (stale_less m a)"
  by (intro wf_inv_image wf_lex_prod wf_less_than)

lemma trans_stale: "trans (stale_less m a)"
  by (intro trans_inv_image trans_lex_prod trans_less_than)

lemma next_hop_fresher:
  assumes "table_inv T m" and "(j, i) \<in> next_hops T m a"
  shows "origin T i a \<or> fastest_to_address (tables m i) a \<noteq> None \<and> (i, j) \<in> stale_less m a"
proof -
  obtain ms s where s: "fastest_to_address (tables m j) a = Some (ms, s)" "i = fst (peer T (j, s))"
    using assms(2) by (auto simp: next_hops_def)
  then have "fresher T m i j a ms" using assms(1) by (auto simp: table_inv_def)
  moreover have "2 ^ 64 - unat t < 2 ^ 64 - unat ms" if "ms < t" for t
    using that unsigned_less [of t, where ?'a = nat] by (simp add: word_less_nat_alt)
  ultimately show ?thesis using s(1) by (auto simp: fresher_def staleness_def)
qed

text \<open>Along a route the entries get fresher, until it reaches an origin.\<close>

lemma route_fresher:
  assumes "table_inv T m" and "(j, i) \<in> (next_hops T m a)\<^sup>+"
  shows "origin T i a \<or> (i, j) \<in> stale_less m a"
  using assms(2)
proof (induction rule: trancl_induct)
  case (base i)
  then show ?case using next_hop_fresher [OF assms(1)] by blast
next
  case (step i k)
  then have "\<not> origin T i a" by (simp add: next_hops_def)
  then show ?case
    using step.IH next_hop_fresher [OF assms(1) step.hyps(2)] trans_stale [of m a] by (blast dest: transD)
qed

lemma routes_acyclic:
  assumes "table_inv T m"
  shows "acyclic (next_hops T m a)"
proof (rule acyclicI, intro allI notI)
  fix j assume loop: "(j, j) \<in> (next_hops T m a)\<^sup>+"
  then have "\<not> origin T j a" by (auto simp: next_hops_def dest: tranclD)
  then show False using route_fresher [OF assms loop] wf_not_refl [OF wf_stale] by blast
qed

lemma route_leads_to_origin:
  assumes "table_inv T m" and "fastest_to_address (tables m j) a \<noteq> None"
  shows "\<exists>i. (j, i) \<in> (next_hops T m a)\<^sup>* \<and> origin T i a"
  using wf_stale [of m a] assms(2)
proof (induction j rule: wf_induct_rule)
  case (less j)
  show ?case
  proof (cases "origin T j a")
    case False
    then obtain i where hop: "(j, i) \<in> next_hops T m a" using less.prems by (auto simp: next_hops_def)
    show ?thesis
      using next_hop_fresher [OF assms(1) hop] less.IH [of i] hop by (blast intro: converse_rtrancl_into_rtrancl)
  qed blast
qed

section \<open>Delivery\<close>

text \<open>
  A node that is ready for a packet to an address: its queue is empty, the packet loop takes the packet as new, and
  the addresses it takes packets for are the ones it announces, with a TUN device to write them to.
\<close>

definition ready :: "topology \<Rightarrow> mesh \<Rightarrow> u64 \<Rightarrow> bytes \<Rightarrow> IpAddr \<Rightarrow> nat \<Rightarrow> bool" where
  "ready T m current data a i \<longleftrightarrow> inbox m i = [] \<and> accepts (hash_of T) current data (nodes m i) \<and>
    (a \<in> our_ips (nodes m i) \<longleftrightarrow> origin T i a) \<and> (origin T i a \<longrightarrow> tun_sender (nodes m i) = Some True)"

lemma net_packet_parts:
  "net_packet ms packet ! 8 = 3" "drop 9 (net_packet ms packet) = packet" "net_packet ms packet \<noteq> []"
  by (simp_all add: net_packet_def)

lemma handle_net_packet:
  assumes "ready T m current (net_packet ms packet) a i" and "\<not> short_ip packet" and "ip_target packet = Some a"
  shows "handle_packet (hash_of T) current (net_packet ms packet) s (nodes m i) =
    (if origin T i a then [Post_Tun packet] else [Post_All_Senders (SendToFastest a (net_packet ms packet))],
     Done (note_seen (hash_of T) (net_packet ms packet) (nodes m i)))"
  using assms by (simp add: ready_def handle_packet_eq dispatch_def on_ip_packet_def target_addr_eq net_packet_parts handle_defs)

text \<open>A packet in the queue of a node is sent to the next hop.\<close>

lemma forward_step:
  assumes "inbox m i = [SendToFastest a data]" and "data \<noteq> []" and "fastest_to_address (tables m i) a = Some (t, s)"
  shows "\<exists>m'. mesh_step T m m' \<and> tables m' = tables m \<and> nodes m' = nodes m \<and> tun_out m' = tun_out m \<and>
    inbox m' = (inbox m)(i := []) \<and> flying m' = flying m @ [(i, s, data)]"
proof -
  have "mesh_step T m (dispatch_step (\<lambda>_. True) i (SendToFastest a data) m)"
    using assms(1) by (rule mesh_step.dispatching)
  then show ?thesis
    by (rule exI [of _ "dispatch_step (\<lambda>_. True) i (SendToFastest a data) m", OF conjI]) (use assms in auto)
qed

text \<open>A packet under way to a node arrives there.\<close>

lemma arrive_step:
  assumes "flying m = xs @ [(j, r, net_packet ms packet)]" and "fst (peer T (j, r)) = i"
    and "ready T m current (net_packet ms packet) a i" and "\<not> short_ip packet" and "ip_target packet = Some a"
  shows "\<exists>m'. mesh_step T m m' \<and> tables m' = tables m \<and> flying m' = xs \<and>
    (\<forall>k. k \<noteq> i \<longrightarrow> nodes m' k = nodes m k) \<and>
    inbox m' = (inbox m)(i := if origin T i a then [] else [SendToFastest a (net_packet ms packet)]) \<and>
    tun_out m' = (if origin T i a then (tun_out m)(i := tun_out m i @ [packet]) else tun_out m)"
proof -
  obtain s' where s': "peer T (j, r) = (i, s')" using assms(2) by (cases "peer T (j, r)") auto
  define acts where "acts = (if origin T i a then [Post_Tun packet]
    else [Post_All_Senders (SendToFastest a (net_packet ms packet))])"
  define node where "node = note_seen (hash_of T) (net_packet ms packet) (nodes m i)"
  have "handle_packet (hash_of T) current (net_packet ms packet) s' (nodes m i) = (acts, Done node)"
    using handle_net_packet [OF assms(3-5)] by (simp add: acts_def node_def)
  then have "mesh_step T m (arrive i acts node (m\<lparr>flying := xs @ []\<rparr>))"
    using assms(1) s' by (intro mesh_step.arriving) auto
  moreover have "inbox m i = []" using assms(3) by (simp add: ready_def)
  ultimately show ?thesis
    by (intro exI [of _ "arrive i acts node (m\<lparr>flying := xs\<rparr>)"])
      (auto simp: arrive_def acts_def post_def fun_upd_idem_iff)
qed

text \<open>From hop to hop.\<close>

lemma delivery:
  assumes "(i, k) \<in> (next_hops T m0 a)\<^sup>*" and "origin T k a" and "acyclic (next_hops T m0 a)"
    and "\<not> short_ip packet" and "ip_target packet = Some a"
    and "tables m = tables m0" and "flying m = xs @ [(j, r, net_packet ms packet)]" and "fst (peer T (j, r)) = i"
    and "\<And>l. (i, l) \<in> (next_hops T m0 a)\<^sup>* \<Longrightarrow> ready T m current (net_packet ms packet) a l"
  shows "\<exists>m'. (mesh_step T)\<^sup>*\<^sup>* m m' \<and> tun_out m' = (tun_out m)(k := tun_out m k @ [packet])"
  using assms(1,6-9)
proof (induction arbitrary: m xs j r rule: converse_rtrancl_induct)
  case base
  obtain m' where "mesh_step T m m'" "tun_out m' = (tun_out m)(k := tun_out m k @ [packet])"
    using arrive_step [OF base.prems(2,3) _ assms(4,5), of current] base.prems(4) assms(2) by auto
  then show ?case by blast
next
  case (step i l)
  obtain t s where hop: "\<not> origin T i a" "fastest_to_address (tables m i) a = Some (t, s)" "fst (peer T (i, s)) = l"
    using step.hyps(1) step.prems(1) by (auto simp: next_hops_def)
  obtain m1 where m1: "mesh_step T m m1" "tables m1 = tables m" "\<forall>k. k \<noteq> i \<longrightarrow> nodes m1 k = nodes m k"
      "inbox m1 = (inbox m)(i := [SendToFastest a (net_packet ms packet)])" "tun_out m1 = tun_out m"
    using arrive_step [OF step.prems(2,3) step.prems(4) assms(4,5)] hop(1) by auto
  obtain m2 where m2: "mesh_step T m1 m2" "tables m2 = tables m1" "nodes m2 = nodes m1" "tun_out m2 = tun_out m1"
      "inbox m2 = (inbox m1)(i := [])" "flying m2 = flying m1 @ [(i, s, net_packet ms packet)]"
    using forward_step [of m1 i a "net_packet ms packet" t s T] m1 hop(2) net_packet_parts by auto
  have rest: "ready T m2 current (net_packet ms packet) a n" if n: "(l, n) \<in> (next_hops T m0 a)\<^sup>*" for n
  proof -
    have "(i, n) \<in> (next_hops T m0 a)\<^sup>+" using step.hyps(1) n by (rule rtrancl_into_trancl2)
    then have "n \<noteq> i" using assms(3) by (auto simp: acyclic_def)
    moreover have "ready T m current (net_packet ms packet) a n"
      using step.prems(4) step.hyps(1) n by (blast intro: converse_rtrancl_into_rtrancl)
    ultimately show ?thesis using m1 m2 by (simp add: ready_def)
  qed
  have "tables m2 = tables m0" using m1 m2 step.prems(1) by simp
  from step.IH [OF this m2(6) hop(3) rest] obtain m' where
    "(mesh_step T)\<^sup>*\<^sup>* m2 m'" "tun_out m' = (tun_out m2)(k := tun_out m2 k @ [packet])" by blast
  moreover have "(mesh_step T)\<^sup>*\<^sup>* m m2" using m1(1) m2(1) by (rule rtranclp.rtrancl_into_rtrancl [OF r_into_rtranclp])
  ultimately show ?case using m1 m2 by (metis rtranclp_trans)
qed

section \<open>A mesh of two nodes\<close>

text \<open>Node 1 announces \<^verbatim>\<open>10.0.0.2\<close> over link 5 to node 0.\<close>

definition sample_topology :: topology where
  "sample_topology = \<lparr>hash_of = (\<lambda>p. of_nat (length p)), peer = (\<lambda>(i, s). (if i = 0 then 1 else if i = 1 then 0 else i, s)),
    name_of = (\<lambda>_. [0x61]), ipv4s_of = (\<lambda>i. if i = 1 then [[10, 0, 0, 2]] else [])\<rparr>"

definition sample_nodes :: "nat \<Rightarrow> MeshNode" where
  "sample_nodes i = sample_node\<lparr>our_ips := if i = 1 then {V4 10 0 0 2} else {}\<rparr>"

definition sample_ann :: bytes where
  "sample_ann = ipv4_announcement 0 [10, 0, 0, 2]"

definition sample_sent :: mesh where
  "sample_sent = dispatch_step (\<lambda>_. True) 1 (SendToAll sample_ann) (post 1 [SendToAll sample_ann]
    (dispatch_step (\<lambda>_. True) 1 (AddSender 5) (post 1 [AddSender 5] (mesh_init sample_nodes))))"

definition sample_mesh :: mesh where
  "sample_mesh = dispatch_step (\<lambda>_. True) 0 (SendToAll sample_ann) (dispatch_step (\<lambda>_. True) 0 (AddFastestTo 0 (V4 10 0 0 2) 5)
    (arrive 0 [Post_All_Senders (AddFastestTo 0 (V4 10 0 0 2) 5), Post_All_Senders (SendToAll sample_ann), Post_Route (V4 10 0 0 2)]
      (note_seen (\<lambda>p. of_nat (length p)) sample_ann (sample_nodes 0)) (sample_sent\<lparr>flying := []\<rparr>)))"

lemma sample_links: "links_ok sample_topology"
  by (auto simp: links_ok_def sample_topology_def)

lemma sample_origin: "origin sample_topology i (V4 10 0 0 2) \<longleftrightarrow> i = 1"
  by (auto simp: origin_def sample_topology_def from_node_name_def words_to_addr_def Let_def split: prod.splits)

lemma sample_sent_state:
  "inbox sample_sent = (\<lambda>_. [])" "flying sample_sent = [(1, 5, sample_ann)]" "nodes sample_sent = sample_nodes"
  "tun_out sample_sent = (\<lambda>_. [])"
  "tables sample_sent = (\<lambda>_. all_senders_init)(1 := \<lparr>senders = [5], fastest_to_address = Map.empty\<rparr>)"
  by (auto simp: sample_sent_def post_def mesh_init_def all_senders_init_def sample_ann_def ipv4_announcement_def)

lemma sample_arrival:
  "handle_packet (hash_of sample_topology) 0 sample_ann 5 (nodes sample_sent 0) =
    ([Post_All_Senders (AddFastestTo 0 (V4 10 0 0 2) 5), Post_All_Senders (SendToAll sample_ann), Post_Route (V4 10 0 0 2)],
     Done (note_seen (\<lambda>p. of_nat (length p)) sample_ann (sample_nodes 0)))"
proof -
  have "sample_ann ! 8 = 2" "drop 9 sample_ann = [10, 0, 0, 2]" "packet_ms sample_ann = 0"
    by (simp_all add: sample_ann_def ipv4_announcement_def)
  moreover have "accepts (\<lambda>p. of_nat (length p)) 0 sample_ann (sample_nodes 0)"
    by (simp add: accepts_def sample_nodes_def sample_node_def sample_ann_def ipv4_announcement_def abs_diff_def
        seen_contains_def SeenPackets_new_def)
  ultimately show ?thesis
    by (simp add: handle_packet_eq sample_sent_state dispatch_def on_address_def add_route_def then_do_def handle_defs
        sample_topology_def) (simp add: sample_nodes_def sample_node_def)
qed

lemma sample_sent_run: "(mesh_step sample_topology)\<^sup>*\<^sup>* (mesh_init sample_nodes) sample_sent"
proof -
  let ?m1 = "post 1 [AddSender 5] (mesh_init sample_nodes)"
  let ?m2 = "dispatch_step (\<lambda>_. True) 1 (AddSender 5) ?m1"
  let ?m3 = "post 1 [SendToAll sample_ann] ?m2"
  have "mesh_step sample_topology (mesh_init sample_nodes) ?m1"
    using mesh_step.new_link [of sample_topology "mesh_init sample_nodes" 1 5] by (simp add: handle_defs)
  moreover have "mesh_step sample_topology ?m1 ?m2"
    by (rule mesh_step.dispatching [where msgs = "[]"]) (simp add: mesh_init_def)
  moreover have "mesh_step sample_topology ?m2 ?m3"
    using mesh_step.announce_ipv4 [of "[10, 0, 0, 2]" sample_topology 1 ?m2 0]
    by (simp add: handle_defs sample_ann_def sample_topology_def)
  moreover have "mesh_step sample_topology ?m3 sample_sent"
    unfolding sample_sent_def by (rule mesh_step.dispatching [where msgs = "[]"]) (simp add: mesh_init_def)
  ultimately show ?thesis by (meson rtranclp.rtrancl_into_rtrancl rtranclp.rtrancl_refl)
qed

lemma sample_run: "(mesh_step sample_topology)\<^sup>*\<^sup>* (mesh_init sample_nodes) sample_mesh"
proof -
  let ?m1 = "arrive 0 [Post_All_Senders (AddFastestTo 0 (V4 10 0 0 2) 5), Post_All_Senders (SendToAll sample_ann),
      Post_Route (V4 10 0 0 2)] (note_seen (\<lambda>p. of_nat (length p)) sample_ann (sample_nodes 0)) (sample_sent\<lparr>flying := []\<rparr>)"
  let ?m2 = "dispatch_step (\<lambda>_. True) 0 (AddFastestTo 0 (V4 10 0 0 2) 5) ?m1"
  have "mesh_step sample_topology sample_sent ?m1"
    using mesh_step.arriving [where xs = "[]" and ys = "[]", OF _ _ sample_arrival, of 1 5] sample_sent_state(2)
    by (simp add: sample_topology_def)
  moreover have "mesh_step sample_topology ?m1 ?m2"
    by (rule mesh_step.dispatching [where msgs = "[SendToAll sample_ann]"]) (simp add: arrive_def sample_sent_state)
  moreover have "mesh_step sample_topology ?m2 sample_mesh"
    unfolding sample_mesh_def
    by (rule mesh_step.dispatching [where msgs = "[]"]) (simp add: arrive_def sample_sent_state)
  ultimately show ?thesis using sample_sent_run by (meson rtranclp.rtrancl_into_rtrancl)
qed

lemma sample_mesh_state:
  "fastest_to_address (tables sample_mesh 0) (V4 10 0 0 2) = Some (0, 5)"
  "inbox sample_mesh = (\<lambda>_. [])" "tun_out sample_mesh = (\<lambda>_. [])"
  "nodes sample_mesh = sample_nodes(0 := note_seen (\<lambda>p. of_nat (length p)) sample_ann (sample_nodes 0))"
  by (auto simp: sample_mesh_def arrive_def sample_sent_state add_fastest_def all_senders_init_def)

section \<open>Properties\<close>

text \<open>
  C2. Routing in the mesh is free of loops, whatever the nodes announce, with whatever clocks, and in whatever order
  packets arrive, are lost, or overtake each other: at every moment, following the entries of the routing tables for
  an address from node to node never comes back to a node, and from every node that has an entry it ends at a node
  that announces the address as its own.
\<close>

theorem routes_loop_free:
  assumes "links_ok T" and "(mesh_step T)\<^sup>*\<^sup>* (mesh_init ns) m"
  shows "acyclic (next_hops T m a) \<and> (fastest_to_address (tables m j) a \<noteq> None \<longrightarrow>
    (\<exists>i. (j, i) \<in> (next_hops T m a)\<^sup>* \<and> origin T i a))"
proof -
  have "table_inv T m" using mesh_inv_run [OF assms(2,1) mesh_inv_init] by (simp add: mesh_inv_def)
  then show ?thesis using routes_acyclic route_leads_to_origin by blast
qed

theorem routes_loop_free_witness:
  "acyclic (next_hops sample_topology sample_mesh (V4 10 0 0 2)) \<and>
    (\<exists>i. (0, i) \<in> (next_hops sample_topology sample_mesh (V4 10 0 0 2))\<^sup>* \<and> origin sample_topology i (V4 10 0 0 2))"
  using routes_loop_free [OF sample_links sample_run, of "V4 10 0 0 2" 0] sample_mesh_state(1) by simp

text \<open>
  C1. An IP packet gets through: when a node of the mesh reads a packet from its TUN device and has a route for the
  destination, then, provided the nodes along the route are ready for it (they work off their queues, have not seen
  the packet, and take packets for exactly the addresses they announce), the network can go on so that
  exactly this packet is written to the TUN device of a node that announces the destination, and nothing anywhere
  else.
\<close>

theorem packet_gets_through:
  assumes "links_ok T" and "(mesh_step T)\<^sup>*\<^sup>* (mesh_init ns) m"
    and "packet \<noteq> []" and "\<not> short_ip packet" and "ip_target packet = Some a"
    and "\<not> origin T j a" and "fastest_to_address (tables m j) a \<noteq> None"
    and "\<forall>i. (j, i) \<in> (next_hops T m a)\<^sup>* \<longrightarrow> ready T m current (net_packet ms packet) a i"
  shows "\<exists>k msgs m'. linux_tun_reader [(ms, Packet packet)] = Done msgs \<and> (mesh_step T)\<^sup>*\<^sup>* (post j msgs m) m' \<and>
    origin T k a \<and> tun_out m' = (tun_out m)(k := tun_out m k @ [packet])"
proof -
  let ?p = "net_packet ms packet" and ?H = "next_hops T m a"
  let ?m = "post j [SendToFastest a ?p] m"
  have inv: "table_inv T m" using mesh_inv_run [OF assms(2,1) mesh_inv_init] by (simp add: mesh_inv_def)
  have read: "linux_tun_reader [(ms, Packet packet)] = Done [SendToFastest a ?p]"
    using assms(3-5) by (simp add: tun_send_eq)
  obtain k where k: "(j, k) \<in> ?H\<^sup>*" "origin T k a" using route_leads_to_origin [OF inv assms(7)] by blast
  then obtain l where l: "(j, l) \<in> ?H" "(l, k) \<in> ?H\<^sup>*" using assms(6) by (metis converse_rtranclE)
  then obtain t s where hop: "fastest_to_address (tables m j) a = Some (t, s)" "fst (peer T (j, s)) = l"
    by (auto simp: next_hops_def)
  have "inbox ?m j = [SendToFastest a ?p]" using assms(8) by (auto simp: ready_def)
  with hop(1) obtain m1 where m1: "mesh_step T ?m m1" "tables m1 = tables m" "nodes m1 = nodes m"
      "tun_out m1 = tun_out m" "inbox m1 = (inbox ?m)(j := [])" "flying m1 = flying m @ [(j, s, ?p)]"
    using forward_step [of ?m j a ?p t s T] net_packet_parts by auto
  have "ready T m1 current ?p a n" if n: "(l, n) \<in> ?H\<^sup>*" for n
    using assms(8) converse_rtrancl_into_rtrancl [OF l(1) n] m1 by (auto simp: ready_def)
  from delivery [OF l(2) k(2) routes_acyclic [OF inv] assms(4,5) m1(2,6) hop(2) this]
  obtain m' where "(mesh_step T)\<^sup>*\<^sup>* m1 m'" "tun_out m' = (tun_out m)(k := tun_out m k @ [packet])"
    using m1(4) by auto
  then show ?thesis using read k(2) converse_rtranclp_into_rtranclp [of "mesh_step T", OF m1(1)] by blast
qed

theorem packet_gets_through_witness:
  "\<exists>m'. (mesh_step sample_topology)\<^sup>*\<^sup>*
      (post 0 [SendToFastest (V4 10 0 0 2) (net_packet 0 (drop 9 sample_packet))] sample_mesh) m' \<and>
    tun_out m' = (\<lambda>_. [])(1 := [drop 9 sample_packet])"
proof -
  have acc: "accepts (\<lambda>p. of_nat (length p)) 0 (net_packet 0 (drop 9 sample_packet)) (nodes sample_mesh i)" for i
    by (simp add: accepts_def net_packet_def packet_ms_def abs_diff_def seen_contains_def seen_add_def evict_def sample_ann_def
        sample_packet_def sample_node_def sample_nodes_def sample_mesh_state ipv4_announcement_def SeenPackets_new_def Let_def)
  have "our_ips (nodes sample_mesh i) = (if i = 1 then {V4 10 0 0 2} else {})" "tun_sender (nodes sample_mesh i) = Some True" for i
    by (simp_all add: sample_mesh_state sample_nodes_def sample_node_def)
  then have "ready sample_topology sample_mesh 0 (net_packet 0 (drop 9 sample_packet)) (V4 10 0 0 2) i" for i
    using acc by (simp add: ready_def sample_origin sample_mesh_state(2) sample_topology_def [THEN arg_cong, of hash_of])
  moreover have "drop 9 sample_packet \<noteq> []" by (simp add: sample_packet_def)
  ultimately show ?thesis
    using packet_gets_through [OF sample_links sample_run _ sample_target(3,2), of 0 0 0] sample_mesh_state(1,3) sample_origin
      tun_send_eq [of "drop 9 sample_packet" 0] sample_target by auto
qed

end
