(* ===== verification/Mesh_Rest.thy ===== *)
theory Mesh_Rest
  imports Mesh_Delivery
begin

text \<open>
  A mesh that is left alone comes to rest: when nobody announces, reads a device or adds a link any more, the packets
  and messages under way cause only finitely many further steps. What stops a flood from going round forever is the
  duplicate filter of each node, as long as it forgets nothing that is still under way.
\<close>

section \<open>Steps without input\<close>

text \<open>The steps that handle what is under way: a dispatcher takes a message, a packet arrives or is lost.\<close>

inductive settle :: "topology \<Rightarrow> mesh \<Rightarrow> mesh \<Rightarrow> bool" for T where
  settle_dispatch: "inbox m i = msg # msgs \<Longrightarrow> settle T m (dispatch_step alive i msg m)"
| settle_arrive: "flying m = xs @ (i, s, data) # ys \<Longrightarrow> peer T (i, s) = (j, s') \<Longrightarrow>
    handle_packet (hash_of T) current data s' (nodes m j) = (acts, Done node) \<Longrightarrow>
    settle T m (arrive j acts node (m\<lparr>flying := xs @ ys\<rparr>))"
| settle_lose: "flying m = xs @ p # ys \<Longrightarrow> settle T m (m\<lparr>flying := xs @ ys\<rparr>)"

lemma settle_is_step: "settle T m m' \<Longrightarrow> mesh_step T m m'"
  by (induction rule: settle.induct) (auto intro: mesh_step.intros)

text \<open>The packets a queue will send.\<close>

definition carried :: "AllSendersMessage list \<Rightarrow> bytes set" where
  "carried q = {data. SendToAll data \<in> set q \<or> (\<exists>a. SendToFastest a data \<in> set q)}"

lemma carried_append [simp]: "carried (q @ r) = carried q \<union> carried r"
  by (auto simp: carried_def)

text \<open>
  The nodes \<open>N\<close> of a finite mesh and the packet hashes \<open>H\<close> under way or remembered: the other ends of links of nodes in
  \<open>N\<close> are in \<open>N\<close>, all activity is there, and every filter has room for all of \<open>H\<close>.
\<close>

definition confined :: "nat set \<Rightarrow> u64 set \<Rightarrow> topology \<Rightarrow> mesh \<Rightarrow> bool" where
  "confined N H T m \<longleftrightarrow> finite N \<and> finite H \<and> (\<forall>i \<in> N. \<forall>s. fst (peer T (i, s)) \<in> N) \<and>
    (\<forall>(i, s, data) \<in> set (flying m). i \<in> N \<and> hash_of T data \<in> H) \<and>
    (\<forall>i. inbox m i \<noteq> [] \<longrightarrow> i \<in> N) \<and> (\<forall>i. hash_of T ` carried (inbox m i) \<subseteq> H) \<and>
    (\<forall>i \<in> N. seen_inv (seen_packets (nodes m i)) \<and> hashset (seen_packets (nodes m i)) \<subseteq> H \<and>
      card H \<le> capacity (seen_packets (nodes m i)))"

text \<open>What is left to do: packets not yet seen by nodes, messages in queues, packets under way.\<close>

definition unseen :: "nat set \<Rightarrow> u64 set \<Rightarrow> mesh \<Rightarrow> nat" where
  "unseen N H m = (\<Sum>i \<in> N. card (H - hashset (seen_packets (nodes m i))))"

definition queued :: "nat set \<Rightarrow> mesh \<Rightarrow> nat" where
  "queued N m = (\<Sum>i \<in> N. length (inbox m i))"

definition work :: "nat set \<Rightarrow> u64 set \<Rightarrow> mesh \<Rightarrow> nat \<times> nat \<times> nat" where
  "work N H m = (unseen N H m, queued N m, length (flying m))"

abbreviation less_work :: "nat set \<Rightarrow> u64 set \<Rightarrow> (mesh \<times> mesh) set" where
  "less_work N H \<equiv> inv_image (less_than <*lex*> less_than <*lex*> less_than) (work N H)"

lemma wf_less_work: "wf (less_work N H)"
  by (intro wf_inv_image wf_lex_prod wf_less_than)

section \<open>The steps lessen the work\<close>

lemma sum_less_at:
  assumes "finite N" and "i \<in> N" and "f i < g i" and "\<And>j. j \<noteq> i \<Longrightarrow> f j = g j"
  shows "sum f N < (sum g N :: nat)"
  using assms by (intro sum_strict_mono_ex1) (auto, metis order_refl less_imp_le)

lemma step_sends_carried:
  "(s, data) \<in> set (snd (all_senders_step alive msg st)) \<Longrightarrow> data \<noteq> [] \<Longrightarrow> data \<in> carried [msg]"
  by (cases msg) (auto simp: carried_def split: option.splits)

lemma confined_dispatch:
  assumes "confined N H T m" and "inbox m i = msg # msgs"
  shows "confined N H T (dispatch_step alive i msg m) \<and> (dispatch_step alive i msg m, m) \<in> less_work N H"
proof
  let ?m = "dispatch_step alive i msg m"
  have i: "i \<in> N" "finite N" using assms by (auto simp: confined_def)
  have q: "hash_of T ` carried [msg] \<subseteq> H" "hash_of T ` carried msgs \<subseteq> H"
    using assms carried_append [of "[msg]" msgs] unfolding confined_def by (metis append_Cons append_Nil image_Un le_sup_iff)+
  have "\<forall>(k, s, data) \<in> set (flying ?m). k \<in> N \<and> hash_of T data \<in> H"
    using assms(1) i(1) q(1) step_sends_carried by (fastforce simp: confined_def)
  then show "confined N H T ?m"
    using assms q(2) by (auto simp: confined_def)
  have "queued N ?m < queued N m"
    unfolding queued_def using i assms(2) by (intro sum_less_at) auto
  then show "(?m, m) \<in> less_work N H" by (simp add: work_def unseen_def)
qed

lemma confined_lose:
  assumes "confined N H T m" and "flying m = xs @ p # ys"
  shows "confined N H T (m\<lparr>flying := xs @ ys\<rparr>) \<and> (m\<lparr>flying := xs @ ys\<rparr>, m) \<in> less_work N H"
  using assms by (auto simp: confined_def work_def unseen_def queued_def)

lemma carried_arrival:
  assumes "handle_packet fx current data sndr node = (acts, Done node')"
  shows "carried (senders_msgs acts) \<subseteq> {data}"
proof (cases "accepts fx current data node")
  case True
  then have "dispatch (data ! 8) (packet_ms data) data (drop 9 data) sndr (note_seen fx data node) = (acts, Done node')"
    using assms by (simp add: handle_packet_eq)
  from dispatch_msgs [OF this] show ?thesis by (auto simp: carried_def)
next
  case False
  then show ?thesis using assms by (auto simp: handle_packet_eq carried_def)
qed

lemma confined_arrive:
  assumes "confined N H T m" and "flying m = xs @ (i, s, data) # ys" and "peer T (i, s) = (j, s')"
    and "handle_packet (hash_of T) current data s' (nodes m j) = (acts, Done node)"
  shows "confined N H T (arrive j acts node (m\<lparr>flying := xs @ ys\<rparr>)) \<and>
    (arrive j acts node (m\<lparr>flying := xs @ ys\<rparr>), m) \<in> less_work N H"
proof (cases "accepts (hash_of T) current data (nodes m j)")
  case False
  then have "arrive j acts node (m\<lparr>flying := xs @ ys\<rparr>) = m\<lparr>flying := xs @ ys\<rparr>"
    using assms(4) by (auto simp: handle_packet_eq arrive_def post_def)
  then show ?thesis using confined_lose [OF assms(1,2)] by simp
next
  case True
  let ?m = "arrive j acts node (m\<lparr>flying := xs @ ys\<rparr>)"
  have "fst (peer T (i, s)) \<in> N" "hash_of T data \<in> H" using assms(1,2) by (auto simp: confined_def)
  then have j: "j \<in> N" "hash_of T data \<in> H" using assms(3) by simp_all
  have fin: "finite N" "finite H" using assms(1) by (auto simp: confined_def)
  have node: "node = note_seen (hash_of T) data (nodes m j)" using handle_packet_Done [OF assms(4)] True by simp
  have old: "seen_inv (seen_packets (nodes m j))" "hashset (seen_packets (nodes m j)) \<subseteq> H"
      "card H \<le> capacity (seen_packets (nodes m j))"
    using assms(1) j(1) by (auto simp: confined_def)
  have hashes: "hashset (seen_packets node) = insert (hash_of T data) (hashset (seen_packets (nodes m j)))"
    using seen_add_no_evict [where fx = "hash_of T" and p = data, OF old(1,2) j(2) fin(2) old(3)] by (simp add: node)
  have nodes: "nodes ?m = (nodes m)(j := node)" "flying ?m = xs @ ys" by (simp_all add: arrive_def)
  have inbox: "inbox ?m k = (if k = j then inbox m j @ senders_msgs acts else inbox m k)" for k by (simp add: arrive_def)
  have "seen_inv (seen_packets node) \<and> hashset (seen_packets node) \<subseteq> H \<and> card H \<le> capacity (seen_packets node)"
    using old j(2) hashes seen_inv_add by (simp add: node)
  moreover have "hash_of T ` carried (inbox ?m k) \<subseteq> H" for k
  proof -
    have "hash_of T ` carried (inbox m k) \<subseteq> H" using assms(1) unfolding confined_def by blast
    then show ?thesis using carried_arrival [OF assms(4)] j(2) by (auto simp: inbox)
  qed
  ultimately have "confined N H T ?m"
    using assms(1,2) j(1) by (auto simp: confined_def nodes inbox)
  moreover have "hash_of T data \<notin> hashset (seen_packets (nodes m j))"
    using True by (simp add: accepts_def seen_contains_def)
  then have "H - hashset (seen_packets node) \<subset> H - hashset (seen_packets (nodes m j))" using hashes j(2) by auto
  then have "unseen N H ?m < unseen N H m"
    unfolding unseen_def nodes using fin j(1) by (intro sum_less_at) (auto intro: psubset_card_mono)
  then have "(?m, m) \<in> less_work N H" by (simp add: work_def)
  ultimately show ?thesis by blast
qed

lemma settle_lessens: "settle T m m' \<Longrightarrow> confined N H T m \<Longrightarrow> confined N H T m' \<and> (m', m) \<in> less_work N H"
proof (induction rule: settle.induct)
  case (settle_dispatch m i msg msgs alive)
  then show ?case by (intro confined_dispatch)
next
  case (settle_arrive m xs i s data ys j s' current acts node)
  then show ?case by (intro confined_arrive)
next
  case (settle_lose m xs p ys)
  then show ?case by (intro confined_lose)
qed

section \<open>Properties\<close>



end
