(* ===== verification/Gimli.thy ===== *)
theory Gimli
  imports Prelude
begin

text \<open>
  The Gimli permutation and hash of \<^verbatim>\<open>rust/src/gimli.rs\<close>. The state is 48 bytes, read as twelve
  little-endian 32-bit words (the transmute of the source on its little-endian targets). The main
  result is that \<open>permute\<close> is a bijection of the states: the S-box is inverted bit by bit from the
  low end, and swaps and round constants are invertible. What the users of the permutation need is
  the locale \<open>byte_permutation\<close>.
\<close>

definition RATE_BITS :: nat where "RATE_BITS = 128"

definition RATE_BYTES :: nat where "RATE_BYTES = RATE_BITS div 8"

lemma RATE_BYTES_16 [simp]: "RATE_BYTES = 16"
  by (simp add: RATE_BYTES_def RATE_BITS_def)

section \<open>The permutation on words\<close>

text \<open>The three words a column gets, in the order top, middle, bottom, from its rotated words.\<close>

definition sp_box :: "u32 \<Rightarrow> u32 \<Rightarrow> u32 \<Rightarrow> u32 \<times> u32 \<times> u32" where
  "sp_box x y z =
    (z XOR y XOR shl (x AND y) 3,
     y XOR x XOR shl (x OR z) 1,
     x XOR shl z 1 XOR shl (y AND z) 2)"

definition gimli_column :: "nat \<Rightarrow> u32 list \<Rightarrow> u32 list" where
  "gimli_column col state =
    (case sp_box (rotate_left (state ! col) 24) (rotate_left (state ! (col + 4)) 9)
        (state ! (col + 8)) of
      (u, v, w) \<Rightarrow> state[col + 8 := w, col + 4 := v, col := u])"

definition swap :: "nat \<Rightarrow> nat \<Rightarrow> 'a list \<Rightarrow> 'a list" where
  "swap i j state = state[i := state ! j, j := state ! i]"

definition small_swap :: "nat \<Rightarrow> u32 list \<Rightarrow> u32 list" where
  "small_swap round state = (if round AND 3 = 0 then swap 2 3 (swap 0 1 state) else state)"

definition big_swap :: "nat \<Rightarrow> u32 list \<Rightarrow> u32 list" where
  "big_swap round state = (if round AND 3 = 2 then swap 1 3 (swap 0 2 state) else state)"

definition add_constant :: "nat \<Rightarrow> u32 list \<Rightarrow> u32 list" where
  "add_constant round state =
    (if round AND 3 = 0 then state[0 := state ! 0 XOR (0x9e377900 OR of_nat round)] else state)"

definition gimli_round :: "nat \<Rightarrow> u32 list \<Rightarrow> u32 list" where
  "gimli_round round state =
    add_constant round (big_swap round (small_swap round (fold gimli_column [0..<4] state)))"

definition gimli :: "u32 list \<Rightarrow> u32 list" where
  "gimli state = fold gimli_round (rev [1..<25]) state"

section \<open>The byte state\<close>

type_synonym GimliState = bytes

definition GimliState_new :: GimliState where
  "GimliState_new = replicate 48 0"

definition state_words :: "GimliState \<Rightarrow> u32 list" where
  "state_words s = map from_le_bytes (chunks 4 s)"

definition state_bytes :: "u32 list \<Rightarrow> GimliState" where
  "state_bytes ws = concat (map (to_le_bytes 4) ws)"

definition permute :: "GimliState \<Rightarrow> GimliState" where
  "permute s = state_bytes (gimli (state_words s))"

section \<open>The hash\<close>

definition hash_absorb :: "bytes \<Rightarrow> GimliState \<Rightarrow> GimliState" where
  "hash_absorb chunk s =
    (let s = xor_into chunk s in if length chunk = RATE_BYTES then permute s else s)"

definition hash_pad :: "nat \<Rightarrow> GimliState \<Rightarrow> GimliState" where
  "hash_pad last_chunk_len s =
    (let s = s[last_chunk_len := s ! last_chunk_len XOR 0x1F]
     in s[RATE_BYTES - 1 := s ! (RATE_BYTES - 1) XOR 0x80])"

function hash_squeeze :: "GimliState \<Rightarrow> nat \<Rightarrow> bytes" where
  "hash_squeeze s out_len =
    (if out_len = 0 then []
     else let block_size = min out_len RATE_BYTES;
              rest = out_len - block_size
          in take block_size s @ (if 0 < rest then hash_squeeze (permute s) rest else []))"
  by pat_completeness auto
termination
  by (relation "measure (\<lambda>(s, out_len). out_len)") auto

declare hash_squeeze.simps [simp del]

definition gimli_hash :: "bytes \<Rightarrow> nat \<Rightarrow> bytes" where
  "gimli_hash input out_len =
    (let state = fold hash_absorb (chunks RATE_BYTES input) GimliState_new;
         state = hash_pad (length input mod RATE_BYTES) state;
         state = permute state
     in hash_squeeze state out_len)"

section \<open>Invertibility\<close>

lemma bit_shl: "bit (shl (w :: 'a::len word) n) i \<longleftrightarrow> i < LENGTH('a) \<and> n \<le> i \<and> bit w (i - n)"
  by (auto simp: shl_def bit_push_bit_iff)

text \<open>
  The S-box is triangular: bit \<open>i\<close> of its three outputs determines bit \<open>i\<close> of its inputs once
  the lower bits are known.
\<close>

lemma sp_box_inject:
  assumes eq: "sp_box x y z = sp_box x' y' z'"
  shows "x = x' \<and> y = y' \<and> z = z'"
proof -
  have bits: "bit x i = bit x' i \<and> bit y i = bit y' i \<and> bit z i = bit z' i" if "i < 32" for i
    using that
  proof (induction i rule: less_induct)
    case (less i)
    have IH: "k \<le> i \<Longrightarrow> 0 < k \<Longrightarrow> bit x (i - k) = bit x' (i - k) \<and> bit y (i - k) = bit y' (i - k) \<and>
        bit z (i - k) = bit z' (i - k)" for k
      using less by simp
    have "x XOR shl z 1 XOR shl (y AND z) 2 = x' XOR shl z' 1 XOR shl (y' AND z') 2"
      using eq by (simp add: sp_box_def)
    then have "bit (x XOR shl z 1 XOR shl (y AND z) 2) i =
        bit (x' XOR shl z' 1 XOR shl (y' AND z') 2) i" by simp
    then have bx: "bit x i = bit x' i"
      using IH [of 1] IH [of 2] by (auto simp: bit_xor_iff bit_and_iff bit_shl)
    have "y XOR x XOR shl (x OR z) 1 = y' XOR x' XOR shl (x' OR z') 1"
      using eq by (simp add: sp_box_def)
    then have "bit (y XOR x XOR shl (x OR z) 1) i = bit (y' XOR x' XOR shl (x' OR z') 1) i"
      by simp
    then have b_y: "bit y i = bit y' i"
      using IH [of 1] bx by (auto simp: bit_xor_iff bit_or_iff bit_shl)
    have "z XOR y XOR shl (x AND y) 3 = z' XOR y' XOR shl (x' AND y') 3"
      using eq by (simp add: sp_box_def)
    then have "bit (z XOR y XOR shl (x AND y) 3) i = bit (z' XOR y' XOR shl (x' AND y') 3) i"
      by simp
    then have "bit z i = bit z' i"
      using IH [of 3] b_y by (auto simp: bit_xor_iff bit_and_iff bit_shl)
    with bx b_y show ?case by simp
  qed
  then show ?thesis by (auto intro!: bit_word_eqI)
qed

lemma rotate_left_inject: "rotate_left v n = rotate_left w n \<longleftrightarrow> v = w"
  by (metis rotate_right_left)

lemma length_gimli_column [simp, len_simps]: "length (gimli_column col st) = length st"
  by (simp add: gimli_column_def split: prod.split)

lemma gimli_column_inject:
  assumes "length s = 12" and "length t = 12" and "col < 4"
    and eq: "gimli_column col s = gimli_column col t"
  shows "s = t"
proof -
  let ?sp = "\<lambda>u. sp_box (rotate_left (u ! col) 24) (rotate_left (u ! (col + 4)) 9) (u ! (col + 8))"
  obtain a b c where sps: "?sp s = (a, b, c)" by (metis prod_cases3)
  obtain a' b' c' where spt: "?sp t = (a', b', c')" by (metis prod_cases3)
  have upd: "s[col + 8 := c, col + 4 := b, col := a] = t[col + 8 := c', col + 4 := b', col := a']"
    using eq by (simp add: gimli_column_def sps spt)
  have nth: "s[col + 8 := c, col + 4 := b, col := a] ! i =
      t[col + 8 := c', col + 4 := b', col := a'] ! i" for i
    by (simp only: upd)
  have "a = a'" "b = b'" "c = c'"
    using nth [of col] nth [of "col + 4"] nth [of "col + 8"] assms(1-3) by (simp_all)
  then have "?sp s = ?sp t" by (simp add: sps spt)
  then have cols: "s ! col = t ! col" "s ! (col + 4) = t ! (col + 4)" "s ! (col + 8) = t ! (col + 8)"
    by (auto dest!: sp_box_inject simp: rotate_left_inject)
  show ?thesis
  proof (rule nth_equalityI)
    show "length s = length t" using assms(1,2) by simp
    fix i
    assume "i < length s"
    then show "s ! i = t ! i"
      using nth [of i] cols assms(1-3)
      by (cases "i = col \<or> i = col + 4 \<or> i = col + 8") auto
  qed
qed

lemma length_swap [simp, len_simps]: "length (swap i j st) = length st"
  by (simp add: swap_def)

lemma swap_swap: "i < length st \<Longrightarrow> j < length st \<Longrightarrow> swap i j (swap i j st) = st"
  by (rule nth_equalityI) (auto simp: swap_def nth_list_update)

lemma length_small_swap [simp, len_simps]: "length (small_swap r st) = length st"
  by (simp add: small_swap_def)

lemma length_big_swap [simp, len_simps]: "length (big_swap r st) = length st"
  by (simp add: big_swap_def)

lemma length_add_constant [simp, len_simps]: "length (add_constant r st) = length st"
  by (simp add: add_constant_def)

lemma swap_inject:
  "length s = length t \<Longrightarrow> i < length s \<Longrightarrow> j < length s \<Longrightarrow> swap i j s = swap i j t \<Longrightarrow> s = t"
  by (metis swap_swap)

lemma small_swap_inject:
  assumes "length s = 12" and "length t = 12" and "small_swap r s = small_swap r t"
  shows "s = t"
  using assms swap_inject [of s t 0 1] swap_inject [of "swap 0 1 s" "swap 0 1 t" 2 3]
  by (simp add: small_swap_def split: if_splits)

lemma big_swap_inject:
  assumes "length s = 12" and "length t = 12" and "big_swap r s = big_swap r t"
  shows "s = t"
  using assms swap_inject [of s t 0 2] swap_inject [of "swap 0 2 s" "swap 0 2 t" 1 3]
  by (simp add: big_swap_def split: if_splits)

lemma add_constant_twice: "st \<noteq> [] \<Longrightarrow> add_constant r (add_constant r st) = st"
  by (cases st) (simp_all add: add_constant_def xor.assoc)

lemma add_constant_inject:
  "length s = 12 \<Longrightarrow> length t = 12 \<Longrightarrow> add_constant r s = add_constant r t \<Longrightarrow> s = t"
  by (metis add_constant_twice list.size(3) zero_neq_numeral)

lemma length_fold_columns [simp, len_simps]: "length (fold gimli_column cs st) = length st"
  by (induction cs arbitrary: st) simp_all

lemma fold_columns_inject:
  assumes "length s = 12" and "length t = 12" and "\<forall>c \<in> set cs. c < 4"
    and "fold gimli_column cs s = fold gimli_column cs t"
  shows "s = t"
  using assms
proof (induction cs arbitrary: s t)
  case Nil
  then show ?case by simp
next
  case (Cons c cs)
  have "gimli_column c s = gimli_column c t"
    using Cons.IH [of "gimli_column c s" "gimli_column c t"] Cons.prems by simp
  then show ?case using Cons.prems gimli_column_inject [of s t c] by simp
qed

lemma length_gimli_round [simp, len_simps]: "length (gimli_round r st) = length st"
  by (simp add: gimli_round_def)

lemma gimli_round_inject:
  assumes "length s = 12" and "length t = 12" and "gimli_round r s = gimli_round r t"
  shows "s = t"
proof -
  have "big_swap r (small_swap r (fold gimli_column [0..<4] s)) =
      big_swap r (small_swap r (fold gimli_column [0..<4] t))"
    by (rule add_constant_inject [where r = r]) (use assms in \<open>simp_all add: gimli_round_def\<close>)
  then have "small_swap r (fold gimli_column [0..<4] s) = small_swap r (fold gimli_column [0..<4] t)"
    by (rule big_swap_inject [where r = r, rotated 2]) (use assms(1,2) in simp_all)
  then have "fold gimli_column [0..<4] s = fold gimli_column [0..<4] t"
    by (rule small_swap_inject [where r = r, rotated 2]) (use assms(1,2) in simp_all)
  then show ?thesis using assms(1,2) fold_columns_inject [of s t "[0..<4]"] by simp
qed

lemma length_fold_rounds [simp, len_simps]: "length (fold gimli_round rs st) = length st"
  by (induction rs arbitrary: st) simp_all

lemma length_gimli [simp, len_simps]: "length (gimli st) = length st"
  by (simp add: gimli_def)

lemma fold_rounds_inject:
  assumes "length s = 12" and "length t = 12" and "fold gimli_round rs s = fold gimli_round rs t"
  shows "s = t"
  using assms
proof (induction rs arbitrary: s t)
  case Nil
  then show ?case by simp
next
  case (Cons r rs)
  have "gimli_round r s = gimli_round r t"
    using Cons.IH [of "gimli_round r s" "gimli_round r t"] Cons.prems by simp
  then show ?case using Cons.prems gimli_round_inject [of s t r] by simp
qed

lemma gimli_inject: "length s = 12 \<Longrightarrow> length t = 12 \<Longrightarrow> gimli s = gimli t \<Longrightarrow> s = t"
  unfolding gimli_def by (rule fold_rounds_inject)

section \<open>The permutation on bytes\<close>

lemma chunks4_words:
  "concat (map (to_le_bytes 4) (map (from_le_bytes :: bytes \<Rightarrow> u32) (chunks 4 s))) = s"
  if "length s mod 4 = 0"
  using that
proof (induction "4 :: nat" s rule: chunks.induct)
  case (1 s)
  show ?case
  proof (cases "s = []")
    case True
    then show ?thesis by simp
  next
    case False
    have "length s \<noteq> 0" using False by simp
    then have four: "4 \<le> length s" using "1.prems" by presburger
    have "length (drop 4 s) mod 4 = 0" using "1.prems" four by (simp add: mod_eq_0_iff_dvd)
    then have "concat (map (to_le_bytes 4) (map (from_le_bytes :: bytes \<Rightarrow> u32)
        (chunks 4 (drop 4 s)))) = drop 4 s"
      using False "1.hyps" by simp
    then show ?thesis using False four by (simp add: chunks.simps [of 4 s])
  qed
qed

lemma length_chunks4: "length s = 4 * n \<Longrightarrow> length (chunks 4 s) = n"
proof (induction n arbitrary: s)
  case 0
  then show ?case by simp
next
  case (Suc n)
  then have "s \<noteq> []" and "length (chunks 4 (drop 4 s)) = n" by auto
  then show ?case by (simp add: chunks.simps [of 4 s])
qed

lemma length_state_words [simp, len_simps]: "length s = 48 \<Longrightarrow> length (state_words s) = 12"
  by (simp add: state_words_def length_chunks4)

lemma state_bytes_words: "length s = 48 \<Longrightarrow> state_bytes (state_words s) = s"
  unfolding state_bytes_def state_words_def by (rule chunks4_words) simp

lemma chunks4_concat: "chunks 4 (concat (map (to_le_bytes 4) ws)) = map (to_le_bytes 4) (ws :: u32 list)"
proof (induction ws)
  case Nil
  then show ?case by simp
next
  case (Cons w ws)
  have "to_le_bytes 4 w \<noteq> []" by (metis length_to_le_bytes list.size(3) zero_neq_numeral)
  with Cons show ?case by (simp add: chunks.simps [of 4 "_ @ _"])
qed

lemma state_words_bytes: "state_words (state_bytes ws) = ws"
  by (simp add: state_words_def state_bytes_def chunks4_concat comp_def)

lemma length_state_bytes [simp, len_simps]: "length (state_bytes ws) = 4 * length ws"
  by (induction ws) (simp_all add: state_bytes_def)

text \<open>What the sponge and cipher constructions rely on.\<close>

locale byte_permutation =
  fixes perm :: "bytes \<Rightarrow> bytes"
    and size :: nat
    and rate :: nat
  assumes length_perm: "length s = size \<Longrightarrow> length (perm s) = size"
    and perm_inject: "length s = size \<Longrightarrow> length t = size \<Longrightarrow> perm s = perm t \<Longrightarrow> s = t"
    and rate_size: "rate \<le> size"
begin

lemma finite_states: "finite {s :: bytes. length s = size}"
  using finite_lists_length_eq [of "UNIV :: u8 set" size] by simp

lemma bij_perm: "bij_betw perm {s. length s = size} {s. length s = size}"
  unfolding bij_betw_def
proof
  show inj: "inj_on perm {s. length s = size}"
    by (rule inj_onI) (simp add: perm_inject)
  show "perm ` {s. length s = size} = {s. length s = size}"
    by (rule endo_inj_surj [OF finite_states _ inj]) (auto simp: length_perm)
qed

lemma length_absorb:
  "length s = size \<Longrightarrow> length (fold (\<lambda>c s. perm (xor_into c s)) cs s) = size"
  by (induction cs arbitrary: s) (simp_all add: length_perm)

text \<open>Absorbing a block is injective in the block and in the state it is absorbed into.\<close>

lemma absorb_block_inject:
  assumes "length s = size" and "length c = length d" and "length c \<le> rate"
    and "perm (xor_into c s) = perm (xor_into d s)"
  shows "c = d"
proof -
  have "xor_into c s = xor_into d s"
    using assms perm_inject [of "xor_into c s" "xor_into d s"] by simp
  then show ?thesis using assms rate_size xor_into_inject [of c d s] by simp
qed

lemma absorb_state_inject:
  assumes "length s = size" and "length t = size" and "\<forall>c \<in> set cs. length c \<le> rate"
    and "fold (\<lambda>c s. perm (xor_into c s)) cs s = fold (\<lambda>c s. perm (xor_into c s)) cs t"
  shows "s = t"
  using assms
proof (induction cs arbitrary: s t)
  case Nil
  then show ?case by simp
next
  case (Cons c cs)
  have "perm (xor_into c s) = perm (xor_into c t)"
    using Cons.IH [of "perm (xor_into c s)" "perm (xor_into c t)"] Cons.prems
    by (simp add: length_perm)
  then have "xor_into c s = xor_into c t"
    using Cons.prems perm_inject [of "xor_into c s" "xor_into c t"] by simp
  then show ?case
    using Cons.prems rate_size xor_into_inject_buf [of s t c] by simp
qed

lemma length_iter: "length s = size \<Longrightarrow> length ((perm ^^ n) s) = size"
  by (induction n) (simp_all add: length_perm)

end

lemma length_permute [simp, len_simps]: "length s = 48 \<Longrightarrow> length (permute s) = 48"
  by (simp add: permute_def)

lemma permute_inject:
  assumes "length s = 48" and "length t = 48" and "permute s = permute t"
  shows "s = t"
proof -
  have "gimli (state_words s) = gimli (state_words t)"
    using assms(3) by (metis permute_def state_words_bytes)
  then have "state_words s = state_words t"
    using assms(1,2) by (simp add: gimli_inject)
  then show ?thesis using assms(1,2) by (metis state_bytes_words)
qed

interpretation gp: byte_permutation permute 48 RATE_BYTES
  by unfold_locales (simp_all add: permute_inject)

lemma length_GimliState_new [simp, len_simps]: "length GimliState_new = 48"
  by (simp add: GimliState_new_def)

section \<open>Hash output\<close>

lemma length_hash_squeeze: "length s = 48 \<Longrightarrow> length (hash_squeeze s n) = n"
proof (induction s n rule: hash_squeeze.induct)
  case (1 s n)
  then show ?case by (subst hash_squeeze.simps) (auto simp: Let_def min_def)
qed

lemma hash_squeeze_prefix:
  "length s = 48 \<Longrightarrow> n \<le> m \<Longrightarrow> take n (hash_squeeze s m) = hash_squeeze s n"
proof (induction s m arbitrary: n rule: hash_squeeze.induct)
  case (1 s m)
  show ?case
  proof (cases "n \<le> 16")
    case True
    then have "hash_squeeze s n = take n s" by (subst hash_squeeze.simps) (auto simp: Let_def)
    moreover have "take n (hash_squeeze s m) = take n s"
      using True "1.prems" by (subst hash_squeeze.simps) (auto simp: Let_def min_def)
    ultimately show ?thesis by simp
  next
    case False
    then have m: "16 < m" using "1.prems" by simp
    have "take (n - 16) (hash_squeeze (permute s) (m - 16)) = hash_squeeze (permute s) (n - 16)"
      using "1.IH" [of 16 "m - 16" "n - 16"] m "1.prems" by simp
    then show ?thesis
      using False m "1.prems" by (simp add: hash_squeeze.simps [of s m] hash_squeeze.simps [of s n])
  qed
qed

lemma length_hash_absorb: "length s = 48 \<Longrightarrow> length (hash_absorb c s) = 48"
  by (simp add: hash_absorb_def Let_def)

lemma length_fold_hash_absorb: "length s = 48 \<Longrightarrow> length (fold hash_absorb cs s) = 48"
  by (induction cs arbitrary: s) (simp_all add: length_hash_absorb)

lemma length_hash_pad: "length s = 48 \<Longrightarrow> length (hash_pad n s) = 48"
  by (simp add: hash_pad_def Let_def)

lemmas hash_lengths = length_hash_absorb length_fold_hash_absorb length_hash_pad length_hash_squeeze

section \<open>Properties\<close>

text \<open>
  C27. Permuting is a bijection of the set of all 48-byte states: no two states collide and every
  state is reached, so the keystream and hash constructions never lose state.
\<close>

theorem permute_bijective:
  "bij_betw permute {s. length s = 48} {s. length s = 48}"
  by (rule gp.bij_perm)

text \<open>
  The hash fills the output buffer completely, and a shorter buffer receives a prefix of what a
  longer one receives.
\<close>

theorem gimli_hash_output:
  "length (gimli_hash input n) = n \<and> take n (gimli_hash input (n + m)) = gimli_hash input n"
  by (simp add: gimli_hash_def Let_def hash_lengths hash_squeeze_prefix)

end
