(* ===== verification/Rng.thy ===== *)
theory Rng
  imports Gimli Ip_Addr "HOL-Library.Log_Nat" Complex_Main
begin

text \<open>
  The random number generator of \<^verbatim>\<open>rust/src/rng.rs\<close>, a duplex sponge over the Gimli permutation, and
  the commands of \<^verbatim>\<open>rust/src/main.rs\<close> that print random addresses. The mutex-protected global
  generator is passed as a state. A 64-bit integer is converted to \<^verbatim>\<open>f64\<close> as IEEE 754 prescribes:
  to the nearest value with a 53-bit significand, ties to the even one; all values that occur are
  integers below \<open>2 ^ 64\<close> or multiples of \<open>1 / 2 ^ 64\<close>, so they are written as exact reals.
\<close>

record Rng =
  rng_state :: GimliState

definition Rng_new :: Rng where
  "Rng_new = \<lparr>rng_state = GimliState_new\<rparr>"

text \<open>The absorbing loop over the chunks of a buffer that the sponge users share.\<close>

definition absorb_chunks :: "bytes \<Rightarrow> GimliState \<Rightarrow> GimliState" where
  "absorb_chunks data s = fold (\<lambda>chunk s. permute (xor_into chunk s)) (chunks RATE_BYTES data) s"

definition Rng_absorb :: "bytes \<Rightarrow> Rng \<Rightarrow> Rng" where
  "Rng_absorb data r =
    (let s = permute (xor_into (to_le_bytes 8 (of_nat (length data) :: u64)) (rng_state r))
     in r\<lparr>rng_state := absorb_chunks data s\<rparr>)"

definition Rng_u64 :: "Rng \<Rightarrow> u64 \<times> Rng" where
  "Rng_u64 r =
    (let buf = rng_state r;
         res = from_le_bytes [buf ! 0, buf ! 1, buf ! 2, buf ! 3, buf ! 4, buf ! 5, buf ! 6, buf ! 7]
     in (res, r\<lparr>rng_state := permute buf\<rparr>))"

text \<open>\<^verbatim>\<open>x as f64\<close> for a \<^verbatim>\<open>u64\<close>, as the integer it denotes.\<close>

definition f64_of_u64 :: "u64 \<Rightarrow> nat" where
  "f64_of_u64 x =
    (let n = unat x;
         k = floorlog 2 n - 53;
         q = n div 2 ^ k;
         r = n mod 2 ^ k
     in if k = 0 then n
        else if 2 * r > 2 ^ k \<or> (2 * r = 2 ^ k \<and> odd q) then (q + 1) * 2 ^ k
        else q * 2 ^ k)"

definition Rng_uniform :: "Rng \<Rightarrow> real \<times> Rng" where
  "Rng_uniform r =
    (let (x, r) = Rng_u64 r in (real (f64_of_u64 x) / real (f64_of_u64 (-1)), r))"

text \<open>\<^verbatim>\<open>impl Write for Rng\<close>: writing absorbs and reports the whole buffer as written.\<close>

definition Rng_write :: "bytes \<Rightarrow> Rng \<Rightarrow> nat \<times> Rng" where
  "Rng_write buf r = (length buf, Rng_absorb buf r)"

text \<open>The functions on the global generator.\<close>

definition rng_absorb :: "u64 \<Rightarrow> Rng \<Rightarrow> Rng" where
  "rng_absorb data r = Rng_absorb (to_le_bytes 8 data) r"

definition rng_u64 :: "Rng \<Rightarrow> u64 \<times> Rng" where
  "rng_u64 r = Rng_u64 r"

definition rng_uniform :: "Rng \<Rightarrow> real \<times> Rng" where
  "rng_uniform r = Rng_uniform r"

section \<open>Random addresses\<close>

definition rng_byte :: "Rng \<Rightarrow> u8 \<times> Rng" where
  "rng_byte r = (let (x, r) = rng_u64 r in (ucast (x AND 0xFF), r))"

fun rng_bytes :: "nat \<Rightarrow> Rng \<Rightarrow> bytes \<times> Rng" where
  "rng_bytes 0 r = ([], r)"
| "rng_bytes (Suc n) r = (let (b, r) = rng_byte r; (bs, r) = rng_bytes n r in (b # bs, r))"

definition make_random_ipv4 :: "Rng \<Rightarrow> IpAddr \<times> Rng" where
  "make_random_ipv4 r =
    (let (a, r) = rng_byte r; (b, r) = rng_byte r; (c, r) = rng_byte r; (d, r) = rng_byte r
     in (V4 a b c d, r))"

definition make_random_ipv6 :: "Rng \<Rightarrow> IpAddr \<times> Rng" where
  "make_random_ipv6 r =
    (let (bs, r) = rng_bytes 14 r
     in (V6 0xfd 0x00 (bs ! 0) (bs ! 1) (bs ! 2) (bs ! 3) (bs ! 4) (bs ! 5) (bs ! 6) (bs ! 7)
           (bs ! 8) (bs ! 9) (bs ! 10) (bs ! 11) (bs ! 12) (bs ! 13), r))"

section \<open>State and output\<close>

abbreviation rng_wf :: "Rng \<Rightarrow> bool" where
  "rng_wf r \<equiv> length (rng_state r) = 48"

lemma length_absorb_chunks [simp, len_simps]: "length s = 48 \<Longrightarrow> length (absorb_chunks data s) = 48"
  unfolding absorb_chunks_def by (rule gp.length_absorb)

lemma rng_wf_ops:
  "rng_wf Rng_new"
  "rng_wf r \<Longrightarrow> rng_wf (Rng_absorb data r)"
  "rng_wf r \<Longrightarrow> rng_wf (snd (Rng_u64 r))"
  by (simp_all add: Rng_new_def Rng_absorb_def Rng_u64_def Let_def)

lemma absorb_chunks_inject:
  assumes "length s = 48" and "length t = 48" and "absorb_chunks data s = absorb_chunks data t"
  shows "s = t"
  using assms gp.absorb_state_inject [of s t "chunks RATE_BYTES data"] chunks_length
  unfolding absorb_chunks_def by blast

text \<open>On a single block the result also determines the data.\<close>

lemma absorb_chunks_inject_data:
  assumes "length s = 48" and "length c = length d" and "length c \<le> 16"
    and "absorb_chunks c s = absorb_chunks d s"
  shows "c = d"
proof (cases "c = []")
  case True
  then show ?thesis using assms(2) by simp
next
  case False
  then have "d \<noteq> []" using assms(2) by auto
  have "permute (xor_into c s) = permute (xor_into d s)"
    using assms False \<open>d \<noteq> []\<close> by (simp add: absorb_chunks_def chunks_single)
  then show ?thesis using gp.absorb_block_inject [of s c d] assms by simp
qed

lemma Rng_absorb_inject:
  assumes "rng_wf r" and "rng_wf r'" and "Rng_absorb data r = Rng_absorb data r'"
  shows "r = r'"
proof -
  let ?x = "to_le_bytes 8 (of_nat (length data) :: u64)"
  have st: "rng_state (Rng_absorb data q) = absorb_chunks data (permute (xor_into ?x (rng_state q)))" for q
    by (simp add: Rng_absorb_def Let_def)
  have "absorb_chunks data (permute (xor_into ?x (rng_state r))) =
      absorb_chunks data (permute (xor_into ?x (rng_state r')))"
    using assms(3) st by metis
  then have "permute (xor_into ?x (rng_state r)) = permute (xor_into ?x (rng_state r'))"
    using assms(1,2) absorb_chunks_inject [of "permute (xor_into ?x (rng_state r))"] by simp
  then have "xor_into ?x (rng_state r) = xor_into ?x (rng_state r')"
    using assms(1,2) permute_inject [of "xor_into ?x (rng_state r)"] by simp
  then have "rng_state r = rng_state r'"
    using assms(1,2) xor_into_inject_buf [of "rng_state r" "rng_state r'" ?x] by simp
  then show ?thesis by simp
qed

lemma Rng_u64_take: "rng_wf r \<Longrightarrow> fst (Rng_u64 r) = from_le_bytes (take 8 (rng_state r))"
proof -
  assume "rng_wf r"
  then have "take 8 (rng_state r) = map ((!) (rng_state r)) [0..<8]"
    by (intro nth_equalityI) simp_all
  also have "[0..<8] = [0, 1, 2, 3, 4, 5, 6, 7 :: nat]" by code_simp
  finally show ?thesis by (simp add: Rng_u64_def Let_def)
qed

section \<open>Conversion to floating point\<close>

lemma floorlog_u64_le: "floorlog 2 (unat (x :: u64)) \<le> 64"
proof -
  have "unat x < 2 ^ 64" using unsigned_less [of x] by simp
  then show ?thesis by (simp add: floorlog_le_iff)
qed

lemma f64_of_u64_max: "f64_of_u64 (-1) = 2 ^ 64"
proof -
  have n: "unat (-1 :: u64) = 2 ^ 64 - 1" by (simp add: unsigned_minus_1_eq_mask mask_eq_exp_minus_1)
  have "floorlog 2 (2 ^ 64 - 1 :: nat) \<le> 64" "64 \<le> floorlog 2 (2 ^ 64 - 1 :: nat)"
    by (rule floorlog_leI; simp) (rule floorlog_geI; simp)
  then have "floorlog 2 (2 ^ 64 - 1 :: nat) = 64" by (rule antisym)
  then show ?thesis unfolding f64_of_u64_def n by simp
qed

lemma f64_of_u64_le: "f64_of_u64 x \<le> 2 ^ 64"
proof -
  let ?n = "unat x" and ?k = "floorlog 2 (unat x) - 53"
  have n: "?n < 2 ^ 64" using unsigned_less [of x] by simp
  have k: "?k \<le> 11" using floorlog_u64_le [of x] by simp
  have "?n div 2 ^ ?k < 2 ^ (64 - ?k)"
  proof (rule less_mult_imp_div_less)
    have "2 ^ (64 - ?k) * 2 ^ ?k = (2 :: nat) ^ 64" using k by (simp flip: power_add)
    then show "?n < 2 ^ (64 - ?k) * 2 ^ ?k" using n by simp
  qed
  then have "(?n div 2 ^ ?k + 1) * 2 ^ ?k \<le> 2 ^ (64 - ?k) * 2 ^ ?k"
    by (intro mult_right_mono) simp_all
  also have "\<dots> = 2 ^ 64" using k by (simp flip: power_add)
  finally have up: "(?n div 2 ^ ?k + 1) * 2 ^ ?k \<le> 2 ^ 64" .
  have "?n div 2 ^ ?k * 2 ^ ?k \<le> 2 ^ 64" using up by (rule order_trans [rotated]) simp
  then show ?thesis using up n unfolding f64_of_u64_def Let_def by auto
qed

section \<open>Properties\<close>

text \<open>
  Seeding never loses what the generator already knows: absorbing any given data maps different
  48-byte states to different states, and so does drawing a number.
\<close>

theorem rng_state_never_lost:
  "inj_on (Rng_absorb data) {r. length (rng_state r) = 48} \<and>
   inj_on (\<lambda>r. snd (Rng_u64 r)) {r. length (rng_state r) = 48} \<and>
   Rng_absorb data ` {r. length (rng_state r) = 48} \<subseteq> {r. length (rng_state r) = 48}"
proof (intro conjI)
  show "inj_on (Rng_absorb data) {r. rng_wf r}"
    by (rule inj_onI) (simp add: Rng_absorb_inject)
  have "r = r'" if "rng_wf r" "rng_wf r'" "snd (Rng_u64 r) = snd (Rng_u64 r')" for r r' :: Rng
  proof -
    have "rng_state (snd (Rng_u64 q)) = permute (rng_state q)" for q :: Rng
      by (simp add: Rng_u64_def Let_def)
    then have "permute (rng_state r) = permute (rng_state r')" using that(3) by metis
    then show ?thesis using that(1,2) permute_inject [of "rng_state r" "rng_state r'"] by simp
  qed
  then show "inj_on (\<lambda>r. snd (Rng_u64 r)) {r. rng_wf r}" by (auto intro: inj_onI)
qed (auto simp: rng_wf_ops)

text \<open>
  The uniform number lies in the closed unit interval, and it is exactly one when the drawn
  integer rounds up to \<open>2 ^ 64\<close>; the generator advances by one permutation.
\<close>

theorem rng_uniform_range:
  "0 \<le> fst (rng_uniform r) \<and> fst (rng_uniform r) \<le> 1 \<and>
   (fst (rng_uniform r) = 1 \<longleftrightarrow> f64_of_u64 (fst (rng_u64 r)) = 2 ^ 64) \<and>
   rng_state (snd (rng_uniform r)) = permute (rng_state r)"
proof -
  have val: "fst (rng_uniform r) = real (f64_of_u64 (fst (Rng_u64 r))) / 2 ^ 64"
    by (simp add: rng_uniform_def Rng_uniform_def f64_of_u64_max split_beta)
  have "real (f64_of_u64 x) \<le> real (2 ^ 64)" for x
    using f64_of_u64_le [of x] by (simp only: of_nat_le_iff)
  then have "real (f64_of_u64 x) / 2 ^ 64 \<le> 1" for x by simp
  moreover have "real n / 2 ^ 64 = 1 \<longleftrightarrow> n = 2 ^ 64" for n
  proof -
    have "real n / 2 ^ 64 = 1 \<longleftrightarrow> real n = real (2 ^ 64)" by simp
    then show ?thesis by (simp only: of_nat_eq_iff)
  qed
  moreover have "rng_state (snd (rng_uniform r)) = permute (rng_state r)"
    by (simp add: rng_uniform_def Rng_uniform_def Rng_u64_def Let_def)
  ultimately show ?thesis unfolding val rng_u64_def by simp
qed

end
