(* ===== verification/Link_Crypto.thy ===== *)
theory Link_Crypto
  imports Rng
begin

text \<open>
  The symmetric cryptography of a link, the first part of \<^verbatim>\<open>rust/src/legacy_tcp.rs\<close>: the keystream
  generator, its use as a stream cipher, and the keyed hashes of two and three strings from which
  message authentication codes and session keys are made. What the framing above needs of the
  cipher is the locale \<open>stream_cipher\<close>.
\<close>

record KeystreamGen =
  gimli_state :: GimliState
  ks_n :: u8

definition KeystreamGen_new :: "bytes \<Rightarrow> KeystreamGen" where
  "KeystreamGen_new key =
    (let s = copy_from_slice 0 (to_le_bytes 8 (of_nat (length key) :: u64)) GimliState_new;
         s = permute s
     in \<lparr>gimli_state = absorb_chunks key s, ks_n = 0\<rparr>)"

definition KeystreamGen_next :: "KeystreamGen \<Rightarrow> u8 \<times> KeystreamGen" where
  "KeystreamGen_next g =
    (let byte = gimli_state g ! unat (ks_n g);
         g = g\<lparr>ks_n := ks_n g + 1\<rparr>
     in (byte, if ks_n g = 16 then g\<lparr>gimli_state := permute (gimli_state g), ks_n := 0\<rparr> else g))"

text \<open>The loop \<^verbatim>\<open>for byte in buf.iter_mut() { *byte ^= keystream.next(); }\<close>.\<close>

fun xor_keystream :: "KeystreamGen \<Rightarrow> bytes \<Rightarrow> bytes \<times> KeystreamGen" where
  "xor_keystream g [] = ([], g)"
| "xor_keystream g (b # bs) =
    (let (k, g) = KeystreamGen_next g; (cs, g) = xor_keystream g bs in ((b XOR k) # cs, g))"

text \<open>Absorbing a length, as the keyed hashes do: the first eight bytes are overwritten.\<close>

definition absorb_len :: "bytes \<Rightarrow> GimliState \<Rightarrow> GimliState" where
  "absorb_len x s = permute (copy_from_slice 0 (to_le_bytes 8 (of_nat (length x) :: u64)) s)"

definition multigimli3 :: "bytes \<Rightarrow> bytes \<Rightarrow> bytes \<Rightarrow> bytes" where
  "multigimli3 x y z =
    (let s = GimliState_new;
         s = absorb_len x s;
         s = absorb_len y s;
         s = absorb_len z s;
         s = fold absorb_chunks [x, y, z] s
     in take 16 s)"

definition multigimli2 :: "bytes \<Rightarrow> bytes \<Rightarrow> bytes" where
  "multigimli2 x y =
    (let s = GimliState_new;
         s = absorb_len x s;
         s = absorb_len y s;
         s = fold absorb_chunks [x, y] s
     in take 16 s)"

section \<open>Lengths\<close>

lemma length_absorb_len [simp, len_simps]: "length s = 48 \<Longrightarrow> length (absorb_len x s) = 48"
  by (simp add: absorb_len_def)

lemma length_multigimli3 [simp, len_simps]: "length (multigimli3 x y z) = 16"
  by (simp add: multigimli3_def)

lemma length_multigimli2 [simp, len_simps]: "length (multigimli2 x y) = 16"
  by (simp add: multigimli2_def)

section \<open>The cipher\<close>

text \<open>What a user of a stream cipher relies on.\<close>

locale stream_cipher =
  fixes crypt :: "'k \<Rightarrow> bytes \<Rightarrow> bytes \<times> 'k"
  assumes crypt_append: "crypt k (xs @ ys) =
      (fst (crypt k xs) @ fst (crypt (snd (crypt k xs)) ys), snd (crypt (snd (crypt k xs)) ys))"
    and crypt_length: "length (fst (crypt k xs)) = length xs"
    and crypt_twice: "fst (crypt k (fst (crypt k xs))) = xs"
    and crypt_state: "length xs = length ys \<Longrightarrow> snd (crypt k xs) = snd (crypt k ys)"
begin

lemma crypt_twice_state: "snd (crypt k (fst (crypt k xs))) = snd (crypt k xs)"
  by (rule crypt_state) (simp add: crypt_length)

lemma crypt_roundtrip: "crypt k (fst (crypt k xs)) = (xs, snd (crypt k xs))"
  by (rule prod_eqI) (simp_all add: crypt_twice crypt_twice_state)

lemma crypt_inject: "fst (crypt k xs) = fst (crypt k ys) \<longleftrightarrow> xs = ys"
  by (metis crypt_twice)

text \<open>A message in three parts is decrypted part by part, each with the state the last left.\<close>

lemma crypt_parts:
  assumes "crypt k (xs @ ys @ zs) = (out, k')"
  obtains a b c k1 k2
  where "out = a @ b @ c" and "length a = length xs" and "length b = length ys"
    and "length c = length zs"
    and "crypt k a = (xs, k1)" and "crypt k1 b = (ys, k2)" and "crypt k2 c = (zs, k')"
proof -
  let ?k1 = "snd (crypt k xs)"
  let ?k2 = "snd (crypt ?k1 ys)"
  show thesis
  proof (rule that [of "fst (crypt k xs)" "fst (crypt ?k1 ys)" "fst (crypt ?k2 zs)" ?k1 ?k2])
    show "out = fst (crypt k xs) @ fst (crypt ?k1 ys) @ fst (crypt ?k2 zs)"
      using assms by (simp add: crypt_append)
    show "crypt ?k2 (fst (crypt ?k2 zs)) = (zs, k')"
      using assms by (simp add: crypt_roundtrip crypt_append)
  qed (simp_all add: crypt_length crypt_roundtrip)
qed

end

lemma xor_keystream_length: "length (fst (xor_keystream g xs)) = length xs"
  by (induction xs arbitrary: g) (simp_all add: split_beta)

lemma xor_keystream_append: "xor_keystream g (xs @ ys) =
    (fst (xor_keystream g xs) @ fst (xor_keystream (snd (xor_keystream g xs)) ys),
     snd (xor_keystream (snd (xor_keystream g xs)) ys))"
  by (induction xs arbitrary: g) (simp_all add: split_beta)

lemma xor_keystream_twice: "fst (xor_keystream g (fst (xor_keystream g xs))) = xs"
  by (induction xs arbitrary: g) (simp_all add: split_beta xor.assoc)

lemma xor_keystream_state:
  "length xs = length ys \<Longrightarrow> snd (xor_keystream g xs) = snd (xor_keystream g ys)"
proof (induction xs ys arbitrary: g rule: list_induct2)
  case Nil
  then show ?case by simp
next
  case (Cons x xs y ys)
  then show ?case by (simp add: split_beta)
qed

interpretation kx: stream_cipher xor_keystream
  by unfold_locales
    (fact xor_keystream_append xor_keystream_length xor_keystream_twice xor_keystream_state)+

section \<open>The keystream\<close>

definition ks_wf :: "KeystreamGen \<Rightarrow> bool" where
  "ks_wf g \<longleftrightarrow> length (gimli_state g) = 48 \<and> ks_n g < 16"

lemma ks_wf_new: "ks_wf (KeystreamGen_new key)"
  by (simp add: ks_wf_def KeystreamGen_new_def Let_def)

lemma unat_Suc_16: "n < (16 :: u8) \<Longrightarrow> unat (n + 1) = unat n + 1"
  by (simp add: unat_word_ariths word_less_nat_alt)

lemma KeystreamGen_next_state:
  assumes "ks_wf g"
  shows "fst (KeystreamGen_next g) = gimli_state g ! unat (ks_n g) \<and>
    ks_wf (snd (KeystreamGen_next g)) \<and>
    (if unat (ks_n g) = 15
     then snd (KeystreamGen_next g) = \<lparr>gimli_state = permute (gimli_state g), ks_n = 0\<rparr>
     else gimli_state (snd (KeystreamGen_next g)) = gimli_state g \<and>
       unat (ks_n (snd (KeystreamGen_next g))) = unat (ks_n g) + 1)"
proof -
  have lt: "unat (ks_n g) < 16" using assms by (simp add: ks_wf_def word_less_nat_alt)
  have suc: "unat (ks_n g + 1) = unat (ks_n g) + 1"
    using assms by (simp add: ks_wf_def unat_Suc_16)
  have is16: "ks_n g + 1 = 16 \<longleftrightarrow> unat (ks_n g) = 15"
    using suc by (auto simp: word_unat_eq_iff)
  show ?thesis
    using assms lt suc is16
    by (auto simp: KeystreamGen_next_def ks_wf_def Let_def word_less_nat_alt)
qed

lemma ks_wf_next: "ks_wf g \<Longrightarrow> ks_wf (snd (KeystreamGen_next g))"
  using KeystreamGen_next_state by blast

lemma ks_wf_xor: "ks_wf g \<Longrightarrow> ks_wf (snd (xor_keystream g xs))"
  by (induction xs arbitrary: g) (simp_all add: split_beta ks_wf_next)

text \<open>Byte \<open>i\<close> of the keystream that follows position \<open>m\<close> of the block of state \<open>s\<close>.\<close>

definition ks_byte :: "GimliState \<Rightarrow> nat \<Rightarrow> u8" where
  "ks_byte s i = (permute ^^ (i div 16)) s ! (i mod 16)"

lemma ks_byte_next_block: "ks_byte (permute s) i = ks_byte s (i + 16)"
  by (simp add: ks_byte_def funpow_swap1)

lemma xor_keystream_bytes:
  assumes "ks_wf g"
  shows "fst (xor_keystream g xs) =
    map2 (XOR) xs (map (\<lambda>i. ks_byte (gimli_state g) (unat (ks_n g) + i)) [0..<length xs])"
  using assms
proof (induction xs arbitrary: g)
  case Nil
  then show ?case by simp
next
  case (Cons x xs)
  let ?g = "snd (KeystreamGen_next g)" and ?n = "unat (ks_n g)"
  have lt: "?n < 16" using Cons.prems by (simp add: ks_wf_def word_less_nat_alt)
  have first: "fst (KeystreamGen_next g) = ks_byte (gimli_state g) ?n"
    using KeystreamGen_next_state [OF Cons.prems] lt by (simp add: ks_byte_def)
  have "ks_byte (gimli_state ?g) (unat (ks_n ?g) + i) = ks_byte (gimli_state g) (?n + Suc i)" for i
    using KeystreamGen_next_state [OF Cons.prems]
    by (cases "?n = 15") (simp_all add: ks_byte_next_block add.commute)
  then have shift: "(\<lambda>i. ks_byte (gimli_state ?g) (unat (ks_n ?g) + i)) =
      (\<lambda>i. ks_byte (gimli_state g) (?n + i)) \<circ> Suc"
    by (simp add: fun_eq_iff)
  have rest: "fst (xor_keystream ?g xs) =
      map2 (XOR) xs (map (\<lambda>i. ks_byte (gimli_state g) (?n + i)) (map Suc [0..<length xs]))"
    unfolding Cons.IH [OF ks_wf_next [OF Cons.prems]] shift map_map ..
  have upt: "[0..<length (x # xs)] = 0 # map Suc [0..<length xs]"
    by (simp add: map_Suc_upt upt_conv_Cons del: upt_Suc)
  show ?case unfolding upt by (simp add: split_beta first rest)
qed

text \<open>
  C26. The cipher of a link is the gimli keystream in output blocks of sixteen bytes: encrypting a
  message with a fresh generator xors byte \<open>i\<close> of it with byte \<open>i mod 16\<close> of the state permuted
  \<open>i div 16\<close> times, so the counter and the refills of the generator never skip or repeat a byte,
  however long the message and however it is cut into pieces.
\<close>

theorem keystream_bytes:
  "fst (xor_keystream (KeystreamGen_new key) msg) =
    map2 (XOR) msg
      (map (\<lambda>i. (permute ^^ (i div 16)) (gimli_state (KeystreamGen_new key)) ! (i mod 16))
        [0..<length msg])"
  using xor_keystream_bytes [OF ks_wf_new, of key msg]
  by (simp add: KeystreamGen_new_def ks_byte_def Let_def)

text \<open>
  No two session keys share a keystream generator: the sixteen-byte keys that the handshake
  derives lead to different internal states, and two states that differ at some point of a
  session differ at every later point of it.
\<close>

theorem keystream_keys_distinct:
  "inj_on KeystreamGen_new {key. length key = 16} \<and>
   inj_on (\<lambda>g. (permute ^^ n) (gimli_state g)) {g. ks_wf g \<and> ks_n g = 0}"
proof
  show "inj_on KeystreamGen_new {key. length key = 16}"
  proof (rule inj_onI)
    fix k l
    assume kl: "k \<in> {key. length key = 16}" "l \<in> {key. length key = 16}"
      and eq: "KeystreamGen_new k = KeystreamGen_new l"
    let ?s = "permute (copy_from_slice 0 (to_le_bytes 8 (16 :: u64)) GimliState_new)"
    have "absorb_chunks k ?s = absorb_chunks l ?s"
      using kl eq by (simp add: KeystreamGen_new_def Let_def)
    then show "k = l" using absorb_chunks_inject_data [of ?s k l] kl by simp
  qed
  have pow: "(permute ^^ n) s = (permute ^^ n) t \<Longrightarrow> s = t" if "length s = 48" "length t = 48" for s t n
    using that
  proof (induction n)
    case 0
    then show ?case by simp
  next
    case (Suc n)
    have "length ((permute ^^ n) u) = 48" if "length u = 48" for u
      using that by (induction n) simp_all
    then show ?case using Suc permute_inject [of "(permute ^^ n) s" "(permute ^^ n) t"] by simp
  qed
  show "inj_on (\<lambda>g. (permute ^^ n) (gimli_state g)) {g. ks_wf g \<and> ks_n g = 0}"
    by (rule inj_onI) (auto simp: ks_wf_def dest: pow)
qed

end
