(* ===== verification/Legacy_Tcp.thy ===== *)
theory Legacy_Tcp
  imports Link_Crypto All_Senders "HOL-Library.Sublist"
begin

text \<open>
  The framing of \<^verbatim>\<open>rust/src/legacy_tcp.rs\<close>: the frames that carry packets over a TCP connection and
  the sending and receiving tasks, which \<^verbatim>\<open>connect_impl\<close> and \<^verbatim>\<open>handle_connection\<close> have in common.

  A socket is what the code sees of it. Its reading half is the list of bytes that still arrive
  before the connection fails or a read times out: a read of more bytes than that ends in an
  error. Its writing half is the list of bytes accepted so far and the number of bytes it will
  still accept: a write of more than that leaves a prefix on the wire and ends in an error. The
  outcome of every other system call is an argument.
\<close>

datatype link_error = SetupFailed | ReadFailed | WriteFailed | IncorrectKeyfinder | MacFailed

type_synonym 'a link_result = "link_error + 'a"

definition bind_result :: "'a link_result \<Rightarrow> ('a \<Rightarrow> 'b link_result) \<Rightarrow> 'b link_result" where
  "bind_result r f = (case r of Inl e \<Rightarrow> Inl e | Inr x \<Rightarrow> f x)"

lemma bind_result_simps [simp]:
  "bind_result (Inl e) f = Inl e" "bind_result (Inr x) f = f x"
  by (simp_all add: bind_result_def)

lemma bind_result_Inr:
  "bind_result r f = Inr y \<longleftrightarrow> (\<exists>x. r = Inr x \<and> f x = Inr y)"
  by (cases r) simp_all

section \<open>Reading and writing\<close>

definition read_exact :: "nat \<Rightarrow> bytes \<Rightarrow> (bytes \<times> bytes) link_result" where
  "read_exact n stream =
    (if n \<le> length stream then Inr (take n stream, drop n stream) else Inl ReadFailed)"

record writer =
  wire :: bytes
  room :: nat

definition write_all :: "bytes \<Rightarrow> writer \<Rightarrow> unit link_result \<times> writer" where
  "write_all buf w =
    (if length buf \<le> room w then Inr () else Inl WriteFailed,
     w\<lparr>wire := wire w @ take (room w) buf, room := room w - length buf\<rparr>)"

section \<open>Frames\<close>

definition frame_plain :: "bytes \<Rightarrow> bytes \<Rightarrow> bytes" where
  "frame_plain mac_key data =
    to_le_bytes 2 (of_nat (length data) :: u16) @ data @ multigimli2 mac_key data"

definition seal_frame :: "bytes \<Rightarrow> KeystreamGen \<Rightarrow> bytes \<Rightarrow> bytes \<times> KeystreamGen" where
  "seal_frame mac_key g data = xor_keystream g (frame_plain mac_key data)"

text \<open>
  The sending task: the packets are those that come out of the channel until it is closed. The task
  ends when the channel is closed or a write fails.
\<close>

fun send_task :: "bytes \<Rightarrow> KeystreamGen \<Rightarrow> bytes list \<Rightarrow> writer \<Rightarrow> writer" where
  "send_task mac_key g [] w = w"
| "send_task mac_key g (data # packets) w =
    (if data = [] then send_task mac_key g packets w
     else let (to_send, g') = seal_frame mac_key g data
          in case write_all to_send w of
               (Inr _, w') \<Rightarrow> send_task mac_key g' packets w'
             | (Inl _, w') \<Rightarrow> w')"

text \<open>One pass of the receiving loop, up to the delivery of the packet.\<close>

definition recv_frame ::
  "bytes \<Rightarrow> KeystreamGen \<Rightarrow> bytes \<Rightarrow> (bytes \<times> KeystreamGen \<times> bytes) link_result"
where
  "recv_frame mac_key g stream =
    bind_result (read_exact 2 stream) (\<lambda>(len_buf, stream).
    let (len_buf, g) = xor_keystream g len_buf;
        len = from_le_bytes len_buf :: u16
    in bind_result (read_exact (unat len) stream) (\<lambda>(data, stream).
    let (data, g) = xor_keystream g data
    in bind_result (read_exact 16 stream) (\<lambda>(mac, stream).
    let (mac, g) = xor_keystream g mac
    in if multigimli2 mac_key data \<noteq> mac then Inl MacFailed
       else Inr (data, g, stream))))"

lemma read_exact_Inr:
  "read_exact n s = Inr (a, r) \<longleftrightarrow> s = a @ r \<and> length a = n"
  by (auto simp: read_exact_def)

lemma read_exact_append [simp]: "length a = n \<Longrightarrow> read_exact n (a @ r) = Inr (a, r)"
  by (simp add: read_exact_Inr)

lemma read_exact_Inl: "read_exact n s = Inl e \<longleftrightarrow> length s < n \<and> e = ReadFailed"
  by (auto simp: read_exact_def)

lemma length_frame_plain [simp, len_simps]:
  "length (frame_plain mac_key data) = 18 + length data"
  by (simp add: frame_plain_def)

lemma length_seal_frame [simp, len_simps]:
  "length (fst (seal_frame mac_key g data)) = 18 + length data"
  by (simp add: seal_frame_def kx.crypt_length)

text \<open>A packet of at most 65535 bytes has its length in the header.\<close>

lemma frame_length_field:
  assumes "length data \<le> 65535"
  shows "unat (from_le_bytes (to_le_bytes 2 (of_nat (length data) :: u16)) :: u16) = length data"
  using assms by (simp add: unat_of_nat)

lemma recv_frame_seal:
  assumes "length data \<le> 65535"
  shows "recv_frame mac_key g (fst (seal_frame mac_key g data) @ rest) =
    Inr (data, snd (seal_frame mac_key g data), rest)"
proof -
  let ?len = "to_le_bytes 2 (of_nat (length data) :: u16)"
  obtain out g' where sealed: "seal_frame mac_key g data = (out, g')" by fastforce
  then have "xor_keystream g (?len @ data @ multigimli2 mac_key data) = (out, g')"
    by (simp add: seal_frame_def frame_plain_def)
  then obtain a b c k1 k2
    where out: "out = a @ b @ c" and len: "length a = length ?len" "length b = length data"
      "length c = length (multigimli2 mac_key data)"
      and dec: "xor_keystream g a = (?len, k1)" "xor_keystream k1 b = (data, k2)"
      "xor_keystream k2 c = (multigimli2 mac_key data, g')"
    by (rule kx.crypt_parts)
  show ?thesis
    using len dec frame_length_field [OF assms] by (simp add: recv_frame_def sealed out)
qed

lemma recv_frame_inversion:
  assumes "recv_frame mac_key g stream = Inr (data, g', rest)"
  shows "length data \<le> 65535 \<and> stream = fst (seal_frame mac_key g data) @ rest \<and>
    g' = snd (seal_frame mac_key g data)"
proof -
  from assms obtain a b c
    where parts: "stream = a @ b @ c @ rest" "length a = 2"
      "length b = unat (from_le_bytes (fst (xor_keystream g a)) :: u16)" "length c = 16"
      and dec_eqs: "data = fst (xor_keystream (snd (xor_keystream g a)) b)"
      "xor_keystream (snd (xor_keystream (snd (xor_keystream g a)) b)) c =
        (multigimli2 mac_key data, g')"
    by (auto simp: recv_frame_def bind_result_Inr read_exact_Inr Let_def split_beta
        intro: prod_eqI split: if_splits)
  obtain l k1 where l: "xor_keystream g a = (l, k1)" by fastforce
  obtain k2 where "xor_keystream k1 b = (data, k2)" using dec_eqs(1) l by (metis prod.collapse snd_conv)
  then have dec: "xor_keystream g a = (l, k1)" "xor_keystream k1 b = (data, k2)"
    "xor_keystream k2 c = (multigimli2 mac_key data, g')"
    using l dec_eqs(2) by simp_all
  have len_l: "length l = 2" and len_data: "length data = length b"
    using dec(1,2) parts(2) kx.crypt_length by (metis fst_conv)+
  have bound: "length data \<le> 65535"
    using len_data parts(3) l unat_u16_le by simp
  have "(of_nat (length data) :: u16) = from_le_bytes l" using len_data parts(3) l by simp
  then have field: "to_le_bytes 2 (of_nat (length data) :: u16) = l" using len_l by simp
  have "xor_keystream g (a @ b @ c) = (l @ data @ multigimli2 mac_key data, g')"
    using dec by (simp add: kx.crypt_append)
  then have "xor_keystream g (frame_plain mac_key data) = (a @ b @ c, g')"
    using kx.crypt_roundtrip [of g "a @ b @ c"] field by (simp add: frame_plain_def)
  then show ?thesis using bound parts(1) by (simp add: seal_frame_def)
qed

text \<open>
  Bytes that arrive later never change what was decided on those that arrived before: only a
  reader that ran out of bytes looks at them.
\<close>

lemma read_exact_cases:
  obtains "read_exact n s = Inl ReadFailed" | a r where "s = a @ r" and "length a = n"
proof (cases "n \<le> length s")
  case True
  then show thesis using that(2) [of "take n s" "drop n s"] by simp
qed (use that(1) in \<open>simp add: read_exact_def\<close>)

lemma recv_frame_more:
  assumes "recv_frame mac_key g s \<noteq> Inl ReadFailed"
  shows "recv_frame mac_key g (s @ t) =
    map_sum id (\<lambda>(data, g, rest). (data, g, rest @ t)) (recv_frame mac_key g s)"
proof -
  have no_read: "read_exact 2 s \<noteq> Inl ReadFailed"
    using assms by (intro notI) (simp add: recv_frame_def)
  then obtain a r where s: "s = a @ r" and a: "length a = 2"
    using read_exact_cases [of 2 s] by blast
  obtain l k where l: "xor_keystream g a = (l, k)" by fastforce
  let ?n = "unat (from_le_bytes l :: u16)"
  have "read_exact ?n r \<noteq> Inl ReadFailed"
    using assms by (intro notI) (simp add: recv_frame_def s a l)
  then obtain b r2 where r: "r = b @ r2" and b: "length b = ?n"
    using read_exact_cases [of ?n r] by blast
  obtain d k2 where d: "xor_keystream k b = (d, k2)" by fastforce
  have "read_exact 16 r2 \<noteq> Inl ReadFailed"
    using assms by (intro notI) (simp add: recv_frame_def s r a b l d)
  then obtain c r3 where r2: "r2 = c @ r3" and c: "length c = 16"
    using read_exact_cases [of 16 r2] by blast
  obtain m k3 where "xor_keystream k2 c = (m, k3)" by fastforce
  then show ?thesis by (simp add: recv_frame_def s r r2 a b c l d)
qed

text \<open>A frame cut short is waited for, whatever its contents.\<close>

lemma recv_frame_truncated:
  assumes "length data \<le> 65535" and "strict_prefix s (fst (seal_frame mac_key g data))"
  shows "recv_frame mac_key g s = Inl ReadFailed"
proof (rule ccontr)
  assume decided: "recv_frame mac_key g s \<noteq> Inl ReadFailed"
  obtain t where t: "fst (seal_frame mac_key g data) = s @ t" "t \<noteq> []"
    using assms(2) by (auto simp: strict_prefix_def prefix_def)
  have "recv_frame mac_key g (s @ t) = Inr (data, snd (seal_frame mac_key g data), [])"
    using recv_frame_seal [OF assms(1), of mac_key g "[]"] t by simp
  then show False
    using recv_frame_more [OF decided, of t] t(2) by (cases "recv_frame mac_key g s") auto
qed

section \<open>Sequences of frames\<close>

fun seal_frames :: "bytes \<Rightarrow> KeystreamGen \<Rightarrow> bytes list \<Rightarrow> bytes \<times> KeystreamGen" where
  "seal_frames mac_key g [] = ([], g)"
| "seal_frames mac_key g (p # ps) =
    (let (f, g) = seal_frame mac_key g p; (fs, g) = seal_frames mac_key g ps in (f @ fs, g))"

lemma seal_frames_snoc:
  "seal_frames mac_key g (ps @ [p]) =
    (let (fs, g) = seal_frames mac_key g ps; (f, g) = seal_frame mac_key g p in (fs @ f, g))"
  by (induction ps arbitrary: g) (simp_all add: split_beta)

lemma seal_frames_append:
  "fst (seal_frames mac_key g (ps @ qs)) =
    fst (seal_frames mac_key g ps) @ fst (seal_frames mac_key (snd (seal_frames mac_key g ps)) qs)"
  by (induction ps arbitrary: g) (simp_all add: split_beta)

abbreviation nonempty :: "bytes list \<Rightarrow> bytes list" where
  "nonempty \<equiv> filter (\<lambda>p. p \<noteq> [])"

abbreviation fit_u16 :: "bytes list \<Rightarrow> bool" where
  "fit_u16 ps \<equiv> (\<forall>p \<in> set ps. length p \<le> 65535)"

text \<open>What the sending task leaves on the wire: the frames, cut where the socket stopped.\<close>

lemma send_task_wire:
  "wire (send_task mac_key g ps w) =
    wire w @ take (room w) (fst (seal_frames mac_key g (nonempty ps)))"
proof (induction ps arbitrary: g w)
  case Nil
  then show ?case by simp
next
  case (Cons p ps)
  obtain f g' where f: "seal_frame mac_key g p = (f, g')" by fastforce
  show ?case
  proof (cases "p = []")
    case True
    then show ?thesis using Cons.IH by simp
  next
    case False
    then show ?thesis
      using Cons.IH [of g' "snd (write_all f w)"]
      by (cases "length f \<le> room w") (simp_all add: f split_beta write_all_def)
  qed
qed

text \<open>
  The receiving task after the handshake. The channel to the node takes \<open>accept\<close> packets more; when
  it takes no more the task ends without an error.
\<close>

lemma recv_frame_shorter:
  "recv_frame mac_key g stream = Inr (data, g', rest) \<Longrightarrow> length rest < length stream"
  by (drule recv_frame_inversion) simp

function recv_task ::
  "bytes \<Rightarrow> KeystreamGen \<Rightarrow> nat \<Rightarrow> bytes \<Rightarrow> bytes list \<times> unit link_result"
where
  "recv_task mac_key g accept stream =
    (case recv_frame mac_key g stream of
       Inl e \<Rightarrow> ([], Inl e)
     | Inr (data, g', rest) \<Rightarrow>
         if accept = 0 then ([], Inr ())
         else let (ds, res) = recv_task mac_key g' (accept - 1) rest in (data # ds, res))"
  by pat_completeness auto
termination
  by (relation "measure (\<lambda>(_, _, _, stream). length stream)") (auto dest: recv_frame_shorter)

declare recv_task.simps [simp del]

lemma recv_task_Nil: "recv_task mac_key g n [] = ([], Inl ReadFailed)"
  by (subst recv_task.simps) (simp add: recv_frame_def read_exact_def)

lemma recv_task_frames:
  assumes "fit_u16 ps" and "length ps \<le> n"
  shows "recv_task mac_key g n (fst (seal_frames mac_key g ps) @ rest) =
    (let (ds, res) = recv_task mac_key (snd (seal_frames mac_key g ps)) (n - length ps) rest
     in (ps @ ds, res))"
  using assms
proof (induction ps arbitrary: g n)
  case Nil
  then show ?case by simp
next
  case (Cons p ps)
  then show ?case
    by (subst recv_task.simps) (simp add: split_beta recv_frame_seal Let_def)
qed

lemma recv_task_delivered:
  "prefix (fst (seal_frames mac_key g (fst (recv_task mac_key g n stream)))) stream \<and>
   fit_u16 (fst (recv_task mac_key g n stream)) \<and> length (fst (recv_task mac_key g n stream)) \<le> n"
proof (induction mac_key g n stream rule: recv_task.induct)
  case (1 mac_key g n stream)
  show ?case
  proof (cases "recv_frame mac_key g stream")
    case (Inl e)
    then show ?thesis by (simp add: recv_task.simps [of mac_key g n stream])
  next
    case (Inr x)
    obtain data g' rest where x: "x = (data, g', rest)" by (cases x)
    note inv = recv_frame_inversion [OF Inr [unfolded x]]
    show ?thesis
    proof (cases "n = 0")
      case True
      then show ?thesis using Inr x by (simp add: recv_task.simps [of mac_key g 0 stream])
    next
      case False
      then have step: "recv_task mac_key g n stream =
          (data # fst (recv_task mac_key g' (n - 1) rest), snd (recv_task mac_key g' (n - 1) rest))"
        using Inr x by (simp add: recv_task.simps [of mac_key g n stream] split_beta)
      show ?thesis
        using "1.IH" [OF Inr, of data "(g', rest)" g' rest] x inv False
        unfolding step by (auto simp: split_beta)
    qed
  qed
qed

lemma length_seal_frames [len_simps]:
  "length (fst (seal_frames mac_key g ps)) = (\<Sum>p \<leftarrow> ps. 18 + length p)"
  by (induction ps arbitrary: g) (simp_all add: split_beta)

lemma seal_frames_prefix:
  assumes "prefix (fst (seal_frames mac_key g ds)) (fst (seal_frames mac_key g ps))"
    and "fit_u16 ds" and "fit_u16 ps"
  shows "prefix ds ps"
  using assms
proof (induction ds arbitrary: ps g)
  case Nil
  then show ?case by simp
next
  case (Cons d ds)
  let ?f = "\<lambda>p. seal_frame mac_key g p"
  obtain t where t: "fst (seal_frames mac_key g ps) =
      fst (?f d) @ fst (seal_frames mac_key (snd (?f d)) ds) @ t"
    using Cons.prems(1) by (auto simp: prefix_def split_beta)
  have "ps \<noteq> []"
    using arg_cong [OF t, of length] by auto
  then obtain p qs where ps: "ps = p # qs" by (cases ps) auto
  have "recv_frame mac_key g (fst (seal_frames mac_key g ps)) =
      Inr (p, snd (?f p), fst (seal_frames mac_key (snd (?f p)) qs))"
    using Cons.prems(3) by (simp add: ps split_beta recv_frame_seal)
  moreover have "recv_frame mac_key g (fst (seal_frames mac_key g ps)) =
      Inr (d, snd (?f d), fst (seal_frames mac_key (snd (?f d)) ds) @ t)"
    using Cons.prems(2) unfolding t by (simp add: recv_frame_seal)
  ultimately have "p = d" "fst (seal_frames mac_key (snd (?f d)) qs) =
      fst (seal_frames mac_key (snd (?f d)) ds) @ t"
    by auto
  then show ?case using Cons.IH [of "snd (?f d)" qs] Cons.prems ps by simp
qed

section \<open>What a link delivers\<close>

text \<open>
  C8. The receiver accepts exactly the frames the sender makes: one pass of the receiving loop returns
  a packet if and only if the bytes that arrived begin with the sealed frame of that packet under the
  session's keys at the current position of the keystream; it then continues right behind the frame,
  with the keystream where the sender's is after that frame.
\<close>

theorem recv_frame_iff:
  "recv_frame mac_key g stream = Inr (data, g', rest) \<longleftrightarrow>
    length data \<le> 65535 \<and> stream = fst (seal_frame mac_key g data) @ rest \<and>
    g' = snd (seal_frame mac_key g data)"
  using recv_frame_inversion recv_frame_seal by blast

text \<open>
  A link delivers packets unchanged, in order and without duplicates. When the sending task runs on
  packets of at most 65535 bytes over a socket that fails after \<open>r\<close> bytes, what the receiving task
  hands to the node is a prefix of the non-empty packets, and all of them when the socket holds long
  enough for the frames of 18 bytes more than the packet.
\<close>

theorem link_delivers_in_order:
  assumes "\<forall>p \<in> set ps. length p \<le> 65535" and "length ps \<le> accept"
  shows "let stream = wire (send_task mac_key g ps \<lparr>wire = [], room = r\<rparr>);
             delivered = fst (recv_task mac_key g accept stream)
         in prefix delivered (filter (\<lambda>p. p \<noteq> []) ps) \<and>
            ((\<Sum>p \<leftarrow> filter (\<lambda>p. p \<noteq> []) ps. 18 + length p) \<le> r \<longrightarrow>
              delivered = filter (\<lambda>p. p \<noteq> []) ps)"
proof -
  let ?ps = "nonempty ps"
  define stream where "stream = wire (send_task mac_key g ps \<lparr>wire = [], room = r\<rparr>)"
  define delivered where "delivered = fst (recv_task mac_key g accept stream)"
  have fit: "fit_u16 ?ps" using assms(1) by simp
  have n: "length ?ps \<le> accept" using assms(2) length_filter_le [of _ ps] by (rule le_trans [rotated])
  have stream: "stream = take r (fst (seal_frames mac_key g ?ps))"
    by (simp add: stream_def send_task_wire)
  have "prefix (fst (seal_frames mac_key g delivered)) (fst (seal_frames mac_key g ?ps))"
    using recv_task_delivered [of mac_key g accept stream] stream
      take_is_prefix [of r "fst (seal_frames mac_key g ?ps)"]
    unfolding delivered_def by (auto elim: prefix_order.trans)
  then have "prefix delivered ?ps"
    using seal_frames_prefix [OF _ _ fit] recv_task_delivered [of mac_key g accept stream]
    unfolding delivered_def by blast
  moreover have "delivered = ?ps" if "(\<Sum>p \<leftarrow> ?ps. 18 + length p) \<le> r"
  proof -
    have "stream = fst (seal_frames mac_key g ?ps) @ []"
      using that by (simp only: stream length_seal_frames take_all append_Nil2)
    then show ?thesis
      unfolding delivered_def by (simp only: recv_task_frames [OF fit n] recv_task_Nil) simp
  qed
  ultimately show ?thesis by (simp add: stream_def delivered_def Let_def)
qed

theorem link_delivers_in_order_witness:
  "fst (recv_task [] (KeystreamGen_new []) 2
      (wire (send_task [] (KeystreamGen_new []) [[7, 8], []] \<lparr>wire = [], room = 20\<rparr>))) = [[7, 8]]"
  using link_delivers_in_order [of "[[7, 8], []]" 2 "[]" "KeystreamGen_new []" 20]
  by (simp add: Let_def del: send_task.simps)

text \<open>
  Whatever bytes arrive, forged ones included, all that the receiving task hands to the node are
  packets whose sealed frames, under the session's keys and in this order, make up the beginning of
  those bytes: nothing is delivered behind a byte that does not belong to such a frame.
\<close>

theorem link_delivers_only_sealed:
  "\<exists>rest. stream = fst (seal_frames mac_key g (fst (recv_task mac_key g accept stream))) @ rest"
  using recv_task_delivered [of mac_key g accept stream] by (auto elim: prefixE)

end
