(* ===== verification/Link_Session.thy ===== *)
theory Link_Session
  imports Legacy_Tcp
begin

text \<open>
  Connections of \<^verbatim>\<open>rust/src/legacy_tcp.rs\<close>: the handshakes of \<^verbatim>\<open>connect_impl\<close> and
  \<^verbatim>\<open>handle_connection\<close>, the two tasks of a connection as a state machine that other events
  interleave with, two nodes joined by a connection, and the accept loop of \<^verbatim>\<open>listener_impl\<close>. The
  outcome of each system call that sets up a socket is an argument.
\<close>

definition gen_iv :: "Rng \<Rightarrow> bytes \<times> Rng" where
  "gen_iv r = (let (a, r) = rng_u64 r; (b, r) = rng_u64 r in (to_le_bytes 8 a @ to_le_bytes 8 b, r))"

definition keyfinder :: "bytes \<Rightarrow> bytes \<Rightarrow> bytes" where
  "keyfinder key iv = multigimli3 key iv (bstr ''keyfinder'')"

definition enc_key :: "bytes \<Rightarrow> bytes \<Rightarrow> bytes" where
  "enc_key key iv = multigimli3 key iv (bstr ''enc_key'')"

definition mac_key :: "bytes \<Rightarrow> bytes \<Rightarrow> bytes" where
  "mac_key key iv = multigimli3 key iv (bstr ''mac_key'')"

section \<open>The state of a connection\<close>

text \<open>
  The receiving task of a dialled connection starts by reading the peer's greeting; that of an accepted
  one has it behind it.
\<close>

datatype recv_phase = AwaitHello bytes | Receiving bytes KeystreamGen

record link =
  lk_sender :: sender
  lk_outbox :: "bytes list"
  lk_send_mac :: bytes
  lk_send_ks :: KeystreamGen
  lk_writer :: writer
  lk_recv :: recv_phase
  lk_in :: bytes
  lk_delivered :: "bytes list"
  lk_open :: bool

datatype setup_call =
    ParseAddr | OpenSocket | SocketNonblock | Connect | ConnectedNonblock
  | SetNodelay | DupRead | DupWrite | ReadNonblock | WriteNonblock

definition run_setup :: "(setup_call \<Rightarrow> bool) \<Rightarrow> setup_call list \<Rightarrow> unit link_result" where
  "run_setup sys calls = (if list_all sys calls then Inr () else Inl SetupFailed)"

text \<open>The greeting: the initialisation vector, then the keyfinder, then a flush.\<close>

definition send_hello :: "bytes \<Rightarrow> bytes \<Rightarrow> writer \<Rightarrow> writer link_result" where
  "send_hello key iv w =
    (case write_all iv w of
       (Inl e, _) \<Rightarrow> Inl e
     | (Inr _, w) \<Rightarrow>
         (case write_all (keyfinder key iv) w of (Inl e, _) \<Rightarrow> Inl e | (Inr _, w) \<Rightarrow> Inr w))"

definition open_link :: "sender \<Rightarrow> bytes \<Rightarrow> bytes \<Rightarrow> writer \<Rightarrow> recv_phase \<Rightarrow> bytes \<Rightarrow> link" where
  "open_link sndr key iv w phase stream =
    \<lparr>lk_sender = sndr, lk_outbox = [], lk_send_mac = mac_key key iv,
     lk_send_ks = KeystreamGen_new (enc_key key iv), lk_writer = w, lk_recv = phase, lk_in = stream,
     lk_delivered = [], lk_open = True\<rparr>"

lemma lk_writer_open_link [simp]: "lk_writer (open_link sndr key iv w phase stream) = w"
  by (simp add: open_link_def)

text \<open>
  \<^verbatim>\<open>connect_impl\<close> up to the start of its tasks, with the messages it posts to the dispatcher. The host is an IPv4
  address: for an IPv6 address \<^verbatim>\<open>connect\<close> panics, which \<open>connect_call\<close> of the theory \<open>Descriptors\<close> shows and which ends the
  program.
\<close>

definition connect_impl ::
  "(setup_call \<Rightarrow> bool) \<Rightarrow> sender \<Rightarrow> bytes \<Rightarrow> writer \<Rightarrow> Rng \<Rightarrow>
   (link \<times> AllSendersMessage list) link_result \<times> Rng"
where
  "connect_impl sys sndr key w rng =
    (case run_setup sys [ParseAddr, OpenSocket, SocketNonblock, Connect, ConnectedNonblock,
        SetNodelay, DupRead, DupWrite, ReadNonblock, WriteNonblock] of
       Inl e \<Rightarrow> (Inl e, rng)
     | Inr _ \<Rightarrow>
         (let (iv, rng) = gen_iv rng
          in (bind_result (send_hello key iv w) (\<lambda>w.
                Inr (open_link sndr key iv w (AwaitHello key) [], [AllSenders_add sndr])), rng)))"

text \<open>The greeting as \<^verbatim>\<open>recv_task\<close> of \<^verbatim>\<open>connect_impl\<close> reads it.\<close>

definition recv_hello :: "bytes \<Rightarrow> bytes \<Rightarrow> (bytes \<times> KeystreamGen \<times> bytes) link_result" where
  "recv_hello key stream =
    bind_result (read_exact 16 stream) (\<lambda>(iv, stream).
    bind_result (read_exact 16 stream) (\<lambda>(kf, stream).
    if keyfinder key iv \<noteq> kf then Inl IncorrectKeyfinder
    else Inr (mac_key key iv, KeystreamGen_new (enc_key key iv), stream)))"

text \<open>\<^verbatim>\<open>handle_connection\<close> up to the start of its tasks.\<close>

definition handle_connection ::
  "(setup_call \<Rightarrow> bool) \<Rightarrow> sender \<Rightarrow> bytes list \<Rightarrow> bytes \<Rightarrow> writer \<Rightarrow> Rng \<Rightarrow>
   (link \<times> AllSendersMessage list) link_result \<times> Rng"
where
  "handle_connection sys sndr keys stream w rng =
    (case bind_result (run_setup sys [SetNodelay, DupRead, DupWrite, ReadNonblock, WriteNonblock])
       (\<lambda>_. bind_result (read_exact 16 stream) (\<lambda>(incoming_iv, stream).
       bind_result (read_exact 16 stream) (\<lambda>(incoming_keyfinder, stream).
       case find (\<lambda>key. keyfinder key incoming_iv = incoming_keyfinder) keys of
         None \<Rightarrow> Inl IncorrectKeyfinder
       | Some found_key \<Rightarrow> Inr (found_key, incoming_iv, stream)))) of
       Inl e \<Rightarrow> (Inl e, rng)
     | Inr (found_key, incoming_iv, stream) \<Rightarrow>
         (let (send_iv, rng) = gen_iv rng
          in (bind_result (send_hello found_key send_iv w) (\<lambda>w.
                Inr (open_link sndr found_key send_iv w
                       (Receiving (mac_key found_key incoming_iv)
                          (KeystreamGen_new (enc_key found_key incoming_iv))) stream,
                     [AllSenders_add sndr])), rng)))"

section \<open>The tasks of a connection\<close>

text \<open>A packet posted to the channel of the link; the channel of a link that is down is closed.\<close>

definition enqueue :: "bytes \<Rightarrow> link \<Rightarrow> link" where
  "enqueue p lk = (if lk_open lk then lk\<lparr>lk_outbox := lk_outbox lk @ [p]\<rparr> else lk)"

text \<open>One pass of the sending loop. When either task ends, \<^verbatim>\<open>select2_noresult\<close> ends both.\<close>

definition send_turn :: "link \<Rightarrow> link" where
  "send_turn lk =
    (if \<not> lk_open lk then lk
     else case lk_outbox lk of
       [] \<Rightarrow> lk
     | data # packets \<Rightarrow>
         if data = [] then lk\<lparr>lk_outbox := packets\<rparr>
         else let (to_send, g) = seal_frame (lk_send_mac lk) (lk_send_ks lk) data;
                  (res, w) = write_all to_send (lk_writer lk)
              in lk\<lparr>lk_outbox := packets, lk_send_ks := g, lk_writer := w, lk_open := (res = Inr ())\<rparr>)"

text \<open>
  One pass of the receiving task. A read that lacks bytes waits for them, so the link stays as it is;
  a read that times out or fails is the event \<open>link_failure\<close>.
\<close>

definition recv_turn :: "link \<Rightarrow> link" where
  "recv_turn lk =
    (if \<not> lk_open lk then lk
     else case lk_recv lk of
       AwaitHello key \<Rightarrow>
         (case recv_hello key (lk_in lk) of
            Inr (mk, g, stream) \<Rightarrow> lk\<lparr>lk_recv := Receiving mk g, lk_in := stream\<rparr>
          | Inl e \<Rightarrow> if e = ReadFailed then lk else lk\<lparr>lk_open := False\<rparr>)
     | Receiving mk g \<Rightarrow>
         (case recv_frame mk g (lk_in lk) of
            Inr (data, g, stream) \<Rightarrow>
              lk\<lparr>lk_recv := Receiving mk g, lk_in := stream, lk_delivered := lk_delivered lk @ [data]\<rparr>
          | Inl e \<Rightarrow> if e = ReadFailed then lk else lk\<lparr>lk_open := False\<rparr>))"

definition link_failure :: "link \<Rightarrow> link" where
  "link_failure lk = lk\<lparr>lk_open := False\<rparr>"

section \<open>Two nodes and the connection between them\<close>

text \<open>
  Bytes written by one side and not yet arrived at the other are the \<open>wire\<close> of its writer. The events
  of a connection come in any order: packets are posted, tasks get their turn, TCP carries some bytes
  over in order, a side fails (a timeout, an error of the socket, or a node that stopped listening).
\<close>

datatype side = Dialer | Acceptor

fun other :: "side \<Rightarrow> side" where
  "other Dialer = Acceptor"
| "other Acceptor = Dialer"

type_synonym net = "side \<Rightarrow> link"

datatype net_event =
    Post side bytes
  | SendTurn side
  | RecvTurn side
  | Carry side nat
  | Fail side

definition carry :: "nat \<Rightarrow> link \<Rightarrow> link \<Rightarrow> link \<times> link" where
  "carry n src dst =
    (src\<lparr>lk_writer := lk_writer src\<lparr>wire := drop n (wire (lk_writer src))\<rparr>\<rparr>,
     dst\<lparr>lk_in := lk_in dst @ take n (wire (lk_writer src))\<rparr>)"

fun net_step :: "net_event \<Rightarrow> net \<Rightarrow> net" where
  "net_step (Post s p) n = n(s := enqueue p (n s))"
| "net_step (SendTurn s) n = n(s := send_turn (n s))"
| "net_step (RecvTurn s) n = n(s := recv_turn (n s))"
| "net_step (Carry s k) n =
    (let (src, dst) = carry k (n s) (n (other s)) in n(s := src, other s := dst))"
| "net_step (Fail s) n = n(s := link_failure (n s))"

definition net_run :: "net_event list \<Rightarrow> net \<Rightarrow> net" where
  "net_run = fold net_step"

text \<open>The packets posted at one side, less the empty ones that only probe the channel.\<close>

fun posted :: "side \<Rightarrow> net_event list \<Rightarrow> bytes list" where
  "posted s [] = []"
| "posted s (Post s' p # es) = (if s' = s \<and> p \<noteq> [] then p # posted s es else posted s es)"
| "posted s (_ # es) = posted s es"

text \<open>
  A connection between a node that dials with \<open>key\<close> and one that accepts \<open>keys\<close>: the acceptor
  starts on the greeting of the dialer.
\<close>

definition establish ::
  "(setup_call \<Rightarrow> bool) \<Rightarrow> (setup_call \<Rightarrow> bool) \<Rightarrow> bytes \<Rightarrow> bytes list \<Rightarrow> nat \<Rightarrow> nat \<Rightarrow> Rng \<Rightarrow> Rng \<Rightarrow>
   net link_result"
where
  "establish sys1 sys2 key keys room1 room2 rng1 rng2 =
    bind_result (fst (connect_impl sys1 0 key \<lparr>wire = [], room = room1\<rparr> rng1)) (\<lambda>(a, _).
    bind_result (fst (handle_connection sys2 1 keys (wire (lk_writer a)) \<lparr>wire = [], room = room2\<rparr> rng2))
      (\<lambda>(b, _).
    Inr (\<lambda>s. case s of
           Dialer \<Rightarrow> a\<lparr>lk_writer := lk_writer a\<lparr>wire := []\<rparr>\<rparr>
         | Acceptor \<Rightarrow> b)))"

section \<open>One direction of a connection\<close>

text \<open>
  \<open>expects phase pend mk g body\<close>: a receiver in the given phase, with \<open>pend\<close> to arrive, will read
  \<open>body\<close> with the session keys \<open>mk\<close> and \<open>g\<close>.
\<close>

fun expects :: "recv_phase \<Rightarrow> bytes \<Rightarrow> bytes \<Rightarrow> KeystreamGen \<Rightarrow> bytes \<Rightarrow> bool" where
  "expects (Receiving mk' g') pend mk g body \<longleftrightarrow> mk = mk' \<and> g = g' \<and> pend = body"
| "expects (AwaitHello key) pend mk g body \<longleftrightarrow>
    (\<exists>iv. length iv = 16 \<and> pend = iv @ keyfinder key iv @ body \<and> mk = mac_key key iv \<and>
      g = KeystreamGen_new (enc_key key iv))"

lemma expects_more:
  "expects phase pend mk g body \<Longrightarrow> expects phase (pend @ x) mk g (body @ x)"
  by (cases phase) auto

definition cut_frame :: "bytes \<Rightarrow> KeystreamGen \<Rightarrow> bytes \<Rightarrow> bool" where
  "cut_frame mk g part \<longleftrightarrow> (\<exists>p. length p \<le> 65535 \<and> strict_prefix part (fst (seal_frame mk g p)))"

lemma cut_frame_Nil [simp]: "cut_frame mk g []"
proof -
  have "length (fst (seal_frame mk g [])) \<noteq> 0" by simp
  then have "fst (seal_frame mk g []) \<noteq> []" unfolding length_0_conv .
  then show ?thesis
    unfolding cut_frame_def by (intro exI [of _ "[]"]) (simp add: strict_prefix_def)
qed

text \<open>
  What holds of a direction after the packets \<open>E\<close> were posted at its source: the bytes under way are
  the frames of packets not delivered yet, behind them at most a piece of the frame a failed
  write left; as long as the source is up, no packet is missing.
\<close>

definition dir_inv :: "bytes list \<Rightarrow> link \<Rightarrow> link \<Rightarrow> bool" where
  "dir_inv E src dst \<longleftrightarrow>
    (\<exists>mk g ps part.
      expects (lk_recv dst) (lk_in dst @ wire (lk_writer src)) mk g (fst (seal_frames mk g ps) @ part) \<and>
      fit_u16 ps \<and> lk_send_mac src = mk \<and> prefix (lk_delivered dst @ ps) E \<and>
      cut_frame mk (snd (seal_frames mk g ps)) part \<and>
      (lk_open src \<longrightarrow> part = [] \<and> lk_send_ks src = snd (seal_frames mk g ps) \<and>
        E = lk_delivered dst @ ps @ nonempty (lk_outbox src)))"

lemma recv_frame_pending:
  assumes "fit_u16 ps" and "cut_frame mk (snd (seal_frames mk g ps)) part"
  shows "recv_frame mk g (fst (seal_frames mk g ps) @ part) =
    (case ps of
       [] \<Rightarrow> Inl ReadFailed
     | p # qs \<Rightarrow> Inr (p, snd (seal_frame mk g p), fst (seal_frames mk (snd (seal_frame mk g p)) qs) @ part))"
proof (cases ps)
  case Nil
  then show ?thesis using assms(2) by (auto simp: cut_frame_def recv_frame_truncated)
next
  case (Cons p qs)
  then show ?thesis using assms(1) by (simp add: split_beta recv_frame_seal)
qed

lemma recv_frame_arrived:
  assumes "stream @ wr = fst (seal_frames mk g ps) @ part"
    and "fit_u16 ps" and "cut_frame mk (snd (seal_frames mk g ps)) part"
  shows "recv_frame mk g stream = Inl ReadFailed \<or>
    (\<exists>p qs rest. ps = p # qs \<and> recv_frame mk g stream = Inr (p, snd (seal_frame mk g p), rest) \<and>
      rest @ wr = fst (seal_frames mk (snd (seal_frame mk g p)) qs) @ part)"
proof (cases "recv_frame mk g stream = Inl ReadFailed")
  case False
  have "map_sum id (\<lambda>(data, g, rest). (data, g, rest @ wr)) (recv_frame mk g stream) =
    (case ps of
       [] \<Rightarrow> Inl ReadFailed
     | p # qs \<Rightarrow> Inr (p, snd (seal_frame mk g p), fst (seal_frames mk (snd (seal_frame mk g p)) qs) @ part))"
    using recv_frame_more [OF False, of wr] recv_frame_pending [OF assms(2,3)] assms(1) by simp
  then show ?thesis
    using False by (cases "recv_frame mk g stream"; cases ps) auto
qed simp

lemma recv_hello_arrived:
  assumes "stream @ wr = iv @ keyfinder key iv @ body" and "length iv = 16"
  shows "recv_hello key stream = Inl ReadFailed \<or>
    (\<exists>rest. recv_hello key stream = Inr (mac_key key iv, KeystreamGen_new (enc_key key iv), rest) \<and>
      rest @ wr = body)"
proof (cases "32 \<le> length stream")
  case True
  let ?h = "iv @ keyfinder key iv"
  have len: "length ?h = 32" using assms(2) by (simp add: keyfinder_def)
  have "take 32 (stream @ wr) = ?h" unfolding assms(1) using len by simp
  then have "take 32 stream = ?h" using True by simp
  then have "stream = ?h @ drop 32 stream" by (metis append_take_drop_id)
  then obtain rest where s: "stream = iv @ keyfinder key iv @ rest" by simp
  then have "rest @ wr = body" using assms(1) by simp
  then show ?thesis
    using s assms(2) by (simp add: recv_hello_def read_exact_append keyfinder_def)
next
  case False
  then show ?thesis by (auto simp: recv_hello_def read_exact_def)
qed

text \<open>A direction depends on few fields of the two links.\<close>

lemma dir_inv_cong:
  assumes "lk_recv dst' = lk_recv dst" and "lk_in dst' = lk_in dst"
    and "lk_delivered dst' = lk_delivered dst" and "lk_writer src' = lk_writer src"
    and "lk_send_mac src' = lk_send_mac src" and "lk_send_ks src' = lk_send_ks src"
    and "lk_outbox src' = lk_outbox src" and "lk_open src' \<longrightarrow> lk_open src"
    and "dir_inv E src dst"
  shows "dir_inv E src' dst'"
  using assms unfolding dir_inv_def by metis

lemma dir_inv_post:
  assumes "dir_inv E src dst"
  shows "dir_inv (if p = [] then E else E @ [p]) (enqueue p src) dst"
proof -
  obtain mk g ps part
    where "expects (lk_recv dst) (lk_in dst @ wire (lk_writer src)) mk g (fst (seal_frames mk g ps) @ part)"
      and "fit_u16 ps" and "lk_send_mac src = mk" and "prefix (lk_delivered dst @ ps) E"
      and "cut_frame mk (snd (seal_frames mk g ps)) part"
      and "lk_open src \<longrightarrow> part = [] \<and> lk_send_ks src = snd (seal_frames mk g ps) \<and>
        E = lk_delivered dst @ ps @ nonempty (lk_outbox src)"
    using assms unfolding dir_inv_def by blast
  then show ?thesis
    unfolding dir_inv_def
    by (intro exI [of _ mk] exI [of _ g] exI [of _ ps] exI [of _ part])
      (cases "lk_open src"; auto simp: enqueue_def)
qed

text \<open>Sending a packet whose turn it is: the frame goes out whole, or the link closes behind a cut one.\<close>

lemma dir_inv_frame:
  assumes ex: "expects (lk_recv dst) (lk_in dst @ wire (lk_writer src)) mk g (fst (seal_frames mk g ps))"
    and fit: "fit_u16 ps" and mk: "lk_send_mac src = mk" and ks: "lk_send_ks src = snd (seal_frames mk g ps)"
    and E: "E = lk_delivered dst @ ps @ nonempty (data # packets)" and data: "data \<noteq> []" "length data \<le> 65535"
    and f: "seal_frame mk (lk_send_ks src) data = (f, g')"
  shows "dir_inv E (src\<lparr>lk_outbox := packets, lk_send_ks := g', lk_writer := snd (write_all f (lk_writer src)),
    lk_open := length f \<le> room (lk_writer src)\<rparr>) dst"
proof -
  let ?w = "lk_writer src"
  have wire: "wire (snd (write_all f ?w)) = wire ?w @ take (room ?w) f"
    by (simp add: write_all_def)
  have ex': "expects (lk_recv dst) (lk_in dst @ wire ?w @ x) mk g (fst (seal_frames mk g ps) @ x)" for x
    using expects_more [OF ex] by simp
  show ?thesis
  proof (cases "length f \<le> room ?w")
    case True
    have "seal_frames mk g (ps @ [data]) = (fst (seal_frames mk g ps) @ f, g')"
      using f ks by (simp add: seal_frames_snoc split_beta)
    then show ?thesis
      using ex' [of f] True wire fit mk data E unfolding dir_inv_def
      by (intro exI [of _ mk] exI [of _ g] exI [of _ "ps @ [data]"] exI [of _ "[]"]) auto
  next
    case False
    have "strict_prefix (take (room ?w) f) f"
      using False by (metis less_le_not_le linorder_not_le prefix_order.le_less take_all_iff take_is_prefix)
    then have "cut_frame mk (snd (seal_frames mk g ps)) (take (room ?w) f)"
      using f ks data unfolding cut_frame_def by (metis fst_conv)
    then show ?thesis
      using ex' [of "take (room ?w) f"] False wire fit mk E unfolding dir_inv_def
      by (intro exI [of _ mk] exI [of _ g] exI [of _ ps] exI [of _ "take (room ?w) f"]) auto
  qed
qed

lemma dir_inv_send:
  assumes "dir_inv E src dst" and "fit_u16 E"
  shows "dir_inv E (send_turn src) dst"
proof (cases "lk_open src \<and> lk_outbox src \<noteq> []")
  case False
  then show ?thesis using assms(1) by (auto simp: send_turn_def split: list.splits)
next
  case True
  then obtain data packets where out: "lk_outbox src = data # packets" and up: "lk_open src"
    by (cases "lk_outbox src") auto
  obtain mk g ps
    where ex: "expects (lk_recv dst) (lk_in dst @ wire (lk_writer src)) mk g (fst (seal_frames mk g ps))"
      and fit: "fit_u16 ps" and mk: "lk_send_mac src = mk"
      and ks: "lk_send_ks src = snd (seal_frames mk g ps)"
      and E: "E = lk_delivered dst @ ps @ nonempty (data # packets)"
    using assms(1) up out unfolding dir_inv_def by auto
  show ?thesis
  proof (cases "data = []")
    case True
    then show ?thesis using assms(1) out up unfolding dir_inv_def by (simp add: send_turn_def)
  next
    case False
    obtain f g' where f: "seal_frame mk (lk_send_ks src) data = (f, g')" by fastforce
    have "length data \<le> 65535" using assms(2) E False by simp
    then have "dir_inv E (src\<lparr>lk_outbox := packets, lk_send_ks := g', lk_writer := snd (write_all f (lk_writer src)),
        lk_open := length f \<le> room (lk_writer src)\<rparr>) dst"
      using dir_inv_frame [OF ex fit mk ks E False _ f] by simp
    moreover have "send_turn src = src\<lparr>lk_outbox := packets, lk_send_ks := g',
        lk_writer := snd (write_all f (lk_writer src)), lk_open := length f \<le> room (lk_writer src)\<rparr>"
      using False up out f mk by (simp add: send_turn_def write_all_def)
    ultimately show ?thesis by simp
  qed
qed

lemma recv_turn_effect:
  assumes ex: "expects (lk_recv dst) (lk_in dst @ wr) mk g (fst (seal_frames mk g ps) @ part)"
    and fit: "fit_u16 ps" and cut: "cut_frame mk (snd (seal_frames mk g ps)) part"
  obtains "recv_turn dst = dst"
  | rest where "recv_turn dst = dst\<lparr>lk_recv := Receiving mk g, lk_in := rest\<rparr>"
      and "rest @ wr = fst (seal_frames mk g ps) @ part"
  | p qs rest where "ps = p # qs"
      and "recv_turn dst = dst\<lparr>lk_recv := Receiving mk (snd (seal_frame mk g p)), lk_in := rest,
        lk_delivered := lk_delivered dst @ [p]\<rparr>"
      and "rest @ wr = fst (seal_frames mk (snd (seal_frame mk g p)) qs) @ part"
proof (cases "lk_open dst")
  case False
  then show thesis using that(1) by (simp add: recv_turn_def)
next
  case up: True
  show thesis
  proof (cases "lk_recv dst")
    case (AwaitHello key)
    then obtain iv where iv: "length iv = 16" "mk = mac_key key iv"
        "g = KeystreamGen_new (enc_key key iv)"
      and pend: "lk_in dst @ wr = iv @ keyfinder key iv @ fst (seal_frames mk g ps) @ part"
      using ex by auto
    from recv_hello_arrived [OF pend iv(1)] show thesis
      using that(1,2) AwaitHello up iv by (auto simp: recv_turn_def)
  next
    case (Receiving mk' g')
    then have pend: "lk_in dst @ wr = fst (seal_frames mk g ps) @ part"
      and r: "lk_recv dst = Receiving mk g"
      using ex by auto
    from recv_frame_arrived [OF pend fit cut] show thesis
      using that(1,3) r up by (auto simp: recv_turn_def)
  qed
qed

text \<open>Between two such ends the receiving task never gives up by itself.\<close>

lemma dir_inv_recv:
  assumes "dir_inv E src dst"
  shows "dir_inv E src (recv_turn dst) \<and> lk_open (recv_turn dst) = lk_open dst"
proof -
  obtain mk g ps part
    where ex: "expects (lk_recv dst) (lk_in dst @ wire (lk_writer src)) mk g
        (fst (seal_frames mk g ps) @ part)"
      and inv: "fit_u16 ps" "lk_send_mac src = mk" "prefix (lk_delivered dst @ ps) E"
        "cut_frame mk (snd (seal_frames mk g ps)) part"
        "lk_open src \<longrightarrow> part = [] \<and> lk_send_ks src = snd (seal_frames mk g ps) \<and>
          E = lk_delivered dst @ ps @ nonempty (lk_outbox src)"
    using assms unfolding dir_inv_def by blast
  from ex inv(1,4) show ?thesis
  proof (cases rule: recv_turn_effect)
    case 1
    then show ?thesis using assms by simp
  next
    case (2 rest)
    then show ?thesis using inv unfolding dir_inv_def by (auto intro!: exI [of _ ps] exI [of _ part])
  next
    case (3 p qs rest)
    then show ?thesis
      using inv unfolding dir_inv_def by (auto simp: split_beta intro!: exI [of _ qs] exI [of _ part])
  qed
qed

lemma dir_inv_carry:
  assumes "dir_inv E src dst"
  shows "dir_inv E (fst (carry n src dst)) (snd (carry n src dst))"
  using assms unfolding dir_inv_def carry_def by simp

section \<open>Both directions\<close>

definition net_inv :: "(side \<Rightarrow> bytes list) \<Rightarrow> net \<Rightarrow> bool" where
  "net_inv E n \<longleftrightarrow> (\<forall>s. dir_inv (E s) (n s) (n (other s)))"

lemma other_other [simp]: "other (other s) = s" "other s \<noteq> s" "s \<noteq> other s"
  by (cases s; simp)+

lemma all_sides: "(\<forall>s. P s) \<longleftrightarrow> P Dialer \<and> P Acceptor"
  by (metis side.exhaust)

lemma side_cases: "s' = s \<or> s' = other s"
  by (cases s; cases s') simp_all

lemma posted_append: "posted s (es @ fs) = posted s es @ posted s fs"
  by (induction s es rule: posted.induct) simp_all

lemma send_turn_keeps [simp]:
  "lk_recv (send_turn lk) = lk_recv lk" "lk_in (send_turn lk) = lk_in lk"
  "lk_delivered (send_turn lk) = lk_delivered lk"
  by (simp_all add: send_turn_def split_beta Let_def split: list.split)

lemma recv_turn_keeps [simp]:
  "lk_writer (recv_turn lk) = lk_writer lk" "lk_send_mac (recv_turn lk) = lk_send_mac lk"
  "lk_send_ks (recv_turn lk) = lk_send_ks lk" "lk_outbox (recv_turn lk) = lk_outbox lk"
  by (simp_all add: recv_turn_def split_beta split: recv_phase.split sum.split prod.split)

lemma recv_turn_open: "lk_open (recv_turn lk) \<longrightarrow> lk_open lk"
  by (simp add: recv_turn_def)

lemma link_down:
  "\<not> lk_open lk \<Longrightarrow> recv_turn lk = lk" "\<not> lk_open lk \<Longrightarrow> send_turn lk = lk"
  unfolding recv_turn_def send_turn_def by simp_all

lemma enqueue_keeps [simp]:
  "lk_recv (enqueue p lk) = lk_recv lk" "lk_in (enqueue p lk) = lk_in lk"
  "lk_delivered (enqueue p lk) = lk_delivered lk"
  by (simp_all add: enqueue_def)

lemma net_inv_step:
  assumes inv: "net_inv (\<lambda>s. posted s es) n" and fit: "\<forall>s. fit_u16 (posted s (es @ [e]))"
  shows "net_inv (\<lambda>s. posted s (es @ [e])) (net_step e n)"
  unfolding net_inv_def
proof
  fix s
  have d: "dir_inv (posted s es) (n s) (n (other s))" using inv by (simp add: net_inv_def)
  have fit_s: "fit_u16 (posted s es)" using fit by (auto simp: posted_append)
  show "dir_inv (posted s (es @ [e])) (net_step e n s) (net_step e n (other s))"
  proof (cases e)
    case (Post s' p)
    then show ?thesis
      using side_cases [of s' s] dir_inv_post [OF d, of p] d
      by (auto simp: posted_append intro: dir_inv_cong)
  next
    case (SendTurn s')
    then show ?thesis
      using side_cases [of s' s] dir_inv_send [OF d fit_s] d
      by (auto simp: posted_append intro: dir_inv_cong)
  next
    case (RecvTurn s')
    then show ?thesis
      using side_cases [of s' s] dir_inv_recv [OF d] d recv_turn_open
      by (auto simp: posted_append intro: dir_inv_cong)
  next
    case (Carry s' k)
    then show ?thesis
      using side_cases [of s' s] dir_inv_carry [OF d, of k] d
      by (auto simp: posted_append carry_def intro: dir_inv_cong)
  next
    case (Fail s')
    then show ?thesis
      using side_cases [of s' s] d
      by (auto simp: posted_append link_failure_def intro: dir_inv_cong)
  qed
qed

lemma net_inv_run:
  assumes "net_inv (\<lambda>s. []) n" and "\<forall>s. fit_u16 (posted s es)"
  shows "net_inv (\<lambda>s. posted s es) (net_run es n)"
  using assms(2)
proof (induction es rule: rev_induct)
  case Nil
  then show ?case using assms(1) by (simp add: net_run_def)
next
  case (snoc e es)
  then have "net_inv (\<lambda>s. posted s es) (net_run es n)" by (auto simp: posted_append)
  from net_inv_step [OF this snoc.prems] show ?case by (simp add: net_run_def)
qed

section \<open>Handshakes\<close>

lemma length_gen_iv [simp, len_simps]: "length (fst (gen_iv rng)) = 16"
  by (simp add: gen_iv_def split_beta)

lemma length_keyfinder [simp, len_simps]: "length (keyfinder key iv) = 16"
  by (simp add: keyfinder_def)

lemma send_hello_Inr:
  "send_hello key iv w = Inr w' \<Longrightarrow> wire w' = wire w @ iv @ keyfinder key iv"
  by (auto simp: send_hello_def write_all_def split: if_splits)

lemma send_hello_room:
  "length iv = 16 \<Longrightarrow> 32 \<le> room w \<Longrightarrow> \<exists>w'. send_hello key iv w = Inr w'"
  by (simp add: send_hello_def write_all_def)

lemma connect_impl_Inr:
  assumes "connect_impl sys sndr key w rng = (Inr (lk, msgs), rng')"
  obtains w' where "wire w' = wire w @ fst (gen_iv rng) @ keyfinder key (fst (gen_iv rng))"
    and "lk = open_link sndr key (fst (gen_iv rng)) w' (AwaitHello key) []"
    and "msgs = [AddSender sndr]" and "rng' = snd (gen_iv rng)"
  using assms
  by (auto simp: connect_impl_def handle_defs split_beta bind_result_Inr
      split: sum.splits dest: send_hello_Inr)

lemma handle_connection_Inr:
  assumes "handle_connection sys sndr keys stream w rng = (Inr (lk, msgs), rng')"
  obtains key iv rest w' where "find (\<lambda>k. keyfinder k iv = keyfinder key iv) keys = Some key"
    and "length iv = 16" and "stream = iv @ keyfinder key iv @ rest"
    and "wire w' = wire w @ fst (gen_iv rng) @ keyfinder key (fst (gen_iv rng))"
    and "lk = open_link sndr key (fst (gen_iv rng)) w'
      (Receiving (mac_key key iv) (KeystreamGen_new (enc_key key iv))) rest"
    and "msgs = [AddSender sndr]" and "rng' = snd (gen_iv rng)"
proof -
  from assms obtain key iv rest kf w'
    where "find (\<lambda>k. keyfinder k iv = kf) keys = Some key" and iv: "length iv = 16"
      and s: "stream = iv @ kf @ rest"
      and hello: "send_hello key (fst (gen_iv rng)) w = Inr w'"
      and "lk = open_link sndr key (fst (gen_iv rng)) w'
        (Receiving (mac_key key iv) (KeystreamGen_new (enc_key key iv))) rest"
      and "msgs = [AddSender sndr]" and "rng' = snd (gen_iv rng)"
    by (auto simp: handle_connection_def handle_defs split_beta bind_result_Inr read_exact_Inr
        split: sum.splits option.splits)
  moreover from this(1) have "kf = keyfinder key iv" by (simp add: find_Some_iff) blast
  ultimately show thesis using that send_hello_Inr [OF hello] by blast
qed

text \<open>The keyfinder tells the configured keys apart, for one initialisation vector.\<close>

definition no_collision :: "bytes list \<Rightarrow> bytes \<Rightarrow> bytes \<Rightarrow> bool" where
  "no_collision keys key iv \<longleftrightarrow> (\<forall>k \<in> set keys. keyfinder k iv = keyfinder key iv \<longrightarrow> k = key)"

lemma find_key:
  assumes "key \<in> set keys" and "no_collision keys key iv"
  shows "find (\<lambda>k. keyfinder k iv = keyfinder key iv) keys = Some key"
proof -
  obtain k where k: "find (\<lambda>k. keyfinder k iv = keyfinder key iv) keys = Some k"
    using assms(1) by (cases "find (\<lambda>k. keyfinder k iv = keyfinder key iv) keys")
      (auto simp: find_None_iff)
  then have "k \<in> set keys" "keyfinder k iv = keyfinder key iv" by (auto simp: find_Some_iff)
  then show ?thesis using k assms(2) by (simp add: no_collision_def)
qed

lemma connect_impl_succeeds:
  assumes "\<forall>c. sys c" and "32 \<le> room w"
  shows "\<exists>w'. wire w' = wire w @ fst (gen_iv rng) @ keyfinder key (fst (gen_iv rng)) \<and>
    connect_impl sys sndr key w rng =
      (Inr (open_link sndr key (fst (gen_iv rng)) w' (AwaitHello key) [], [AddSender sndr]),
       snd (gen_iv rng))"
proof -
  obtain w' where "send_hello key (fst (gen_iv rng)) w = Inr w'"
    using send_hello_room [OF length_gen_iv assms(2)] by blast
  then show ?thesis
    using assms(1) send_hello_Inr [of key "fst (gen_iv rng)" w w']
    by (intro exI [of _ w']) (auto simp: connect_impl_def run_setup_def split_beta handle_defs)
qed

lemma handle_connection_succeeds:
  assumes "\<forall>c. sys c" and "32 \<le> room w" and "length iv = 16"
    and "find (\<lambda>k. keyfinder k iv = keyfinder key iv) keys = Some key"
  shows "\<exists>w'. wire w' = wire w @ fst (gen_iv rng) @ keyfinder key (fst (gen_iv rng)) \<and>
    handle_connection sys sndr keys (iv @ keyfinder key iv @ rest) w rng =
      (Inr (open_link sndr key (fst (gen_iv rng)) w'
         (Receiving (mac_key key iv) (KeystreamGen_new (enc_key key iv))) rest, [AddSender sndr]),
       snd (gen_iv rng))"
proof -
  obtain w' where "send_hello key (fst (gen_iv rng)) w = Inr w'"
    using send_hello_room [OF length_gen_iv assms(2)] by blast
  then show ?thesis
    using assms(1,3,4) send_hello_Inr [of key "fst (gen_iv rng)" w w']
    by (intro exI [of _ w']) (auto simp: handle_connection_def run_setup_def split_beta handle_defs)
qed

lemma dir_inv_start:
  assumes "lk_send_mac src = mk" and "lk_send_ks src = g" and "lk_outbox src = []"
    and "lk_delivered dst = []"
    and "expects (lk_recv dst) (lk_in dst @ wire (lk_writer src)) mk g []"
  shows "dir_inv [] src dst"
  using assms unfolding dir_inv_def
  by (intro exI [of _ mk] exI [of _ g] exI [of _ "[]"]) simp

lemma establish_inv:
  assumes "establish sys1 sys2 key keys room1 room2 rng1 rng2 = Inr n"
    and "no_collision keys key (fst (gen_iv rng1))"
  shows "net_inv (\<lambda>s. []) n"
proof -
  let ?iv = "fst (gen_iv rng1)" and ?iv2 = "fst (gen_iv rng2)"
  from assms(1) obtain a m r b m2 r2
    where a: "connect_impl sys1 0 key \<lparr>wire = [], room = room1\<rparr> rng1 = (Inr (a, m), r)"
      and b: "handle_connection sys2 1 keys (wire (lk_writer a)) \<lparr>wire = [], room = room2\<rparr> rng2 =
        (Inr (b, m2), r2)"
      and n: "n Dialer = a\<lparr>lk_writer := lk_writer a\<lparr>wire := []\<rparr>\<rparr>" "n Acceptor = b"
    by (auto simp: establish_def bind_result_Inr split_beta prod_eq_iff)
  from connect_impl_Inr [OF a] obtain w1
    where w1: "wire w1 = ?iv @ keyfinder key ?iv" "a = open_link 0 key ?iv w1 (AwaitHello key) []"
    by auto
  obtain k iv rest w2
    where k: "find (\<lambda>k'. keyfinder k' iv = keyfinder k iv) keys = Some k" "length iv = 16"
      and s: "wire (lk_writer a) = iv @ keyfinder k iv @ rest"
      and w2: "wire w2 = wire \<lparr>wire = [], room = room2\<rparr> @ ?iv2 @ keyfinder k ?iv2"
        "b = open_link 1 k ?iv2 w2
          (Receiving (mac_key k iv) (KeystreamGen_new (enc_key k iv))) rest"
    by (rule handle_connection_Inr [OF b])
  have "?iv @ keyfinder key ?iv @ [] = iv @ keyfinder k iv @ rest" using s w1 by simp
  then have "iv = ?iv \<and> keyfinder key ?iv @ [] = keyfinder k iv @ rest"
    using k(2) length_gen_iv append_eq_append_conv [of ?iv iv] by auto
  then have iv: "iv = ?iv" "keyfinder k iv = keyfinder key ?iv" "rest = []"
    using append_eq_append_conv [of "keyfinder key ?iv" "keyfinder k iv" "[]" rest]
    by (simp_all del: append_Nil2)
  have "k \<in> set keys" using k(1) by (auto simp: find_Some_iff)
  then have "k = key" using assms(2) iv by (simp add: no_collision_def)
  then have "dir_inv [] (n s) (n (other s))" for s
    using n w1 w2 iv
    by (cases s) (simp_all add: open_link_def dir_inv_start)
  then show ?thesis by (simp add: net_inv_def)
qed

lemma establish_Inr:
  assumes "\<forall>c. sys1 c" and "\<forall>c. sys2 c" and "32 \<le> room1" and "32 \<le> room2"
    and "key \<in> set keys" and "no_collision keys key (fst (gen_iv rng1))"
    and iv1_def: "iv1 = fst (gen_iv rng1)" and iv2_def: "iv2 = fst (gen_iv rng2)"
  obtains w1 w2 where "wire w2 = iv2 @ keyfinder key iv2"
    and "establish sys1 sys2 key keys room1 room2 rng1 rng2 = Inr (\<lambda>s. case s of
      Dialer \<Rightarrow> open_link 0 key iv1 (w1\<lparr>wire := []\<rparr>) (AwaitHello key) []
    | Acceptor \<Rightarrow> open_link 1 key iv2 w2
        (Receiving (mac_key key iv1) (KeystreamGen_new (enc_key key iv1))) [])"
proof -
  obtain w1 where w1: "wire w1 = iv1 @ keyfinder key iv1"
    and a: "connect_impl sys1 0 key \<lparr>wire = [], room = room1\<rparr> rng1 =
      (Inr (open_link 0 key iv1 w1 (AwaitHello key) [], [AddSender 0]), snd (gen_iv rng1))"
    using connect_impl_succeeds [OF assms(1), of "\<lparr>wire = [], room = room1\<rparr>" rng1 key 0] assms(3)
    unfolding iv1_def by auto
  have found: "find (\<lambda>k. keyfinder k iv1 = keyfinder key iv1) keys = Some key"
    using find_key assms(5,6) unfolding iv1_def by blast
  obtain w2 where w2: "wire w2 = iv2 @ keyfinder key iv2"
    and b: "handle_connection sys2 1 keys (iv1 @ keyfinder key iv1 @ []) \<lparr>wire = [], room = room2\<rparr> rng2 =
      (Inr (open_link 1 key iv2 w2
        (Receiving (mac_key key iv1) (KeystreamGen_new (enc_key key iv1))) [], [AddSender 1]),
       snd (gen_iv rng2))"
    using handle_connection_succeeds
      [OF assms(2) _ _ found, of "\<lparr>wire = [], room = room2\<rparr>" rng2 1 "[]"] assms(4)
    unfolding iv1_def iv2_def by auto
  have "(open_link 0 key iv1 w1 (AwaitHello key) [])\<lparr>lk_writer := w1\<lparr>wire := []\<rparr>\<rparr> =
      open_link 0 key iv1 (w1\<lparr>wire := []\<rparr>) (AwaitHello key) []"
    by (simp add: open_link_def)
  then show thesis
    using b w1 that [OF w2, of w1] by (simp add: establish_def a del: One_nat_def)
qed

section \<open>Properties of connections\<close>

text \<open>
  C4. Exactly-once, in-order delivery between two nodes. Once a connection is established, and whatever
  happens to it (packets posted at both ends, the four tasks taking turns in any order, TCP delivering
  bytes in pieces of any size, either end failing at any moment, writes cut short), the packets
  delivered at one end are a prefix of the non-empty packets posted at the other, so none is lost in
  the middle, repeated, reordered, altered or made up; and no end ever drops the connection because of
  what the other sent.
\<close>

theorem session_delivery:
  assumes "establish sys1 sys2 key keys room1 room2 rng1 rng2 = Inr n"
    and "no_collision keys key (fst (gen_iv rng1))"
    and "\<forall>s. \<forall>p \<in> set (posted s events). length p \<le> 65535"
  shows "prefix (lk_delivered (net_run events n (other s))) (posted s events) \<and>
    lk_open (recv_turn (net_run events n s)) = lk_open (net_run events n s)"
proof -
  have inv: "net_inv (\<lambda>s. posted s events) (net_run events n)"
    using net_inv_run [OF establish_inv [OF assms(1,2)] assms(3)] .
  then have d: "dir_inv (posted s events) (net_run events n s) (net_run events n (other s))" for s
    unfolding net_inv_def by blast
  have "prefix (lk_delivered (net_run events n (other s))) (posted s events)"
    using d [of s] unfolding dir_inv_def by (auto dest: append_prefixD)
  moreover have "lk_open (recv_turn (net_run events n s)) = lk_open (net_run events n s)"
    using dir_inv_recv [OF d [of "other s"]] by simp
  ultimately show ?thesis by blast
qed

text \<open>
  C23. A node that dials a listener with one of the listener's keys gets a connection: when the
  set-up calls succeed and both sockets take the 32 bytes of a greeting, both ends are open, and what
  either end encrypts with is what the other will decrypt with.
\<close>

theorem establish_succeeds:
  assumes "\<forall>c. sys1 c" and "\<forall>c. sys2 c" and "32 \<le> room1" and "32 \<le> room2"
    and "key \<in> set keys" and "no_collision keys key (fst (gen_iv rng1))"
  shows "\<exists>n. establish sys1 sys2 key keys room1 room2 rng1 rng2 = Inr n \<and>
    (\<forall>s. lk_open (n s) \<and>
      expects (lk_recv (n (other s))) (lk_in (n (other s)) @ wire (lk_writer (n s)))
        (lk_send_mac (n s)) (lk_send_ks (n s)) [])"
proof -
  obtain w1 w2 where "wire w2 = fst (gen_iv rng2) @ keyfinder key (fst (gen_iv rng2))"
    and "establish sys1 sys2 key keys room1 room2 rng1 rng2 = Inr (\<lambda>s. case s of
      Dialer \<Rightarrow> open_link 0 key (fst (gen_iv rng1)) (w1\<lparr>wire := []\<rparr>) (AwaitHello key) []
    | Acceptor \<Rightarrow> open_link 1 key (fst (gen_iv rng2)) w2 (Receiving (mac_key key (fst (gen_iv rng1)))
        (KeystreamGen_new (enc_key key (fst (gen_iv rng1))))) [])"
    by (rule establish_Inr [OF assms refl refl])
  then show ?thesis by (auto simp: open_link_def all_sides)
qed

theorem establish_succeeds_witness:
  "\<exists>n. establish (\<lambda>c. True) (\<lambda>c. True) [1, 2] [[1, 2]] 32 32 Rng_new Rng_new = Inr n"
  using establish_succeeds [of "\<lambda>c. True" "\<lambda>c. True" 32 32 "[1, 2]" "[[1, 2]]" Rng_new Rng_new]
  by (auto simp: no_collision_def)

theorem session_delivery_witness:
  "\<exists>n. establish (\<lambda>c. True) (\<lambda>c. True) [1, 2] [[1, 2]] 64 64 Rng_new Rng_new = Inr n \<and>
    prefix (lk_delivered (net_run [Post Dialer [5], SendTurn Dialer, Carry Dialer 19, RecvTurn Acceptor]
      n Acceptor)) [[5]]"
proof -
  have k: "no_collision [[1, 2]] [1, 2] (fst (gen_iv Rng_new))" by (simp add: no_collision_def)
  obtain n where n: "establish (\<lambda>c. True) (\<lambda>c. True) [1, 2] [[1, 2]] 64 64 Rng_new Rng_new = Inr n"
    using establish_Inr [OF _ _ _ _ _ k refl refl, of "\<lambda>c. True" "\<lambda>c. True" 64 64] by auto
  show ?thesis
    using session_delivery [OF n k,
        of "[Post Dialer [5], SendTurn Dialer, Carry Dialer 19, RecvTurn Acceptor]" Dialer] n
    by (simp add: all_sides)
qed

text \<open>
  C11. Only a peer that knows a configured key gets a link. Whatever bytes a stranger sends,
  \<^verbatim>\<open>handle_connection\<close> registers a sender only if the bytes begin with an initialisation vector and the
  keyfinder of one of the listener's keys for it; the link then decrypts with keys derived from that
  key. In every other case it posts nothing, draws nothing from the random generator and ends in an
  error.
\<close>

theorem handle_connection_authenticates:
  "case handle_connection sys sndr keys stream w rng of
     (Inr (lk, msgs), rng') \<Rightarrow>
       (\<exists>key \<in> set keys. \<exists>iv rest. length iv = 16 \<and> stream = iv @ keyfinder key iv @ rest \<and>
         lk_recv lk = Receiving (mac_key key iv) (KeystreamGen_new (enc_key key iv)) \<and>
         lk_in lk = rest \<and> msgs = [AddSender sndr])
   | (Inl e, rng') \<Rightarrow> e = WriteFailed \<or> rng' = rng \<and> e \<in> {SetupFailed, ReadFailed, IncorrectKeyfinder}"
proof (cases "handle_connection sys sndr keys stream w rng")
  case (Pair res rng')
  show ?thesis
  proof (cases res)
    case (Inl e)
    then show ?thesis
      using Pair
      by (auto simp: handle_connection_def run_setup_def read_exact_def send_hello_def write_all_def
          bind_result_def split_beta split: if_splits sum.splits option.splits)
  next
    case (Inr x)
    then obtain lk msgs where x: "res = Inr (lk, msgs)" by (cases x) auto
    obtain key iv rest where "find (\<lambda>k. keyfinder k iv = keyfinder key iv) keys = Some key"
      and "length iv = 16" and "stream = iv @ keyfinder key iv @ rest"
      and "lk_recv lk = Receiving (mac_key key iv) (KeystreamGen_new (enc_key key iv))"
      and "lk_in lk = rest" and "msgs = [AddSender sndr]"
      by (rule handle_connection_Inr [OF Pair [unfolded x]]) (simp add: open_link_def)
    moreover from this(1) have "key \<in> set keys" by (auto simp: find_Some_iff)
    ultimately show ?thesis unfolding Pair x by auto
  qed
qed

text \<open>
  C24. A dialer registers its link only after its greeting was written, and then drops it without
  delivering anything unless the peer answers with the right keyfinder: a receiving turn on a greeting
  made with another key closes the link.
\<close>

theorem wrong_peer_dropped:
  assumes "connect_impl sys sndr key w rng = (Inr (lk, msgs), rng')"
    and "32 \<le> length stream"
    and "take 16 (drop 16 stream) \<noteq> keyfinder key (take 16 stream)"
  shows "wire (lk_writer lk) = wire w @ fst (gen_iv rng) @ keyfinder key (fst (gen_iv rng)) \<and>
    msgs = [AddSender sndr] \<and>
    (let lk' = recv_turn (lk\<lparr>lk_in := stream\<rparr>)
     in \<not> lk_open lk' \<and> lk_delivered lk' = [] \<and> recv_turn lk' = lk' \<and> send_turn lk' = lk')"
proof -
  obtain w' where w': "wire w' = wire w @ fst (gen_iv rng) @ keyfinder key (fst (gen_iv rng))"
    and lk: "lk = open_link sndr key (fst (gen_iv rng)) w' (AwaitHello key) []"
    and msgs: "msgs = [AddSender sndr]"
    by (rule connect_impl_Inr [OF assms(1)])
  have "recv_hello key stream = Inl IncorrectKeyfinder"
    using assms(2,3) by (auto simp: recv_hello_def read_exact_def)
  then have "recv_turn (lk\<lparr>lk_in := stream\<rparr>) = lk\<lparr>lk_in := stream, lk_open := False\<rparr>"
    by (simp add: lk open_link_def recv_turn_def)
  moreover have "lk_writer lk = w'" and "lk_delivered lk = []"
    by (simp_all add: lk open_link_def)
  ultimately show ?thesis using w' msgs by (simp add: Let_def link_down)
qed

theorem wrong_peer_dropped_witness:
  "\<exists>lk msgs rng' k. connect_impl (\<lambda>c. True) 3 [1] \<lparr>wire = [], room = 32\<rparr> Rng_new = (Inr (lk, msgs), rng') \<and>
    \<not> lk_open (recv_turn (lk\<lparr>lk_in := replicate 16 0 @ k\<rparr>))"
proof -
  obtain w' where c: "connect_impl (\<lambda>c. True) 3 [1] \<lparr>wire = [], room = 32\<rparr> Rng_new =
      (Inr (open_link 3 [1] (fst (gen_iv Rng_new)) w' (AwaitHello [1]) [], [AddSender 3]),
       snd (gen_iv Rng_new))"
    using connect_impl_succeeds [of "\<lambda>c. True" "\<lparr>wire = [], room = 32\<rparr>" Rng_new "[1]" 3] by auto
  obtain k :: bytes where k: "length k = 16" "k \<noteq> keyfinder [1] (replicate 16 0)"
  proof -
    have "length (replicate 16 (0 :: u8)) = 16" "length (replicate 16 (1 :: u8)) = 16"
      "replicate 16 (0 :: u8) \<noteq> replicate 16 1"
      by simp_all
    then show thesis using that by metis
  qed
  then have "\<not> lk_open (recv_turn ((open_link 3 [1] (fst (gen_iv Rng_new)) w' (AwaitHello [1]) [])
      \<lparr>lk_in := replicate 16 0 @ k\<rparr>))"
    using wrong_peer_dropped [OF c, of "replicate 16 0 @ k"] by (simp add: Let_def)
  then show ?thesis using c by blast
qed

section \<open>The accept loop\<close>

datatype listen_call = ListenSocket | ListenNonblock | ReuseAddr | Bind | Listen

text \<open>What one pass of the loop meets; an accepted descriptor comes with whether it can be made
  non-blocking.\<close>

datatype accept_event = WaitFailed | AcceptFailed | Accepted nat bool

text \<open>The connections handed to \<^verbatim>\<open>handle_connection\<close>, and the error if the loop was left.\<close>

fun accept_loop :: "accept_event list \<Rightarrow> nat list \<times> link_error option" where
  "accept_loop [] = ([], None)"
| "accept_loop (WaitFailed # es) = accept_loop es"
| "accept_loop (AcceptFailed # es) = accept_loop es"
| "accept_loop (Accepted fd nonblock # es) =
    (if nonblock then let (fds, res) = accept_loop es in (fd # fds, res) else ([], Some SetupFailed))"

definition listener_impl ::
  "(listen_call \<Rightarrow> bool) \<Rightarrow> accept_event list \<Rightarrow> nat list \<times> link_error option"
where
  "listener_impl sys es =
    (if list_all sys [ListenSocket, ListenNonblock, ReuseAddr, Bind, Listen] then accept_loop es
     else ([], Some SetupFailed))"

fun accepted_fd :: "accept_event \<Rightarrow> nat option" where
  "accepted_fd (Accepted fd _) = Some fd"
| "accepted_fd _ = None"

text \<open>
  The accept loop serves every connection: failing waits and failing accepts do not stop it, and
  each accepted connection gets one handler, in the order of arrival, until a descriptor cannot be
  made non-blocking.
\<close>

theorem listener_serves_all:
  assumes "\<forall>c. sys c" and "\<forall>fd. Accepted fd False \<notin> set es"
  shows "listener_impl sys (es @ fs) =
    (List.map_filter accepted_fd es @ fst (accept_loop fs), snd (accept_loop fs))"
proof -
  have "accept_loop (es @ fs) =
      (List.map_filter accepted_fd es @ fst (accept_loop fs), snd (accept_loop fs))"
    using assms(2)
  proof (induction es)
    case Nil
    then show ?case by (simp add: List.map_filter_simps)
  next
    case (Cons e es)
    then show ?case
      by (cases e) (auto simp: List.map_filter_simps split_beta)
  qed
  then show ?thesis using assms(1) by (simp add: listener_impl_def)
qed

theorem listener_serves_all_witness:
  "listener_impl (\<lambda>c. True) [Accepted 4 True, AcceptFailed, WaitFailed, Accepted 5 True, Accepted 6 False,
    Accepted 7 True] = ([4, 5], Some SetupFailed)"
  using listener_serves_all [of "\<lambda>c. True"
      "[Accepted 4 True, AcceptFailed, WaitFailed, Accepted 5 True]" "[Accepted 6 False, Accepted 7 True]"]
  by (simp add: List.map_filter_simps)

end
