(* ===== verification/Node_Setup.thy ===== *)
theory Node_Setup
  imports Link_Session Tuntap Ip_Addr_Example
begin

text \<open>
  Starting a node, the first half of \<^verbatim>\<open>run_meshnode\<close> in \<^verbatim>\<open>rust/src/main.rs\<close>, and the command line of
  \<^verbatim>\<open>async_main\<close>. The configuration is what the accessors of the \<^verbatim>\<open>json\<close> crate return for the parts the
  code looks at, so a missing or ill-typed value is \<open>None\<close> and unwrapping it panics. Starting yields the
  tasks and commands in the order in which they are started, and the state of the packet loop.
\<close>

section \<open>IPv4 addresses in the configuration\<close>

text \<open>\<^verbatim>\<open>str::split\<close> at a character.\<close>

fun split_on :: "char \<Rightarrow> string \<Rightarrow> string list" where
  "split_on c [] = [[]]"
| "split_on c (x # xs) =
    (if x = c then [] # split_on c xs
     else case split_on c xs of [] \<Rightarrow> [[x]] | y # ys \<Rightarrow> (x # y) # ys)"

definition digit_value :: "char \<Rightarrow> nat option" where
  "digit_value c = (let n = of_char c in if 48 \<le> n \<and> n \<le> 57 then Some (n - 48) else None)"

text \<open>\<^verbatim>\<open>str::parse::<u8>\<close>: an optional plus sign, then decimal digits of a number below 256.\<close>

fun parse_digits :: "nat \<Rightarrow> string \<Rightarrow> nat option" where
  "parse_digits acc [] = Some acc"
| "parse_digits acc (c # cs) =
    (case digit_value c of
       None \<Rightarrow> None
     | Some d \<Rightarrow> if acc * 10 + d < 256 then parse_digits (acc * 10 + d) cs else None)"

definition parse_u8 :: "string \<Rightarrow> u8 option" where
  "parse_u8 s =
    (let digits = (case s of [] \<Rightarrow> [] | c # cs \<Rightarrow> if c = CHR ''+'' then cs else s)
     in if digits = [] then None else map_option of_nat (parse_digits 0 digits))"

definition parse_octets :: "string \<Rightarrow> bytes exec" where
  "parse_octets addr = traverse (\<lambda>x. unwrap (parse_u8 x)) (split_on CHR ''.'' addr)"

definition octets_to_addr :: "bytes \<Rightarrow> IpAddr exec" where
  "octets_to_addr addr =
    (if length addr < 4 then Panic IndexOutOfBounds
     else Done (V4 (addr ! 0) (addr ! 1) (addr ! 2) (addr ! 3)))"

section \<open>The configuration\<close>

record transport =
  t_type :: "string option"
  t_host :: "string option"
  t_port :: "u64 option"
  t_key :: "string option"
  t_keys :: "string option list"

record config =
  cfg_node_name :: "string option"
  cfg_ipv4_addresses :: "string option list"
  cfg_transports :: "transport list"
  cfg_linux_tuntap :: "bool option"

datatype startup =
    Spawn_Cleaner
  | Spawn_Name_Announcer bytes
  | Spawn_Ipv4_Announcer bytes
  | Create_Connection string u16 bytes
  | Start_Listener u16 "bytes list"
  | Bring_Interface_Up
  | Run_Command string
  | Run_Tun
  | Run_Route_Creator

definition setup_ipv4 :: "string option \<Rightarrow> (IpAddr \<times> startup) exec" where
  "setup_ipv4 addr =
    exec_bind (unwrap addr) (\<lambda>addr.
    exec_bind (parse_octets addr) (\<lambda>octets.
    exec_bind (octets_to_addr octets) (\<lambda>ip. Done (ip, Spawn_Ipv4_Announcer octets))))"

definition setup_connect :: "transport \<Rightarrow> startup list exec" where
  "setup_connect transport =
    exec_bind (unwrap (t_type transport)) (\<lambda>type.
    if type \<noteq> ''legacy_tcp_connect'' then Done []
    else
      exec_bind (unwrap (t_host transport)) (\<lambda>host.
      exec_bind (unwrap (t_port transport)) (\<lambda>port.
      exec_bind (unwrap (t_key transport)) (\<lambda>key.
      Done [Create_Connection host (ucast port) (bstr key)]))))"

definition setup_listen :: "transport \<Rightarrow> startup list exec" where
  "setup_listen transport =
    exec_bind (unwrap (t_type transport)) (\<lambda>type.
    if type \<noteq> ''legacy_tcp_listen'' then Done []
    else
      exec_bind (unwrap (t_port transport)) (\<lambda>port.
      exec_bind (traverse unwrap (t_keys transport)) (\<lambda>keys.
      Done [Start_Listener (ucast port) (map bstr keys)])))"

definition setup_tun :: "config \<Rightarrow> IpAddr \<Rightarrow> startup list exec" where
  "setup_tun cfg node_ip =
    (if cfg_linux_tuntap cfg = Some True then
       exec_bind (traverse (\<lambda>addr. exec_bind (unwrap addr) (\<lambda>addr.
           exec_bind (parse_octets addr) (\<lambda>octets. exec_bind (octets_to_addr octets) (\<lambda>ip.
           Done (Run_Command (linux_set_ipv4 ip)))))) (cfg_ipv4_addresses cfg)) (\<lambda>cmds.
       Done ([Bring_Interface_Up, Run_Command (linux_set_ip6 node_ip 128)] @ cmds @ [Run_Tun, Run_Route_Creator]))
     else Done [])"

definition start_node :: "config \<Rightarrow> (startup list \<times> MeshNode) exec" where
  "start_node cfg =
    exec_bind (unwrap (cfg_node_name cfg)) (\<lambda>node_name.
    exec_bind (case from_node_name (bstr node_name) of None \<Rightarrow> Diverges | Some ip \<Rightarrow> Done ip) (\<lambda>node_ip.
    exec_bind (traverse setup_ipv4 (cfg_ipv4_addresses cfg)) (\<lambda>ipv4s.
    exec_bind (traverse setup_connect (cfg_transports cfg)) (\<lambda>connects.
    exec_bind (traverse setup_listen (cfg_transports cfg)) (\<lambda>listens.
    exec_bind (setup_tun cfg node_ip) (\<lambda>tun.
    let has_tun = (if cfg_linux_tuntap cfg = Some True then Some True else None)
    in Done ([Spawn_Cleaner, Spawn_Name_Announcer (bstr node_name)] @ map snd ipv4s @ concat connects @
          concat listens @ tun,
        \<lparr>our_ips = insert node_ip (set (map fst ipv4s)), seen_packets = SeenPackets_new 16384,
         tun_sender = has_tun, route_adder = has_tun\<rparr>)))))))"

text \<open>
  On macOS the TUN section of the start is another one: it looks at \<^verbatim>\<open>macos_tuntap\<close>, and the name of the interface
  is the one the system granted.
\<close>

definition setup_mac_tun :: "bool option \<Rightarrow> string \<Rightarrow> IpAddr \<Rightarrow> startup list" where
  "setup_mac_tun macos_tuntap ifname node_ip =
    (if macos_tuntap = Some True then [Run_Command (mac_set_ip6 ifname node_ip 128), Run_Tun, Run_Route_Creator]
     else [])"

definition start_mac_node :: "config \<Rightarrow> bool option \<Rightarrow> string \<Rightarrow> (startup list \<times> MeshNode) exec" where
  "start_mac_node cfg macos_tuntap ifname =
    exec_bind (start_node (cfg\<lparr>cfg_linux_tuntap := None\<rparr>)) (\<lambda>(tasks, node).
    exec_bind (unwrap (cfg_node_name cfg)) (\<lambda>node_name.
    exec_bind (case from_node_name (bstr node_name) of None \<Rightarrow> Diverges | Some ip \<Rightarrow> Done ip) (\<lambda>node_ip.
    let has_tun = (if macos_tuntap = Some True then Some True else None)
    in Done (tasks @ setup_mac_tun macos_tuntap ifname node_ip,
         node\<lparr>tun_sender := has_tun, route_adder := has_tun\<rparr>))))"

section \<open>The command line\<close>

definition run_name_to_ipv6 :: "string list \<Rightarrow> string exec" where
  "run_name_to_ipv6 args =
    (case args of
       [] \<Rightarrow> Panic UnwrapFailed
     | node_name # _ \<Rightarrow>
         (case from_node_name (bstr node_name) of None \<Rightarrow> Diverges | Some ip \<Rightarrow> Done (fmt_addr ip)))"

datatype cli = Print "string list" | Meshnode "string list"

definition help_text :: "string \<Rightarrow> string list" where
  "help_text executable =
    [''smolmesh2 - peer-to-peer mesh VPN'', '''',
     executable @ '' help'', executable @ '' --help'', ''    This help message'', '''',
     executable @ '' meshnode [config-file]'',
     ''    Runs the mesh node with the specified configuration file'', '''',
     executable @ '' name-to-ipv6 [node-name]'',
     ''    Converts a node name to its corresponding IPv6 address'', '''',
     executable @ '' make-random-ipv4'', ''    Generates a random IPv4 address'', '''',
     executable @ '' make-random-ipv6'', ''    Generates a random IPv6 address'']"

definition async_main :: "string list \<Rightarrow> Rng \<Rightarrow> cli exec \<times> Rng" where
  "async_main args rng =
    (case args of
       [] \<Rightarrow> (Panic UnwrapFailed, rng)
     | executable # args \<Rightarrow>
         (let args = (if args = [] then [''help''] else args);
              cmd = hd args;
              args = tl args
          in if cmd = ''help'' \<or> cmd = ''--help'' then (Done (Print (help_text executable)), rng)
             else if cmd = ''meshnode'' then (Done (Meshnode args), rng)
             else if cmd = ''name-to-ipv6'' then
               (exec_bind (run_name_to_ipv6 args) (\<lambda>line. Done (Print [line])), rng)
             else if cmd = ''make-random-ipv4'' then
               (let (addr, rng) = make_random_ipv4 rng in (Done (Print [fmt_addr addr]), rng))
             else if cmd = ''make-random-ipv6'' then
               (let (addr, rng) = make_random_ipv6 rng in (Done (Print [fmt_addr addr]), rng))
             else (Done (Print [''Unknown command '' @ [CHR 0x27] @ cmd @ [CHR 0x27]]), rng)))"

section \<open>Reading what is printed\<close>

lemma split_on_free: "c \<notin> set xs \<Longrightarrow> split_on c xs = [xs]"
  by (induction xs) auto

lemma split_on_sep: "c \<notin> set xs \<Longrightarrow> split_on c (xs @ c # ys) = xs # split_on c ys"
  by (induction xs) auto

lemma parse_digits_append:
  "parse_digits acc (xs @ ys) = Option.bind (parse_digits acc xs) (\<lambda>n. parse_digits n ys)"
  by (induction acc xs rule: parse_digits.induct) (auto split: option.split)

lemma digit_value_digit_char:
  assumes "d < 10"
  shows "digit_value (digit_char d) = Some d"
proof -
  have "d \<in> {0, 1, 2, 3, 4, 5, 6, 7, 8, 9}" using assms by auto
  then show ?thesis by (auto simp: digit_value_def digit_char_def)
qed

lemma parse_digits_dec: "n < 256 \<Longrightarrow> parse_digits 0 (dec_digits n) = Some n"
proof (induction n rule: dec_digits.induct)
  case (1 n)
  then show ?case
    by (subst dec_digits.simps) (simp add: parse_digits_append digit_value_digit_char)
qed

lemma dec_digits_start: "\<exists>c cs. dec_digits n = c # cs \<and> c \<noteq> CHR ''+''"
proof (induction n rule: dec_digits.induct)
  case (1 n)
  have "digit_char d \<noteq> CHR ''+''" if "d < 10" for d
    using digit_value_digit_char [OF that] by (auto simp: digit_value_def)
  then show ?case using 1 by (subst dec_digits.simps) auto
qed

lemma parse_u8_fmt_dec: "parse_u8 (fmt_dec b) = Some b"
proof -
  obtain c cs where "dec_digits (unat b) = c # cs" "c \<noteq> CHR ''+''" using dec_digits_start by blast
  moreover have "parse_digits 0 (dec_digits (unat b)) = Some (unat b)"
    by (rule parse_digits_dec) simp
  ultimately show ?thesis by (simp add: parse_u8_def fmt_dec_def)
qed

section \<open>Properties\<close>

text \<open>
  C31. The configuration understands the addresses the program prints: splitting and parsing the text of
  an IPv4 address gives back its four octets, and the address built from them is the one printed.
\<close>

theorem ipv4_parse_print:
  "parse_octets (fmt_addr (V4 a b c d)) = Done [a, b, c, d] \<and>
   setup_ipv4 (Some (fmt_addr (V4 a b c d))) = Done (V4 a b c d, Spawn_Ipv4_Announcer [a, b, c, d])"
proof -
  have "parse_octets (fmt_addr (V4 a b c d)) = Done [a, b, c, d]"
    by (simp add: parse_octets_def split_on_sep split_on_free fmt_dec_no_dot parse_u8_fmt_dec)
  then show ?thesis by (simp add: setup_ipv4_def octets_to_addr_def)
qed

text \<open>
  C32. An address with more than four octets in the configuration is not refused: the node takes the first
  four as its own, but floods all of them, and every node drops that announcement, so the address is
  claimed and never reachable.
\<close>

theorem extra_octets_never_learned:
  assumes "parse_octets addr = Done octets" and "4 < length octets"
  shows "setup_ipv4 (Some addr) =
      Done (V4 (octets ! 0) (octets ! 1) (octets ! 2) (octets ! 3), Spawn_Ipv4_Announcer octets) \<and>
    fst (handle_packet fx current (ipv4_announcement millis octets) sndr node) = []"
proof -
  have "ipv4_announcement millis octets ! 8 = 2" "drop 9 (ipv4_announcement millis octets) = octets"
    using nth_append_length [of "to_le_bytes 8 millis" 2 octets] by (simp_all add: ipv4_announcement_def)
  then show ?thesis
    using assms
    by (simp add: setup_ipv4_def octets_to_addr_def handle_packet_eq dispatch_def on_address_def)
qed

theorem extra_octets_never_learned_witness:
  "setup_ipv4 (Some ''1.2.3.4.5'') = Done (V4 1 2 3 4, Spawn_Ipv4_Announcer [1, 2, 3, 4, 5]) \<and>
   fst (handle_packet (\<lambda>_. 0) 0 (ipv4_announcement 0 [1, 2, 3, 4, 5]) 7 sample_node) = []"
proof -
  have "parse_octets ''1.2.3.4.5'' = Done [1, 2, 3, 4, 5]"
    by (simp add: parse_octets_def parse_u8_def digit_value_def)
  from extra_octets_never_learned [OF this, of "\<lambda>_. 0" 0 0 7 sample_node] show ?thesis by simp
qed

section \<open>A started node\<close>

lemma setup_ipv4_Done:
  "setup_ipv4 addr = Done (ip, act) \<Longrightarrow>
   \<exists>octets. act = Spawn_Ipv4_Announcer octets \<and> ip = V4 (octets ! 0) (octets ! 1) (octets ! 2) (octets ! 3)"
  by (auto simp: setup_ipv4_def octets_to_addr_def exec_bind_Done split: if_splits)

lemma setup_transport_no_announcer:
  "setup_connect t = Done acts \<Longrightarrow> Spawn_Ipv4_Announcer octets \<notin> set acts"
  "setup_listen t = Done acts \<Longrightarrow> Spawn_Ipv4_Announcer octets \<notin> set acts"
  by (auto simp: setup_connect_def setup_listen_def exec_bind_Done split: if_splits)

lemma setup_tun_no_announcer: "setup_tun cfg ip = Done acts \<Longrightarrow> Spawn_Ipv4_Announcer octets \<notin> set acts"
  by (auto simp: setup_tun_def exec_bind_Done split: if_splits dest!: traverse_image)

text \<open>
  C30. A started node owns what it announces: its name's address and every IPv4 address it floods are among
  the addresses for which it takes packets off the mesh; its duplicate filter is empty with room for 16384
  packets, and the channels to the device are served, so it is in a state in which no peer can stop it
  except as stated above.
\<close>

theorem start_node_owns_announced:
  assumes "start_node cfg = Done (acts, node)"
  shows "(\<exists>name ip. cfg_node_name cfg = Some name \<and> from_node_name (bstr name) = Some ip \<and>
      ip \<in> our_ips node \<and> Spawn_Name_Announcer (bstr name) \<in> set acts) \<and>
    (\<forall>octets. Spawn_Ipv4_Announcer octets \<in> set acts \<longrightarrow>
      V4 (octets ! 0) (octets ! 1) (octets ! 2) (octets ! 3) \<in> our_ips node) \<and>
    seen_packets node = SeenPackets_new 16384 \<and>
    tun_sender node \<noteq> Some False \<and> route_adder node \<noteq> Some False"
proof -
  from assms obtain name ip ipv4s connects listens tun
    where name: "cfg_node_name cfg = Some name" "from_node_name (bstr name) = Some ip"
      and ipv4s: "traverse setup_ipv4 (cfg_ipv4_addresses cfg) = Done ipv4s"
      and connects: "traverse setup_connect (cfg_transports cfg) = Done connects"
      and listens: "traverse setup_listen (cfg_transports cfg) = Done listens"
      and tun: "setup_tun cfg ip = Done tun"
      and acts: "acts = [Spawn_Cleaner, Spawn_Name_Announcer (bstr name)] @ map snd ipv4s @
        concat connects @ concat listens @ tun"
      and ips: "our_ips node = insert ip (set (map fst ipv4s))"
      and rest: "seen_packets node = SeenPackets_new 16384" "tun_sender node \<noteq> Some False"
        "route_adder node \<noteq> Some False"
    by (auto simp: start_node_def exec_bind_Done unwrap_Done Let_def split: option.splits if_splits)
  have "V4 (octets ! 0) (octets ! 1) (octets ! 2) (octets ! 3) \<in> our_ips node"
    if "Spawn_Ipv4_Announcer octets \<in> set acts" for octets
  proof -
    have "Spawn_Ipv4_Announcer octets \<notin> set (concat connects)"
      using traverse_image [OF connects] setup_transport_no_announcer(1) by auto
    moreover have "Spawn_Ipv4_Announcer octets \<notin> set (concat listens)"
      using traverse_image [OF listens] setup_transport_no_announcer(2) by auto
    ultimately have "Spawn_Ipv4_Announcer octets \<in> snd ` set ipv4s"
      using that acts setup_tun_no_announcer [OF tun] by auto
    then obtain ip' where ip': "(ip', Spawn_Ipv4_Announcer octets) \<in> set ipv4s" by force
    then obtain addr where "setup_ipv4 addr = Done (ip', Spawn_Ipv4_Announcer octets)"
      using traverse_image [OF ipv4s] by blast
    then have "ip' = V4 (octets ! 0) (octets ! 1) (octets ! 2) (octets ! 3)"
      using setup_ipv4_Done by blast
    then show ?thesis using ip' ips by force
  qed
  then show ?thesis using name acts ips rest by auto
qed

theorem start_node_owns_announced_witness:
  "\<exists>acts node. start_node \<lparr>cfg_node_name = Some ''r12'', cfg_ipv4_addresses = [Some ''10.0.0.1''],
       cfg_transports = [], cfg_linux_tuntap = Some True\<rparr> = Done (acts, node) \<and>
     Spawn_Ipv4_Announcer [10, 0, 0, 1] \<in> set acts \<and> V4 10 0 0 1 \<in> our_ips node"
proof -
  have name: "bstr ''r12'' = [0x72, 0x31, 0x32]" by (simp add: bstr_def)
  have octets: "parse_octets ''10.0.0.1'' = Done [10, 0, 0, 1]"
    by (simp add: parse_octets_def parse_u8_def digit_value_def)
  obtain acts node where start: "start_node \<lparr>cfg_node_name = Some ''r12'',
      cfg_ipv4_addresses = [Some ''10.0.0.1''], cfg_transports = [], cfg_linux_tuntap = Some True\<rparr> =
      Done (acts, node)" and act: "Spawn_Ipv4_Announcer [10, 0, 0, 1] \<in> set acts"
    by (simp add: start_node_def name from_node_name_r12 setup_ipv4_def octets setup_tun_def
        octets_to_addr_def Let_def)
  then show ?thesis using start_node_owns_announced [OF start] by fastforce
qed

text \<open>
  On macOS the only command the start runs is the one that gives the interface the IPv6 address of the node, as the
  manual says; the node's IPv4 addresses are announced all the same. Without the interface nothing is run, and
  the node only relays.
\<close>

theorem mac_start_as_documented:
  assumes "start_mac_node cfg macos_tuntap ifname = Done (acts, node)"
  shows "\<exists>name ip tasks base. cfg_node_name cfg = Some name \<and> from_node_name (bstr name) = Some ip \<and>
    start_node (cfg\<lparr>cfg_linux_tuntap := None\<rparr>) = Done (tasks, base) \<and> our_ips node = our_ips base \<and>
    (if macos_tuntap = Some True
     then acts = tasks @ [Run_Command (mac_set_ip6 ifname ip 128), Run_Tun, Run_Route_Creator] \<and>
       tun_sender node = Some True
     else acts = tasks \<and> tun_sender node = None)"
  using assms
  by (auto simp: start_mac_node_def setup_mac_tun_def exec_bind_Done unwrap_Done Let_def split: option.splits if_splits)

end
