(* ===== verification/Rng_Seed.thy ===== *)
theory Rng_Seed
  imports Rng
begin

text \<open>
  Seeding the generator, \<^verbatim>\<open>init_rng\<close> and \<^verbatim>\<open>read_from_urandom\<close> of \<^verbatim>\<open>rust/src/rng.rs\<close>. Everything is written through
  \<^verbatim>\<open>writeln!\<close>, which hands a text to the writer in pieces, and the generator absorbs piece by piece, so the
  cut matters. How the \<^verbatim>\<open>Debug\<close> implementations of the standard library cut the text of a value is not in
  the repository: what is read from the environment appears as the list of the pieces of its text.
\<close>

type_synonym fragments = "bytes list"

definition newline :: bytes where
  "newline = [10]"

text \<open>\<^verbatim>\<open>write_all\<close>, which does not call \<^verbatim>\<open>write\<close> for nothing, and \<^verbatim>\<open>write_fmt\<close>.\<close>

definition rng_write_all :: "bytes \<Rightarrow> Rng \<Rightarrow> Rng" where
  "rng_write_all buf r = (if buf = [] then r else snd (Rng_write buf r))"

definition write_fmt :: "fragments \<Rightarrow> Rng \<Rightarrow> Rng" where
  "write_fmt fs r = fold rng_write_all fs r"

text \<open>\<^verbatim>\<open>writeln!(rng, "{:?}", x)\<close>\<close>

definition writeln_debug :: "fragments \<Rightarrow> Rng \<Rightarrow> Rng" where
  "writeln_debug fs = write_fmt (fs @ [newline])"

text \<open>\<^verbatim>\<open>writeln!(rng, "text")\<close> and \<^verbatim>\<open>writeln!(rng, "text{:?}", x)\<close>\<close>

definition writeln_text :: "string \<Rightarrow> Rng \<Rightarrow> Rng" where
  "writeln_text s = write_fmt [bstr s @ newline]"

definition writeln_labelled :: "string \<Rightarrow> fragments \<Rightarrow> Rng \<Rightarrow> Rng" where
  "writeln_labelled s fs = write_fmt (bstr s # fs @ [newline])"

text \<open>What opening and reading \<^verbatim>\<open>/dev/urandom\<close> gives: an error, an error after it was opened, or 64 bytes.\<close>

datatype urandom = Open_Error fragments | Read_Error fragments | Random_Bytes fragments

definition read_from_urandom :: "urandom \<Rightarrow> Rng \<Rightarrow> Rng" where
  "read_from_urandom u r =
    (case u of
       Random_Bytes buf \<Rightarrow> writeln_labelled ''urandom buffer: '' buf (writeln_text ''Opened!'' r)
     | Read_Error e \<Rightarrow>
         writeln_labelled ''Failed to read from /dev/urandom: '' e (writeln_text ''Opened!'' r)
     | Open_Error e \<Rightarrow> writeln_labelled ''Failed to open /dev/urandom: '' e r)"

record environment =
  process_id :: fragments
  thread_id :: fragments
  thread_name :: fragments
  build_consts :: "fragments list"
  args_os :: "fragments list"
  current_dir :: fragments
  current_exe :: fragments
  temp_dir :: fragments
  vars_os :: "(fragments \<times> fragments) list"
  system_time :: fragments
  instant_now :: fragments
  dev_urandom :: urandom

text \<open>The eight constants of the build target are in \<open>build_consts\<close>, in order.\<close>

definition init_rng :: "environment \<Rightarrow> Rng \<Rightarrow> Rng" where
  "init_rng env r =
    (let r = writeln_text ''Smolmesh2'' r;
         r = writeln_debug (process_id env) r;
         r = writeln_debug (thread_id env) r;
         r = writeln_debug (thread_name env) r;
         r = fold writeln_debug (build_consts env) r;
         r = writeln_text ''Command line arguments'' r;
         r = fold writeln_debug (args_os env) r;
         r = writeln_labelled ''Current dir: '' (current_dir env) r;
         r = writeln_labelled ''Current exe: '' (current_exe env) r;
         r = writeln_labelled ''Temp dir: '' (temp_dir env) r;
         r = fold (\<lambda>(key, value). write_fmt (key @ [bstr '' -> ''] @ value @ [newline])) (vars_os env) r;
         r = writeln_debug (system_time env) r;
         r = writeln_debug (instant_now env) r
     in read_from_urandom (dev_urandom env) r)"

section \<open>The text that is absorbed\<close>

text \<open>Everything the program writes into the generator, as one list of pieces.\<close>

definition machine_text :: "environment \<Rightarrow> fragments" where
  "machine_text env =
    [bstr ''Smolmesh2'' @ newline] @
    concat (map (\<lambda>fs. fs @ [newline]) ([process_id env, thread_id env, thread_name env] @ build_consts env)) @
    [bstr ''Command line arguments'' @ newline] @ concat (map (\<lambda>fs. fs @ [newline]) (args_os env)) @
    [bstr ''Current dir: ''] @ current_dir env @ [newline] @
    [bstr ''Current exe: ''] @ current_exe env @ [newline] @
    [bstr ''Temp dir: ''] @ temp_dir env @ [newline] @
    concat (map (\<lambda>(key, value). key @ [bstr '' -> ''] @ value @ [newline]) (vars_os env)) @
    system_time env @ [newline] @ instant_now env @ [newline]"

definition urandom_text :: "urandom \<Rightarrow> fragments" where
  "urandom_text u =
    (case u of
       Random_Bytes buf \<Rightarrow> [bstr ''Opened!'' @ newline, bstr ''urandom buffer: ''] @ buf @ [newline]
     | Read_Error e \<Rightarrow> [bstr ''Opened!'' @ newline, bstr ''Failed to read from /dev/urandom: ''] @ e @ [newline]
     | Open_Error e \<Rightarrow> [bstr ''Failed to open /dev/urandom: ''] @ e @ [newline])"

definition seed_text :: "environment \<Rightarrow> fragments" where
  "seed_text env = machine_text env @ urandom_text (dev_urandom env)"

lemma write_fmt_append: "write_fmt (fs @ gs) r = write_fmt gs (write_fmt fs r)"
  by (simp add: write_fmt_def)

lemma write_fmt_concat: "fold (\<lambda>x. write_fmt (f x)) xs r = write_fmt (concat (map f xs)) r"
  by (induction xs arbitrary: r) (simp_all add: write_fmt_def)

lemma write_fmt_lines: "fold writeln_debug fss r = write_fmt (concat (map (\<lambda>fs. fs @ [newline]) fss)) r"
  unfolding write_fmt_concat [symmetric] by (rule arg_cong [of _ _ "\<lambda>f. fold f fss r"]) (simp add: fun_eq_iff writeln_debug_def)

lemma write_fmt_vars:
  "fold (\<lambda>(key, value). write_fmt (key @ [bstr '' -> ''] @ value @ [newline])) vs r =
    write_fmt (concat (map (\<lambda>(key, value). key @ [bstr '' -> ''] @ value @ [newline]) vs)) r"
  by (induction vs arbitrary: r) (auto simp: write_fmt_def)

lemma read_from_urandom_text: "read_from_urandom u r = write_fmt (urandom_text u) r"
  by (cases u) (simp_all add: read_from_urandom_def urandom_text_def writeln_text_def writeln_labelled_def write_fmt_def)

lemma init_rng_text: "init_rng env r = write_fmt (seed_text env) r"
  unfolding init_rng_def Let_def read_from_urandom_text write_fmt_lines write_fmt_vars
    writeln_debug_def writeln_text_def writeln_labelled_def seed_text_def machine_text_def
  by (simp only: write_fmt_append [symmetric] append.assoc concat_append map_append concat.simps list.map append.simps)

section \<open>What seeding keeps\<close>

lemma write_all_wf: "rng_wf r \<Longrightarrow> rng_wf (rng_write_all buf r)"
  by (simp add: rng_write_all_def Rng_write_def rng_wf_ops)

lemma write_all_inject: "rng_wf r \<Longrightarrow> rng_wf r' \<Longrightarrow> rng_write_all buf r = rng_write_all buf r' \<Longrightarrow> r = r'"
  by (auto simp: rng_write_all_def Rng_write_def dest: Rng_absorb_inject split: if_splits)

lemma write_fmt_wf: "rng_wf r \<Longrightarrow> rng_wf (write_fmt fs r)"
  unfolding write_fmt_def by (induction fs arbitrary: r) (simp_all add: write_all_wf)

lemma write_fmt_inject: "rng_wf r \<Longrightarrow> rng_wf r' \<Longrightarrow> write_fmt fs r = write_fmt fs r' \<Longrightarrow> r = r'"
  unfolding write_fmt_def
proof (induction fs arbitrary: r r')
  case (Cons f fs)
  then have "rng_write_all f r = rng_write_all f r'" using write_all_wf by simp
  then show ?case using write_all_inject Cons.prems(1,2) by blast
qed simp

text \<open>Pieces of at most a block that differ lead to different states.\<close>

lemma write_all_piece:
  assumes "rng_wf r" and "length p = length q" and "length p \<le> 16" and "rng_write_all p r = rng_write_all q r"
  shows "p = q"
proof (cases "p = []")
  case False
  then have "Rng_absorb p r = Rng_absorb q r" using assms(2,4) by (auto simp: rng_write_all_def Rng_write_def split: if_splits)
  then have eq: "rng_state (Rng_absorb p r) = rng_state (Rng_absorb q r)" by simp
  define s where "s = permute (xor_into (to_le_bytes 8 (of_nat (length p) :: u64)) (rng_state r))"
  have "rng_state (Rng_absorb p r) = absorb_chunks p s" "rng_state (Rng_absorb q r) = absorb_chunks q s"
    by (simp_all add: Rng_absorb_def s_def assms(2))
  then have "absorb_chunks p s = absorb_chunks q s" using eq by simp
  moreover have "length s = 48" using assms(1) by (simp add: s_def)
  ultimately show ?thesis using absorb_chunks_inject_data [of s p q] assms(2,3) by blast
qed (use assms(2) in simp)

section \<open>Properties\<close>


text \<open>An environment in which nothing is known but two bytes from \<^verbatim>\<open>/dev/urandom\<close>.\<close>

definition bare_environment :: "urandom \<Rightarrow> environment" where
  "bare_environment u = \<lparr>process_id = [], thread_id = [], thread_name = [], build_consts = [], args_os = [], current_dir = [],
    current_exe = [], temp_dir = [], vars_os = [], system_time = [], instant_now = [], dev_urandom = u\<rparr>"


end
