(* ===== verification/Sleep_Store.thy ===== *)
theory Sleep_Store
  imports Main "HOL-Library.Multiset"
begin

text \<open>
  The timers of the runtime, the module \<^verbatim>\<open>sleep_storage\<close> of \<^verbatim>\<open>rust/src/leo_async.rs\<close>. An instant is a
  number of nanoseconds, a waker the identity of the task it wakes. The order on timers is the reversed
  order of their instants, so that the maximum of the heap is the timer that is due first; as in the
  source it ignores the waker. The \<^verbatim>\<open>BinaryHeap\<close> of the standard library is used only through
  \<^verbatim>\<open>push\<close>, \<^verbatim>\<open>peek\<close> and \<^verbatim>\<open>pop\<close>; what these promise is the locale \<open>max_heap\<close>, in which the store is
  proved correct whatever the heap does with equal timers, and the model interprets it by the bag of
  its elements.
\<close>

type_synonym instant = nat
type_synonym waker = nat

datatype InstantAndWaker = InstantAndWaker (timer_instant: instant) (timer_waker: waker)

text \<open>\<^verbatim>\<open>std::cmp::Ordering\<close>, and \<^verbatim>\<open>Ord::cmp\<close> of instants.\<close>

datatype ordering = Less | Equal | Greater

definition instant_cmp :: "instant \<Rightarrow> instant \<Rightarrow> ordering" where
  "instant_cmp a b = (if a < b then Less else if a = b then Equal else Greater)"

text \<open>\<^verbatim>\<open>PartialEq\<close>, \<^verbatim>\<open>Ord\<close> and \<^verbatim>\<open>PartialOrd\<close> of timers.\<close>

definition timer_eq :: "InstantAndWaker \<Rightarrow> InstantAndWaker \<Rightarrow> bool" where
  "timer_eq a b \<longleftrightarrow> timer_instant a = timer_instant b"

definition timer_cmp :: "InstantAndWaker \<Rightarrow> InstantAndWaker \<Rightarrow> ordering" where
  "timer_cmp a b = instant_cmp (timer_instant b) (timer_instant a)"

definition timer_partial_cmp :: "InstantAndWaker \<Rightarrow> InstantAndWaker \<Rightarrow> ordering option" where
  "timer_partial_cmp a b = Some (timer_cmp a b)"

text \<open>The comparisons the heap makes are those of the order whose \<^verbatim>\<open>cmp\<close> this is.\<close>

instantiation InstantAndWaker :: preorder
begin

definition less_eq_InstantAndWaker :: "InstantAndWaker \<Rightarrow> InstantAndWaker \<Rightarrow> bool" where
  "less_eq_InstantAndWaker a b \<longleftrightarrow> timer_cmp a b \<noteq> Greater"

definition less_InstantAndWaker :: "InstantAndWaker \<Rightarrow> InstantAndWaker \<Rightarrow> bool" where
  "less_InstantAndWaker a b \<longleftrightarrow> timer_cmp a b = Less"

instance
  by standard
    (auto simp: less_eq_InstantAndWaker_def less_InstantAndWaker_def timer_cmp_def instant_cmp_def split: if_splits)

end

lemma timer_le: "a \<le> b \<longleftrightarrow> timer_instant b \<le> timer_instant a"
  by (simp add: less_eq_InstantAndWaker_def timer_cmp_def instant_cmp_def)

lemma timer_less: "a < b \<longleftrightarrow> timer_instant b < timer_instant a"
  by (simp add: less_InstantAndWaker_def timer_cmp_def instant_cmp_def)

text \<open>
  Equality agrees with the order, as \<^verbatim>\<open>Ord\<close> demands of its implementations: timers compare as equal exactly if
  \<^verbatim>\<open>eq\<close> holds, although timers of different tasks may do so.
\<close>

lemma timer_cmp_consistent: "timer_partial_cmp a b = Some Equal \<longleftrightarrow> timer_eq a b"
  by (auto simp: timer_partial_cmp_def timer_cmp_def timer_eq_def instant_cmp_def)

section \<open>The heap\<close>

locale max_heap =
  fixes elems :: "'h \<Rightarrow> 'a::preorder multiset"
    and push :: "'a \<Rightarrow> 'h \<Rightarrow> 'h"
    and peek :: "'h \<Rightarrow> 'a option"
    and pop :: "'h \<Rightarrow> 'h"
  assumes elems_push: "elems (push x h) = add_mset x (elems h)"
    and peek_None: "peek h = None \<longleftrightarrow> elems h = {#}"
    and peek_max: "peek h = Some x \<Longrightarrow> x \<in># elems h \<and> (\<forall>y \<in># elems h. y \<le> x)"
    and elems_pop: "peek h = Some x \<Longrightarrow> elems (pop h) = elems h - {#x#}"
begin

text \<open>Popping as long as the maximum is due removes exactly the due elements.\<close>

lemma none_due:
  assumes "peek h = Some x" and "\<not> due x" and "\<And>y z. due y \<Longrightarrow> y \<le> z \<Longrightarrow> due z"
  shows "filter_mset due (elems h) = {#}"
proof -
  have "\<not> due y" if "y \<in># elems h" for y
    using assms peek_max [OF assms(1)] that by blast
  then show ?thesis by (simp add: filter_mset_False filter_mset_cong [where g = "\<lambda>_. False"])
qed

lemma pop_smaller: "peek h = Some x \<Longrightarrow> size (elems (pop h)) < size (elems h)"
  using peek_max elems_pop by (simp add: size_Diff1_less)

lemma pop_due:
  assumes "peek h = Some x" and "due x"
  shows "filter_mset due (elems h) = add_mset x (filter_mset due (elems (pop h)))"
    and "filter_mset (\<lambda>y. \<not> due y) (elems h) = filter_mset (\<lambda>y. \<not> due y) (elems (pop h))"
proof -
  have "elems h = add_mset x (elems (pop h))"
    using assms peek_max elems_pop by (metis insert_DiffM)
  then show "filter_mset due (elems h) = add_mset x (filter_mset due (elems (pop h)))"
    and "filter_mset (\<lambda>y. \<not> due y) (elems h) = filter_mset (\<lambda>y. \<not> due y) (elems (pop h))"
    using assms(2) by simp_all
qed

end

text \<open>The bag of the timers in the heap; \<^verbatim>\<open>peek\<close> finds a maximum, \<^verbatim>\<open>pop\<close> removes it.\<close>

type_synonym heap = "InstantAndWaker list"

definition heap_push :: "InstantAndWaker \<Rightarrow> heap \<Rightarrow> heap" where
  "heap_push x h = x # h"

fun heap_peek :: "heap \<Rightarrow> InstantAndWaker option" where
  "heap_peek [] = None"
| "heap_peek (x # h) =
    (case heap_peek h of None \<Rightarrow> Some x | Some y \<Rightarrow> if x < y then Some y else Some x)"

definition heap_pop :: "heap \<Rightarrow> heap" where
  "heap_pop h = (case heap_peek h of None \<Rightarrow> h | Some x \<Rightarrow> remove1 x h)"

lemma heap_peek_None: "heap_peek h = None \<longleftrightarrow> h = []"
  by (cases h) (auto split: option.split)

lemma heap_peek_max: "heap_peek h = Some x \<Longrightarrow> x \<in> set h \<and> (\<forall>y \<in> set h. y \<le> x)"
proof (induction h arbitrary: x)
  case Nil
  then show ?case by simp
next
  case (Cons y h)
  show ?case
  proof (cases "heap_peek h")
    case None
    then show ?thesis using Cons.prems by (simp add: heap_peek_None)
  next
    case (Some z)
    then show ?thesis
      using Cons.prems Cons.IH [OF Some]
      by (auto simp: timer_less timer_le split: if_splits)
  qed
qed

interpretation timers: max_heap mset heap_push heap_peek heap_pop
  by unfold_locales
    (auto simp: heap_push_def heap_peek_None heap_pop_def mset_remove1 dest: heap_peek_max)

section \<open>The store\<close>

record SleepStore =
  sleep_queue :: heap

definition SleepStore_new :: SleepStore where
  "SleepStore_new = \<lparr>sleep_queue = []\<rparr>"

definition sleep_add :: "instant \<Rightarrow> waker \<Rightarrow> SleepStore \<Rightarrow> SleepStore" where
  "sleep_add instant waker s =
    s\<lparr>sleep_queue := heap_push (InstantAndWaker instant waker) (sleep_queue s)\<rparr>"

text \<open>The wakers woken, in order, and the timers left.\<close>

function wake_ready :: "instant \<Rightarrow> heap \<Rightarrow> waker list \<times> heap" where
  "wake_ready now h =
    (case heap_peek h of
       None \<Rightarrow> ([], h)
     | Some (InstantAndWaker instant waker) \<Rightarrow>
         if instant \<le> now then let (ws, h) = wake_ready now (heap_pop h) in (waker # ws, h)
         else ([], h))"
  by pat_completeness auto
termination
  by (relation "measure (\<lambda>(_, h). size (mset h))") (use timers.pop_smaller in \<open>auto simp del: size_mset\<close>)

declare wake_ready.simps [simp del]

definition wake_all_ready :: "instant \<Rightarrow> SleepStore \<Rightarrow> waker list \<times> SleepStore" where
  "wake_all_ready now s =
    (let (ws, h) = wake_ready now (sleep_queue s) in (ws, s\<lparr>sleep_queue := h\<rparr>))"

definition get_next_wakeup :: "SleepStore \<Rightarrow> instant option" where
  "get_next_wakeup s = map_option timer_instant (heap_peek (sleep_queue s))"

lemma wake_ready_correct:
  "mset (fst (wake_ready now h)) = image_mset timer_waker (filter_mset (\<lambda>t. timer_instant t \<le> now) (mset h)) \<and>
   mset (snd (wake_ready now h)) = filter_mset (\<lambda>t. \<not> timer_instant t \<le> now) (mset h)"
proof (induction now h rule: wake_ready.induct)
  case (1 now h)
  show ?case
  proof (cases "heap_peek h")
    case None
    then have "h = []" by (simp add: heap_peek_None)
    then show ?thesis by (simp add: wake_ready.simps [of now "[]"])
  next
    case (Some t)
    obtain i w where t: "t = InstantAndWaker i w" by (cases t)
    let ?due = "\<lambda>t. timer_instant t \<le> now"
    show ?thesis
    proof (cases "i \<le> now")
      case True
      then show ?thesis
        using "1.IH" [OF Some t] timers.pop_due [OF Some, of ?due] Some t
        by (simp add: wake_ready.simps [of now h] split_beta)
    next
      case False
      then have none: "filter_mset ?due (mset h) = {#}"
        using timers.none_due [OF Some, of ?due] t by (auto simp: timer_le)
      have "filter_mset (\<lambda>t. \<not> ?due t) (mset h) = mset h"
        using multiset_partition [of "mset h" ?due] unfolding none by simp
      then show ?thesis
        using False Some t none by (simp add: wake_ready.simps [of now h])
    qed
  qed
qed

text \<open>
  Timers fire exactly when due: waking at a time wakes the waker of every timer whose instant has been
  reached, once per timer, and of no other; the rest stay, and the next wake-up the store then reports is
  the earliest of them and lies in the future.
\<close>

theorem wake_all_ready_exact:
  "mset (fst (wake_all_ready now s)) =
     image_mset timer_waker (filter_mset (\<lambda>t. timer_instant t \<le> now) (mset (sleep_queue s))) \<and>
   mset (sleep_queue (snd (wake_all_ready now s))) =
     filter_mset (\<lambda>t. now < timer_instant t) (mset (sleep_queue s)) \<and>
   (case get_next_wakeup (snd (wake_all_ready now s)) of
      None \<Rightarrow> filter_mset (\<lambda>t. now < timer_instant t) (mset (sleep_queue s)) = {#}
    | Some i \<Rightarrow> now < i \<and> i = Min (timer_instant ` {t. t \<in># mset (sleep_queue s) \<and> now < timer_instant t}))"
proof -
  let ?h = "snd (wake_ready now (sleep_queue s))"
  have left: "mset ?h = filter_mset (\<lambda>t. now < timer_instant t) (mset (sleep_queue s))"
    using wake_ready_correct [of now "sleep_queue s"] by (simp add: not_le)
  have set_left: "set ?h = {t. t \<in># mset (sleep_queue s) \<and> now < timer_instant t}"
    using arg_cong [OF left, of set_mset] by auto
  have next_due: "now < timer_instant t \<and> timer_instant t = Min (timer_instant ` set ?h)"
    if "heap_peek ?h = Some t" for t
  proof -
    have t: "t \<in> set ?h" "\<forall>y \<in> set ?h. timer_instant t \<le> timer_instant y"
      using heap_peek_max [OF that] by (auto simp: timer_le)
    then have "timer_instant t = Min (timer_instant ` set ?h)"
      by (intro Min_eqI [symmetric]) auto
    then show ?thesis using t(1) set_left by auto
  qed
  have "case map_option timer_instant (heap_peek ?h) of
      None \<Rightarrow> filter_mset (\<lambda>t. now < timer_instant t) (mset (sleep_queue s)) = {#}
    | Some i \<Rightarrow> now < i \<and> i = Min (timer_instant ` set ?h)"
    using next_due left by (cases "heap_peek ?h") (auto simp: heap_peek_None)
  then show ?thesis
    using wake_ready_correct [of now "sleep_queue s"] left
    unfolding set_left get_next_wakeup_def by (simp add: wake_all_ready_def split_beta)
qed

end
