(* ===== verification/Wake_Pipe.thy ===== *)
theory Wake_Pipe
  imports Prelude
begin

text \<open>
  The pipe through which other threads interrupt the waiting executor, \<^verbatim>\<open>poke_wake_pipe\<close> and the reading loop
  of \<^verbatim>\<open>poll_and_wake\<close> in \<^verbatim>\<open>rust/src/leo_async.rs\<close>. The two loops are functions of the answers the system
  calls give, one after the other, with \<open>None\<close> for a loop that has not ended. What the loops rely on of a
  non-blocking pipe whose two ends stay open is the locale \<open>pipe\<close>; it is interpreted by counting the bytes
  in a pipe of a given capacity.
\<close>

text \<open>The answers of \<^verbatim>\<open>read\<close> and \<^verbatim>\<open>write\<close>: a number of bytes, \<^verbatim>\<open>EAGAIN\<close>, \<^verbatim>\<open>EINTR\<close>, another error.\<close>

datatype io = Io_Ok nat | Io_Again | Io_Intr | Io_Err

fun poke_wake_pipe :: "io list \<Rightarrow> (unit + unit) option" where
  "poke_wake_pipe [] = None"
| "poke_wake_pipe (Io_Ok n # _) = Some (if n = 1 then Inr () else Inl ())"
| "poke_wake_pipe (Io_Again # _) = Some (Inr ())"
| "poke_wake_pipe (Io_Intr # answers) = poke_wake_pipe answers"
| "poke_wake_pipe (Io_Err # _) = Some (Inl ())"

text \<open>The reading loop panics on every error but \<^verbatim>\<open>EAGAIN\<close>.\<close>

fun read_wake_pipe :: "io list \<Rightarrow> unit exec option" where
  "read_wake_pipe [] = None"
| "read_wake_pipe (Io_Ok n # answers) = (if n = 0 then Some (Done ()) else read_wake_pipe answers)"
| "read_wake_pipe (Io_Again # _) = Some (Done ())"
| "read_wake_pipe (Io_Intr # _) = Some (Panic ReadFailed)"
| "read_wake_pipe (Io_Err # _) = Some (Panic ReadFailed)"

section \<open>A non-blocking pipe\<close>

locale pipe =
  fixes level :: "'p \<Rightarrow> nat"
    and put :: "'p \<Rightarrow> io \<times> 'p"
    and get :: "nat \<Rightarrow> 'p \<Rightarrow> io \<times> 'p"
  assumes put_readable: "0 < level (snd (put p))"
    and put_answer: "fst (put p) \<in> {Io_Ok 1, Io_Again}"
    and get_empty: "level p = 0 \<Longrightarrow> get n p = (Io_Again, p)"
    and get_some: "0 < level p \<Longrightarrow> 0 < n \<Longrightarrow>
      \<exists>k q. get n p = (Io_Ok k, q) \<and> 0 < k \<and> level q + k = level p"
begin

text \<open>However often the write is interrupted, a poke succeeds and leaves something to read.\<close>

lemma poke_succeeds: "poke_wake_pipe (replicate k Io_Intr @ [fst (put p)]) = Some (Inr ())"
  using put_answer [of p] by (induction k) auto

text \<open>Reading buffer after buffer ends, without a panic, with an empty pipe.\<close>

inductive reads :: "nat \<Rightarrow> 'p \<Rightarrow> io list \<Rightarrow> 'p \<Rightarrow> bool" where
  reads_last: "get n p = (a, q) \<Longrightarrow> (\<forall>k. a \<noteq> Io_Ok (Suc k)) \<Longrightarrow> reads n p [a] q"
| reads_more: "get n p = (Io_Ok (Suc k), q) \<Longrightarrow> reads n q as r \<Longrightarrow> reads n p (Io_Ok (Suc k) # as) r"

lemma reading_ends:
  assumes "0 < n"
  shows "\<exists>as q. reads n p as q \<and> read_wake_pipe as = Some (Done ()) \<and> level q = 0"
proof (induction "level p" arbitrary: p rule: less_induct)
  case less
  show ?case
  proof (cases "level p = 0")
    case True
    then have "reads n p [Io_Again] p" using get_empty by (intro reads_last) auto
    then show ?thesis using True by force
  next
    case False
    then obtain k q where q: "get n p = (Io_Ok (Suc k), q)" and "level q < level p"
      using get_some [of p n] assms by (metis gr0_conv_Suc less_add_same_cancel1 not_gr_zero)
    then obtain as r where "reads n q as r" "read_wake_pipe as = Some (Done ())" "level r = 0"
      using less by blast
    then show ?thesis
      using reads_more [OF q] by (intro exI [of _ "Io_Ok (Suc k) # as"] exI [of _ r]) simp
  qed
qed

end

text \<open>A pipe as the number of bytes in it, with its capacity.\<close>

record wake_pipe =
  pipe_bytes :: nat
  pipe_room :: nat

definition pipe_level :: "wake_pipe \<Rightarrow> nat" where
  "pipe_level p = pipe_bytes p"

text \<open>A pipe holds at least one byte.\<close>

definition pipe_put :: "wake_pipe \<Rightarrow> io \<times> wake_pipe" where
  "pipe_put p =
    (if pipe_bytes p < max 1 (pipe_room p) then (Io_Ok 1, p\<lparr>pipe_bytes := pipe_bytes p + 1\<rparr>) else (Io_Again, p))"

definition pipe_get :: "nat \<Rightarrow> wake_pipe \<Rightarrow> io \<times> wake_pipe" where
  "pipe_get n p =
    (if pipe_bytes p = 0 then (Io_Again, p)
     else (Io_Ok (min n (pipe_bytes p)), p\<lparr>pipe_bytes := pipe_bytes p - n\<rparr>))"

interpretation counted: pipe pipe_level pipe_put pipe_get
  by unfold_locales (auto simp: pipe_level_def pipe_put_def pipe_get_def)

end
