(* ===== verification/Fd_Poller.thy ===== *)
theory Fd_Poller
  imports Sleep_Store Wake_Pipe
begin

text \<open>
  Waiting for descriptors, the module \<^verbatim>\<open>fd_poller\<close> of \<^verbatim>\<open>rust/src/leo_async.rs\<close>. The queue
  \<^verbatim>\<open>POLL_REGISTER\<close> is a list of registrations. The hash map of the cache is an association list, whose
  order stands for the unspecified iteration order; the slab is the list of its wakers, as keys are
  handed out from zero after it was cleared. The answer of \<^verbatim>\<open>poll\<close> is an argument: an error, or which
  descriptors have events. The wake pipe is polled with the others; reading it empty is in the theory of
  the pipe.
\<close>

type_synonym fd = int

datatype PollType = Read | Write

type_synonym registration = "fd \<times> PollType \<times> waker"

record PollCache =
  poll_state :: "(fd \<times> (PollType \<times> nat) list) list"
  waker_store :: "waker list"
  poll_fds :: "(fd \<times> bool \<times> bool) list"

definition PollCache_new :: PollCache where
  "PollCache_new = \<lparr>poll_state = [], waker_store = [], poll_fds = []\<rparr>"

definition PollCache_clear :: "PollCache \<Rightarrow> PollCache" where
  "PollCache_clear c = c\<lparr>poll_state := [], waker_store := [], poll_fds := []\<rparr>"

text \<open>\<^verbatim>\<open>poll_state.entry(fd).or_default().push(x)\<close>\<close>

fun entry_push :: "fd \<Rightarrow> 'a \<Rightarrow> (fd \<times> 'a list) list \<Rightarrow> (fd \<times> 'a list) list" where
  "entry_push fd x [] = [(fd, [x])]"
| "entry_push fd x ((k, v) # m) = (if k = fd then (k, v @ [x]) # m else (k, v) # entry_push fd x m)"

fun cache_registrations :: "registration list \<Rightarrow> PollCache \<Rightarrow> PollCache" where
  "cache_registrations [] c = c"
| "cache_registrations ((fd, polltype, waker) # regs) c =
    (let waker_id = length (waker_store c)
     in cache_registrations regs
          (c\<lparr>waker_store := waker_store c @ [waker],
             poll_state := entry_push fd (polltype, waker_id) (poll_state c)\<rparr>))"

text \<open>The events asked for: whether a reader and whether a writer waits.\<close>

definition interest :: "(PollType \<times> nat) list \<Rightarrow> bool \<times> bool" where
  "interest wakers =
    fold (\<lambda>(polltype, _) (has_read, has_write).
      case polltype of Read \<Rightarrow> (True, has_write) | Write \<Rightarrow> (has_read, True)) wakers (False, False)"

text \<open>The descriptors to poll with the events asked for; a descriptor nobody waits for is marked unreachable.\<close>

definition poll_requests :: "(fd \<times> (PollType \<times> nat) list) list \<Rightarrow> (fd \<times> bool \<times> bool) list exec" where
  "poll_requests state =
    (if (False, False) \<in> set (map (\<lambda>(_, wakers). interest wakers) state) then Panic Unreachable
     else Done (map (\<lambda>(fd, wakers). (fd, interest wakers)) state))"

datatype poll_error = Poll_Failed | Unreadable_Events | Waker_Not_Found

text \<open>\<^verbatim>\<open>waker_store.get(waker_id)\<close> for every waker of a descriptor.\<close>

fun get_wakers :: "waker list \<Rightarrow> (PollType \<times> nat) list \<Rightarrow> (PollType \<times> waker) list option" where
  "get_wakers store [] = Some []"
| "get_wakers store ((polltype, waker_id) # wakers) =
    (if waker_id < length store
     then (case get_wakers store wakers of None \<Rightarrow> None | Some ws \<Rightarrow> Some ((polltype, store ! waker_id) # ws))
     else None)"

text \<open>
  The loop over the polled descriptors: the wake pipe is skipped here, the wakers of a descriptor with events
  are woken and its entry is removed.
\<close>

fun serve_fds ::
  "fd \<Rightarrow> (fd \<Rightarrow> bool option) \<Rightarrow> (fd \<times> bool \<times> bool) list \<Rightarrow> waker list \<Rightarrow> PollCache \<Rightarrow>
   (poll_error + waker list \<times> PollCache) exec"
where
  "serve_fds pipe_fd revents [] woken c = Done (Inr (woken, c))"
| "serve_fds pipe_fd revents ((fd, _) # fds) woken c =
    (case revents fd of
       None \<Rightarrow> Done (Inl Unreadable_Events)
     | Some events \<Rightarrow>
         if fd = pipe_fd \<or> \<not> events then serve_fds pipe_fd revents fds woken c
         else
           (case map_of (poll_state c) fd of
              None \<Rightarrow> Panic UnwrapFailed
            | Some wakers \<Rightarrow>
                (case get_wakers (waker_store c) wakers of
                   None \<Rightarrow> Done (Inl Waker_Not_Found)
                 | Some ws \<Rightarrow>
                     serve_fds pipe_fd revents fds (woken @ map snd ws)
                       (c\<lparr>poll_state := filter (\<lambda>(k, _). k \<noteq> fd) (poll_state c)\<rparr>))))"

text \<open>The wakers that were not ready go back to \<^verbatim>\<open>POLL_REGISTER\<close>.\<close>

fun reregister :: "waker list \<Rightarrow> (fd \<times> (PollType \<times> nat) list) list \<Rightarrow> registration list option" where
  "reregister store [] = Some []"
| "reregister store ((fd, wakers) # state) =
    (case get_wakers store wakers of
       None \<Rightarrow> None
     | Some ws \<Rightarrow>
         (case reregister store state of
            None \<Rightarrow> None
          | Some regs \<Rightarrow> Some (map (\<lambda>(polltype, w). (fd, polltype, w)) ws @ regs)))"

text \<open>
  The whole call. The answer of \<^verbatim>\<open>poll\<close> is an error, or the events of each descriptor, which may have unknown
  bits. \<open>timeout_ok\<close> says which numbers of milliseconds \<^verbatim>\<open>PollTimeout\<close> accepts. The result is an error,
  which ends the program, or the wakers woken and the registrations left.
\<close>

definition poll_and_wake ::
  "(int \<Rightarrow> bool) \<Rightarrow> fd \<Rightarrow> registration list \<Rightarrow> int \<Rightarrow> (fd \<Rightarrow> bool option) option \<Rightarrow> PollCache \<Rightarrow>
   (poll_error + waker list \<times> registration list \<times> PollCache) exec"
where
  "poll_and_wake timeout_ok pipe_fd regs timeout_ms answer c =
    (let c = cache_registrations regs (PollCache_clear c)
     in case poll_requests (poll_state c) of
          Panic p \<Rightarrow> Panic p
        | Diverges \<Rightarrow> Diverges
        | Done requests \<Rightarrow>
            (let c = c\<lparr>poll_fds := requests @ [(pipe_fd, True, False)]\<rparr>
             in if \<not> timeout_ok timeout_ms then Panic UnwrapFailed
                else case answer of
                  None \<Rightarrow> Done (Inl Poll_Failed)
                | Some revents \<Rightarrow>
                    (case serve_fds pipe_fd revents (poll_fds c) [] c of
                       Done (Inr (woken, c)) \<Rightarrow>
                         (case reregister (waker_store c) (poll_state c) of
                            None \<Rightarrow> Done (Inl Waker_Not_Found)
                          | Some left \<Rightarrow> Done (Inr (woken, left, c)))
                     | Done (Inl e) \<Rightarrow> Done (Inl e)
                     | Panic p \<Rightarrow> Panic p
                     | Diverges \<Rightarrow> Diverges)))"

section \<open>No registration is lost\<close>

text \<open>The registrations a cache stands for.\<close>

definition cached :: "PollCache \<Rightarrow> registration multiset" where
  "cached c = mset (concat (map (\<lambda>(fd, wakers).
     map (\<lambda>(polltype, id). (fd, polltype, waker_store c ! id)) wakers) (poll_state c)))"

definition cache_ok :: "PollCache \<Rightarrow> bool" where
  "cache_ok c \<longleftrightarrow> distinct (map fst (poll_state c)) \<and>
    (\<forall>(fd, wakers) \<in> set (poll_state c). wakers \<noteq> [] \<and> (\<forall>(_, id) \<in> set wakers. id < length (waker_store c)))"

lemma entry_push_keys: "fst ` set (entry_push fd x m) = insert fd (fst ` set m)"
  by (induction fd x m rule: entry_push.induct) auto

lemma entry_push_distinct: "distinct (map fst m) \<Longrightarrow> distinct (map fst (entry_push fd x m))"
  by (induction fd x m rule: entry_push.induct) (auto simp: entry_push_keys image_iff)

lemma entry_push_mset:
  "mset (concat (map (\<lambda>(fd, v). map (f fd) v) (entry_push fd x m))) =
    add_mset (f fd x) (mset (concat (map (\<lambda>(fd, v). map (f fd) v) m)))"
  by (induction fd x m rule: entry_push.induct) auto

lemma entry_push_all:
  "(\<forall>(fd, v) \<in> set (entry_push fd x m). v \<noteq> [] \<and> (\<forall>y \<in> set v. P y)) \<longleftrightarrow>
    P x \<and> (\<forall>(fd, v) \<in> set m. v \<noteq> [] \<and> (\<forall>y \<in> set v. P y))" if "\<forall>(fd, v) \<in> set m. v \<noteq> []"
  using that by (induction fd x m rule: entry_push.induct) auto

lemma cache_step:
  assumes "cache_ok c"
    and c'_def: "c' = c\<lparr>waker_store := waker_store c @ [w],
    poll_state := entry_push fd (pt, length (waker_store c)) (poll_state c)\<rparr>"
  shows "cache_ok c' \<and> cached c' = add_mset (fd, pt, w) (cached c)"
proof
  let ?s = "waker_store c" and ?m = "poll_state c"
  have ids: "\<And>k v. (k, v) \<in> set ?m \<Longrightarrow> v \<noteq> []"
    "\<And>k v p id. (k, v) \<in> set ?m \<Longrightarrow> (p, id) \<in> set v \<Longrightarrow> id < length ?s"
    using assms(1) by (auto simp: cache_ok_def)
  have "\<forall>(k, v) \<in> set (entry_push fd (pt, length ?s) ?m). v \<noteq> [] \<and> (\<forall>y \<in> set v. snd y < Suc (length ?s))"
    using ids by (subst entry_push_all) (fastforce intro: less_SucI)+
  then show "cache_ok c'"
    using assms(1) entry_push_distinct by (fastforce simp: cache_ok_def c'_def)
  have old: "map (\<lambda>(k, v). map (\<lambda>(pt, id). (k, pt, (?s @ [w]) ! id)) v) ?m =
      map (\<lambda>(k, v). map (\<lambda>(pt, id). (k, pt, ?s ! id)) v) ?m"
    using ids by (fastforce simp: nth_append)
  have "cached c' = add_mset (fd, pt, (?s @ [w]) ! length ?s)
      (mset (concat (map (\<lambda>(k, v). map (\<lambda>(pt, id). (k, pt, (?s @ [w]) ! id)) v) ?m)))"
    using entry_push_mset [of "\<lambda>k (pt, id). (k, pt, (?s @ [w]) ! id)" fd "(pt, length ?s)" ?m]
    by (simp add: cached_def c'_def)
  then show "cached c' = add_mset (fd, pt, w) (cached c)"
    unfolding old by (simp add: cached_def)
qed

lemma cache_registrations_ok:
  "cache_ok c \<Longrightarrow> cache_ok (cache_registrations regs c) \<and>
   cached (cache_registrations regs c) = mset regs + cached c"
proof (induction regs c rule: cache_registrations.induct)
  case (1 c)
  then show ?case by simp
next
  case (2 fd polltype waker regs c)
  then show ?case using cache_step [OF "2.prems" refl, where w = waker and fd = fd and pt = polltype]
    by (simp add: Let_def)
qed

lemma clear_ok: "cache_ok (PollCache_clear c)" "cached (PollCache_clear c) = {#}"
  by (simp_all add: cache_ok_def cached_def PollCache_clear_def)

section \<open>Serving the descriptors\<close>

text \<open>The registrations one entry of the cache stands for.\<close>

abbreviation entry_regs :: "waker list \<Rightarrow> fd \<times> (PollType \<times> nat) list \<Rightarrow> registration list" where
  "entry_regs store e \<equiv> map (\<lambda>(polltype, id). (fst e, polltype, store ! id)) (snd e)"

lemma cached_sum: "cached c = \<Sum>\<^sub># (image_mset (\<lambda>e. mset (entry_regs (waker_store c) e)) (mset (poll_state c)))"
proof -
  have "mset (concat (map (\<lambda>(fd, v). map (\<lambda>(pt, id). (fd, pt, s ! id)) v) m)) =
      \<Sum>\<^sub># (image_mset (\<lambda>e. mset (entry_regs s e)) (mset m))" for s :: "waker list" and m
    by (induction m) auto
  then show ?thesis by (simp add: cached_def)
qed

lemma get_wakers_some:
  "\<forall>(_, id) \<in> set wakers. id < length store \<Longrightarrow>
   get_wakers store wakers = Some (map (\<lambda>(pt, id). (pt, store ! id)) wakers)"
  by (induction wakers) auto

lemma reregister_some:
  "\<forall>(_, wakers) \<in> set state. \<forall>(_, id) \<in> set wakers. id < length store \<Longrightarrow>
   reregister store state = Some (concat (map (entry_regs store) state))"
  by (induction state) (auto simp: get_wakers_some split_beta o_def)

lemma map_of_split:
  assumes "distinct (map fst m)" and "map_of m k = Some v"
  shows "mset m = add_mset (k, v) (mset (filter (\<lambda>(k', _). k' \<noteq> k) m))"
  using assms
proof (induction m)
  case Nil
  then show ?case by simp
next
  case (Cons e m)
  have "filter (\<lambda>(k', _). k' \<noteq> fst e) m = m" if "distinct (map fst (e # m))"
    using that by (intro filter_True) (force simp: image_iff)
  then show ?case using Cons by (cases e) (auto simp del: mset_filter split: if_splits)
qed

lemma cache_ok_filter: "cache_ok c \<Longrightarrow> cache_ok (c\<lparr>poll_state := filter P (poll_state c)\<rparr>)"
  by (auto simp: cache_ok_def distinct_map_filter)

lemma cached_remove:
  assumes "cache_ok c" and "map_of (poll_state c) fd = Some v"
  shows "filter_mset (\<lambda>r. P (fst r)) (cached c) =
    (if P fd then mset (entry_regs (waker_store c) (fd, v)) else {#}) +
    filter_mset (\<lambda>r. P (fst r)) (cached (c\<lparr>poll_state := filter (\<lambda>(k, _). k \<noteq> fd) (poll_state c)\<rparr>))"
proof -
  have "mset (poll_state c) = add_mset (fd, v) (mset (filter (\<lambda>(k, _). k \<noteq> fd) (poll_state c)))"
    using assms by (intro map_of_split) (auto simp: cache_ok_def)
  then have "cached c = mset (entry_regs (waker_store c) (fd, v)) +
      cached (c\<lparr>poll_state := filter (\<lambda>(k, _). k \<noteq> fd) (poll_state c)\<rparr>)"
    unfolding cached_sum by (simp del: mset_filter)
  moreover have "filter_mset (\<lambda>r. P (fst r)) (mset (entry_regs s (fd, v))) =
      (if P fd then mset (entry_regs s (fd, v)) else {#})" for s
    by (induction v) auto
  ultimately show ?thesis by simp
qed

lemma cached_keys: "r \<in># cached c \<Longrightarrow> fst r \<in> fst ` set (poll_state c)"
  by (force simp: cached_def)

text \<open>The descriptors among the polled ones that have events and are not the wake pipe.\<close>

definition hit :: "fd \<Rightarrow> (fd \<Rightarrow> bool) \<Rightarrow> (fd \<times> bool \<times> bool) list \<Rightarrow> fd \<Rightarrow> bool" where
  "hit p ready fds k \<longleftrightarrow> k \<in> fst ` set fds \<and> ready k \<and> k \<noteq> p"

text \<open>Serving one descriptor with events takes its entry out of the cache and wakes its wakers.\<close>

abbreviation without :: "fd \<Rightarrow> PollCache \<Rightarrow> PollCache" where
  "without fd c \<equiv> c\<lparr>poll_state := filter (\<lambda>(k, _). k \<noteq> fd) (poll_state c)\<rparr>"

lemma serve_step:
  assumes "cache_ok c" and "map_of (poll_state c) fd = Some v" and "ready fd" and "fd \<noteq> p"
  shows "serve_fds p (\<lambda>fd. Some (ready fd)) ((fd, i) # fds) woken c =
    serve_fds p (\<lambda>fd. Some (ready fd)) fds (woken @ map (\<lambda>(pt, id). waker_store c ! id) v) (without fd c)"
proof -
  have "\<forall>(_, id) \<in> set v. id < length (waker_store c)"
    using assms(1) map_of_SomeD [OF assms(2)] by (fastforce simp: cache_ok_def)
  then show ?thesis using assms by (simp add: get_wakers_some o_def case_prod_unfold)
qed

lemma keys_without:
  assumes "fd \<notin> fst ` set fds" and "\<forall>f \<in> set fds. fst f = p \<or> fst f \<in> fst ` set (poll_state c)"
  shows "\<forall>f \<in> set fds. fst f = p \<or> fst f \<in> fst ` set (poll_state (without fd c))"
proof
  fix f
  assume f: "f \<in> set fds"
  then have "fst f \<noteq> fd" "fst f = p \<or> fst f \<in> fst ` set (poll_state c)" using assms by auto
  then show "fst f = p \<or> fst f \<in> fst ` set (poll_state (without fd c))" by (auto simp: image_iff)
qed

lemma cached_hit:
  assumes "cache_ok c" and "map_of (poll_state c) fd = Some v" and "ready fd" and "fd \<noteq> p"
  shows "filter_mset (\<lambda>r. hit p ready ((fd, i) # fds) (fst r)) (cached c) =
    mset (entry_regs (waker_store c) (fd, v)) + filter_mset (\<lambda>r. hit p ready fds (fst r)) (cached (without fd c))"
proof -
  have "fst r \<noteq> fd" if "r \<in># cached (without fd c)" for r using cached_keys [OF that] by auto
  then have "filter_mset (\<lambda>r. hit p ready ((fd, i) # fds) (fst r)) (cached (without fd c)) =
      filter_mset (\<lambda>r. hit p ready fds (fst r)) (cached (without fd c))"
    by (intro filter_mset_cong) (auto simp: hit_def)
  then show ?thesis
    using assms(3,4) cached_remove [OF assms(1,2), of "hit p ready ((fd, i) # fds)"] by (simp add: hit_def)
qed

lemma serve_fds_correct:
  assumes "cache_ok c" and "distinct (map fst fds)"
    and "\<forall>f \<in> set fds. fst f = p \<or> fst f \<in> fst ` set (poll_state c)"
  shows "\<exists>ws c'. serve_fds p (\<lambda>fd. Some (ready fd)) fds woken c = Done (Inr (woken @ ws, c')) \<and>
    mset ws = image_mset (\<lambda>(_, _, w). w)
      (filter_mset (\<lambda>r. hit p ready fds (fst r)) (cached c)) \<and>
    c' = c\<lparr>poll_state := filter (\<lambda>e. \<not> hit p ready fds (fst e)) (poll_state c)\<rparr>"
  using assms
proof (induction fds arbitrary: woken c)
  case Nil
  then show ?case by (simp add: hit_def)
next
  case (Cons f fds)
  obtain fd i where f: "f = (fd, i)" by (cases f)
  show ?case
  proof (cases "ready fd \<and> fd \<noteq> p")
    case False
    then have "hit p ready (f # fds) = hit p ready fds" by (auto simp: f hit_def fun_eq_iff)
    then show ?thesis using Cons False by (auto simp: f)
  next
    case True
    then obtain v where v: "map_of (poll_state c) fd = Some v"
      using Cons.prems(3) by (fastforce simp: f map_of_eq_None_iff simp flip: not_None_eq)
    let ?ws = "map (\<lambda>(pt, id). waker_store c ! id) v"
    have fresh: "fd \<notin> fst ` set fds" "distinct (map fst fds)" using Cons.prems(2) by (auto simp: f)
    have keys: "\<forall>f \<in> set fds. fst f = p \<or> fst f \<in> fst ` set (poll_state (without fd c))"
      using Cons.prems(3) by (intro keys_without [OF fresh(1)]) simp
    obtain ws c' where rest: "serve_fds p (\<lambda>fd. Some (ready fd)) fds (woken @ ?ws) (without fd c) =
          Done (Inr ((woken @ ?ws) @ ws, c'))"
        "mset ws = image_mset (\<lambda>(_, _, w). w) (filter_mset (\<lambda>r. hit p ready fds (fst r)) (cached (without fd c)))"
        "c' = (without fd c)\<lparr>poll_state := filter (\<lambda>e. \<not> hit p ready fds (fst e)) (poll_state (without fd c))\<rparr>"
      using Cons.IH [OF cache_ok_filter [OF Cons.prems(1)] fresh(2) keys, of "woken @ ?ws"] by blast
    have "poll_state c' = filter (\<lambda>e. \<not> hit p ready (f # fds) (fst e)) (poll_state c)"
      using True by (auto simp: rest(3) f hit_def intro!: filter_cong)
    then show ?thesis
      using rest serve_step [OF Cons.prems(1) v] cached_hit [OF Cons.prems(1) v] True
      by (intro exI [of _ "?ws @ ws"] exI [of _ c'])
        (simp add: f image_mset.compositionality o_def case_prod_unfold)
  qed
qed

lemma interest_fold:
  "fold (\<lambda>(polltype :: PollType, _ :: nat) (has_read, has_write).
      case polltype of Read \<Rightarrow> (True, has_write) | Write \<Rightarrow> (has_read, True)) wakers (r, w) =
    (r \<or> Read \<in> fst ` set wakers, w \<or> Write \<in> fst ` set wakers)"
proof (induction wakers arbitrary: r w)
  case Nil
  then show ?case by simp
next
  case (Cons x wakers)
  then show ?case by (cases x; cases "fst x") auto
qed

text \<open>A descriptor is asked for reading if a reader waits, and for writing if a writer does.\<close>

lemma interest_eq: "interest wakers = (Read \<in> fst ` set wakers, Write \<in> fst ` set wakers)"
  by (simp add: interest_def interest_fold)

lemma interest_some: "wakers \<noteq> [] \<Longrightarrow> interest wakers \<noteq> (False, False)"
proof (cases wakers)
  case (Cons x xs)
  then show ?thesis by (cases "fst x") (auto simp: interest_eq)
qed simp

lemma poll_requests_done:
  "cache_ok c \<Longrightarrow> poll_requests (poll_state c) = Done (map (\<lambda>(fd, wakers). (fd, interest wakers)) (poll_state c))"
  using interest_some by (fastforce simp: poll_requests_def cache_ok_def)

lemma cached_filter:
  "mset (concat (map (entry_regs (waker_store c)) (filter (\<lambda>e. P (fst e)) (poll_state c)))) =
    filter_mset (\<lambda>r. P (fst r)) (cached c)"
proof -
  have "filter (\<lambda>r. P (fst r)) (entry_regs s e) = (if P (fst e) then entry_regs s e else [])" for s e
    by (auto simp: filter_map o_def split_beta)
  then have "concat (map (entry_regs s) (filter (\<lambda>e. P (fst e)) m)) =
      filter (\<lambda>r. P (fst r)) (concat (map (entry_regs s) m))" for s m
    by (induction m) auto
  then show ?thesis by (simp add: cached_def case_prod_unfold)
qed

lemma cache_keys:
  assumes "cache_ok c"
  shows "fst ` set (poll_state c) = fst ` set_mset (cached c)"
proof
  show "fst ` set_mset (cached c) \<subseteq> fst ` set (poll_state c)" using cached_keys by blast
  show "fst ` set (poll_state c) \<subseteq> fst ` set_mset (cached c)"
  proof
    fix fd
    assume "fd \<in> fst ` set (poll_state c)"
    then obtain pt i v where "(fd, (pt, i) # v) \<in> set (poll_state c)"
      using assms by (fastforce simp: cache_ok_def neq_Nil_conv)
    then have "(fd, pt, waker_store c ! i) \<in># cached c" by (force simp: cached_def)
    then show "fd \<in> fst ` set_mset (cached c)" by force
  qed
qed

lemma poll_and_wake_correct:
  assumes "timeout_ok timeout_ms" and "pipe_fd \<notin> fst ` set regs"
  shows "\<exists>woken left c'.
     poll_and_wake timeout_ok pipe_fd regs timeout_ms (Some (\<lambda>fd. Some (ready fd))) c = Done (Inr (woken, left, c')) \<and>
     mset woken = image_mset (\<lambda>(_, _, w). w) (filter_mset (\<lambda>r. ready (fst r)) (mset regs)) \<and>
     mset left = filter_mset (\<lambda>r. \<not> ready (fst r)) (mset regs) \<and>
     distinct (map fst (poll_fds c')) \<and> fst ` set (poll_fds c') = insert pipe_fd (fst ` set regs)"
proof -
  let ?base = "cache_registrations regs (PollCache_clear c)"
  let ?fds = "map (\<lambda>(fd, wakers). (fd, interest wakers)) (poll_state ?base) @ [(pipe_fd, True, False)]"
  let ?c = "?base\<lparr>poll_fds := ?fds\<rparr>"
  have ok0: "cache_ok ?base" and all: "cached ?base = mset regs"
    using cache_registrations_ok [OF clear_ok(1), of regs c] clear_ok(2) by auto
  then have keys: "fst ` set (poll_state ?base) = fst ` set regs" using cache_keys by simp
  then have fds: "fst ` set ?fds = insert pipe_fd (fst ` set regs)"
    by (auto simp: image_image split_beta)
  have map: "map fst ?fds = map fst (poll_state ?base) @ [pipe_fd]" by (simp add: split_beta)
  have dist: "distinct (map fst ?fds)"
    using assms(2) ok0 keys unfolding map by (auto simp: cache_ok_def)
  have ok: "cache_ok ?c" and cached: "cached ?c = mset regs"
    using ok0 all by (simp_all add: cache_ok_def cached_def)
  have hit: "filter_mset (\<lambda>r. hit pipe_fd ready ?fds (fst r)) (mset regs) = filter_mset (\<lambda>r. ready (fst r)) (mset regs)"
    "filter_mset (\<lambda>r. \<not> hit pipe_fd ready ?fds (fst r)) (mset regs) = filter_mset (\<lambda>r. \<not> ready (fst r)) (mset regs)"
    using assms(2) unfolding hit_def fds by (auto intro!: filter_mset_cong)
  obtain ws c' where serve: "serve_fds pipe_fd (\<lambda>fd. Some (ready fd)) ?fds [] ?c = Done (Inr (ws, c'))"
      and ws: "mset ws = image_mset (\<lambda>(_, _, w). w) (filter_mset (\<lambda>r. ready (fst r)) (mset regs))"
      and c': "c' = ?c\<lparr>poll_state := filter (\<lambda>e. \<not> hit pipe_fd ready ?fds (fst e)) (poll_state ?c)\<rparr>"
    using serve_fds_correct [OF ok dist, of pipe_fd ready "[]"] hit by (auto simp: cached split_beta)
  have "cache_ok c'" using cache_ok_filter [OF ok] by (simp add: c')
  then have "reregister (waker_store c') (poll_state c') = Some (concat (map (entry_regs (waker_store c')) (poll_state c')))"
    by (intro reregister_some) (auto simp: cache_ok_def)
  moreover have "mset (concat (map (entry_regs (waker_store c')) (poll_state c'))) =
      filter_mset (\<lambda>r. \<not> ready (fst r)) (mset regs)"
    using cached_filter [of ?c "\<lambda>k. \<not> hit pipe_fd ready ?fds k"] by (simp only: c' cached hit) simp
  moreover have "poll_fds c' = ?fds" by (simp add: c')
  ultimately show ?thesis
    using assms(1) ok0 serve ws dist fds by (simp add: poll_and_wake_def Let_def poll_requests_done)
qed

text \<open>
  C17. The poller loses no waker: when the timeout is accepted and \<^verbatim>\<open>poll\<close> succeeds, the call neither fails nor
  panics; the wakers of all registrations on descriptors with events have been woken, each once, and exactly the
  other registrations are registered again; the descriptors polled are those registered, each once, and the
  wake pipe.
\<close>

theorem poller_conserves_wakers:
  assumes "timeout_ok timeout_ms" and "pipe_fd \<notin> fst ` set regs"
  shows "\<exists>woken left c'.
     poll_and_wake timeout_ok pipe_fd regs timeout_ms (Some (\<lambda>fd. Some (ready fd))) c = Done (Inr (woken, left, c')) \<and>
     mset woken = image_mset (\<lambda>(_, _, w). w) (filter_mset (\<lambda>r. ready (fst r)) (mset regs)) \<and>
     mset left = filter_mset (\<lambda>r. \<not> ready (fst r)) (mset regs) \<and>
     distinct (map fst (poll_fds c')) \<and> fst ` set (poll_fds c') = insert pipe_fd (fst ` set regs)"
  using assms by (rule poll_and_wake_correct)

theorem poller_conserves_wakers_witness:
  "\<exists>woken left c'. poll_and_wake (\<lambda>n. - 1 \<le> n) 3 [(7, Read, 20), (8, Write, 21)] 1000
     (Some (\<lambda>fd. Some (fd = 7))) PollCache_new = Done (Inr (woken, left, c')) \<and>
     mset woken = {#20#} \<and> mset left = {#(8, Write, 21)#}"
  using poller_conserves_wakers [of "\<lambda>n. - 1 \<le> n" 1000 3 "[(7, Read, 20), (8, Write, 21)]" "\<lambda>fd. fd = 7" PollCache_new]
  by auto

end
