(* ===== verification/Executor.thy ===== *)
theory Executor
  imports Fd_Poller Prelude
begin

text \<open>
  The executor of \<^verbatim>\<open>rust/src/leo_async.rs\<close>: tasks with their \<^verbatim>\<open>scheduled\<close> flag, the queue
  \<^verbatim>\<open>TASK_SENDER\<close>, the wake pipe, waking, spawning, and one turn of the loop of \<^verbatim>\<open>run_forever\<close> as a
  function of what polling the tasks does and of what the descriptors answer. Tasks are numbers and a waker
  is the number of its task. How other threads interleave with the loop is the subject of another theory.
\<close>

type_synonym task = waker

record executor =
  task_queue :: "task list"
  task_vec :: "task list"
  scheduled :: "task \<Rightarrow> bool"
  future_slot :: "task \<Rightarrow> bool"
  exec_pipe :: wake_pipe

text \<open>
  \<^verbatim>\<open>Task::wake\<close> and \<^verbatim>\<open>Task::wake_by_ref\<close>: only the first wake since the last poll enqueues, and then pokes
  the wake pipe. The poke cannot fail on a pipe that stays open, see \<open>counted.poke_succeeds\<close>.
\<close>

definition task_push :: "task \<Rightarrow> 'r executor_scheme \<Rightarrow> 'r executor_scheme" where
  "task_push t x = x\<lparr>scheduled := (scheduled x)(t := True), task_queue := task_queue x @ [t]\<rparr>"

definition poke :: "'r executor_scheme \<Rightarrow> 'r executor_scheme" where
  "poke x = x\<lparr>exec_pipe := snd (pipe_put (exec_pipe x))\<rparr>"

definition wake :: "task \<Rightarrow> 'r executor_scheme \<Rightarrow> 'r executor_scheme" where
  "wake t x = (if scheduled x t then x else poke (task_push t x))"

text \<open>\<^verbatim>\<open>spawn\<close>: a new task starts out scheduled and enqueued; the pipe is not poked.\<close>

definition spawn :: "task \<Rightarrow> 'r executor_scheme \<Rightarrow> 'r executor_scheme" where
  "spawn t x =
    x\<lparr>future_slot := (future_slot x)(t := True), scheduled := (scheduled x)(t := True),
      task_queue := task_queue x @ [t]\<rparr>"

text \<open>The loop that moves the queue to \<^verbatim>\<open>task_vec\<close>, one task at a time.\<close>

definition pop_task :: "'r executor_scheme \<Rightarrow> 'r executor_scheme" where
  "pop_task x = x\<lparr>task_vec := task_vec x @ [hd (task_queue x)], task_queue := tl (task_queue x)\<rparr>"

function drain_queue :: "'r executor_scheme \<Rightarrow> 'r executor_scheme" where
  "drain_queue x = (if task_queue x = [] then x else drain_queue (pop_task x))"
  by auto
termination
  by (relation "measure (\<lambda>x. length (task_queue x))") (auto simp: pop_task_def)

declare drain_queue.simps [simp del]

lemma drain_queue_eq: "drain_queue x = x\<lparr>task_vec := task_vec x @ task_queue x, task_queue := []\<rparr>"
proof (induction x rule: drain_queue.induct)
  case (1 x)
  then show ?case
    by (cases "task_queue x = []") (simp_all add: drain_queue.simps [of x] pop_task_def)
qed

text \<open>The flag is cleared before the task is polled; the future is put back if it is pending.\<close>

definition begin_poll :: "task \<Rightarrow> 'r executor_scheme \<Rightarrow> 'r executor_scheme" where
  "begin_poll t x = x\<lparr>task_vec := tl (task_vec x), scheduled := (scheduled x)(t := False)\<rparr>"

definition end_poll :: "task \<Rightarrow> bool \<Rightarrow> 'r executor_scheme \<Rightarrow> 'r executor_scheme" where
  "end_poll t pending x = x\<lparr>future_slot := (future_slot x)(t := pending)\<rparr>"

text \<open>The loop of \<^verbatim>\<open>poll_and_wake\<close> that reads the wake pipe with a buffer of 2048 bytes until nothing is left.\<close>

function empty_pipe :: "wake_pipe \<Rightarrow> wake_pipe exec" where
  "empty_pipe p =
    (case pipe_get 2048 p of
       (Io_Ok n, q) \<Rightarrow> if n = 0 then Done q else empty_pipe q
     | (Io_Again, q) \<Rightarrow> Done q
     | (Io_Intr, q) \<Rightarrow> Panic ReadFailed
     | (Io_Err, q) \<Rightarrow> Panic ReadFailed)"
  by auto
termination
  by (relation "measure pipe_bytes") (auto simp: pipe_get_def split: if_splits)

declare empty_pipe.simps [simp del]

lemma empty_pipe_eq: "empty_pipe p = Done (p\<lparr>pipe_bytes := 0\<rparr>)"
proof (induction p rule: empty_pipe.induct)
  case (1 p)
  show ?case
  proof (cases "pipe_bytes p = 0")
    case True
    then show ?thesis by (simp add: empty_pipe.simps [of p] pipe_get_def)
  next
    case False
    then show ?thesis
      using "1.IH" [of "Io_Ok (min 2048 (pipe_bytes p))" "p\<lparr>pipe_bytes := pipe_bytes p - 2048\<rparr>" "min 2048 (pipe_bytes p)"]
      by (simp add: empty_pipe.simps [of p] pipe_get_def)
  qed
qed

definition executor_init :: "nat \<Rightarrow> executor" where
  "executor_init room = \<lparr>task_queue = [], task_vec = [], scheduled = (\<lambda>_. False), future_slot = (\<lambda>_. False),
     exec_pipe = \<lparr>pipe_bytes = 0, pipe_room = room\<rparr>\<rparr>"

section \<open>The invariant\<close>

text \<open>The tasks waiting to be polled, in order.\<close>

definition waiting :: "'r executor_scheme \<Rightarrow> task list" where
  "waiting x = task_vec x @ task_queue x"

text \<open>A task is scheduled exactly if it waits, and no task waits twice.\<close>

definition exec_inv :: "'r executor_scheme \<Rightarrow> bool" where
  "exec_inv x \<longleftrightarrow> distinct (waiting x) \<and> (\<forall>t. scheduled x t \<longleftrightarrow> t \<in> set (waiting x))"

lemma waiting_simps [simp]:
  "waiting (task_push t x) = waiting x @ [t]" "waiting (poke x) = waiting x" "waiting (spawn t x) = waiting x @ [t]"
  "waiting (drain_queue x) = waiting x" "waiting (end_poll t b x) = waiting x"
  "task_queue x \<noteq> [] \<Longrightarrow> waiting (pop_task x) = waiting x"
  "task_vec x \<noteq> [] \<Longrightarrow> waiting (begin_poll t x) = tl (waiting x)"
  by (simp_all add: waiting_def task_push_def poke_def spawn_def drain_queue_eq end_poll_def pop_task_def begin_poll_def)

lemma scheduled_simps [simp]:
  "scheduled (task_push t x) u \<longleftrightarrow> u = t \<or> scheduled x u" "scheduled (poke x) = scheduled x"
  "scheduled (spawn t x) u \<longleftrightarrow> u = t \<or> scheduled x u" "scheduled (pop_task x) = scheduled x"
  "scheduled (end_poll t b x) = scheduled x" "scheduled (begin_poll t x) u \<longleftrightarrow> u \<noteq> t \<and> scheduled x u"
  by (simp_all add: task_push_def poke_def spawn_def pop_task_def end_poll_def begin_poll_def)

lemma exec_inv_task_push: "exec_inv x \<Longrightarrow> \<not> scheduled x t \<Longrightarrow> exec_inv (task_push t x)"
  by (simp add: exec_inv_def)

lemma exec_inv_poke [simp]: "exec_inv (poke x) \<longleftrightarrow> exec_inv x"
  by (simp add: exec_inv_def)

lemma exec_inv_wake: "exec_inv x \<Longrightarrow> exec_inv (wake t x)"
  by (simp add: wake_def exec_inv_task_push)

lemma exec_inv_spawn: "exec_inv x \<Longrightarrow> \<not> scheduled x t \<Longrightarrow> exec_inv (spawn t x)"
  by (simp add: exec_inv_def)

lemma exec_inv_pop: "exec_inv x \<Longrightarrow> task_queue x \<noteq> [] \<Longrightarrow> exec_inv (pop_task x)"
  by (simp add: exec_inv_def)

lemma exec_inv_end [simp]: "exec_inv (end_poll t b x) \<longleftrightarrow> exec_inv x"
  by (simp add: exec_inv_def)

lemma exec_inv_begin: "exec_inv x \<Longrightarrow> task_vec x = t # ts \<Longrightarrow> exec_inv (begin_poll t x)"
  by (auto simp: exec_inv_def waiting_def begin_poll_def)

lemma exec_inv_init: "exec_inv (executor_init room)"
  by (simp add: exec_inv_def executor_init_def waiting_def)

section \<open>One turn of the loop\<close>

text \<open>What polling a task does to the runtime besides its own result.\<close>

datatype poll_effect =
    Wake task
  | Spawn task
  | Register_Sleep instant waker
  | Register_Poll fd PollType waker

record runtime = executor +
  sleep_register :: "(instant \<times> waker) list"
  sleep_store :: SleepStore
  poll_register :: "registration list"
  poll_cache :: PollCache

definition apply_effect :: "poll_effect \<Rightarrow> runtime \<Rightarrow> runtime" where
  "apply_effect e rt =
    (case e of
       Wake t \<Rightarrow> wake t rt
     | Spawn t \<Rightarrow> spawn t rt
     | Register_Sleep i w \<Rightarrow> rt\<lparr>sleep_register := sleep_register rt @ [(i, w)]\<rparr>
     | Register_Poll fd p w \<Rightarrow> rt\<lparr>poll_register := poll_register rt @ [(fd, p, w)]\<rparr>)"

text \<open>The timers registered since the last turn go to the store, and all that are due wake their tasks.\<close>

definition run_timers :: "instant \<Rightarrow> runtime \<Rightarrow> runtime" where
  "run_timers now rt =
    (let store = fold (\<lambda>(i, w) s. sleep_add i w s) (sleep_register rt) (sleep_store rt);
         (woken, store) = wake_all_ready now store
     in fold wake woken (rt\<lparr>sleep_register := [], sleep_store := store\<rparr>))"

definition run_task :: "(task \<Rightarrow> bool \<times> poll_effect list) \<Rightarrow> task \<Rightarrow> runtime \<Rightarrow> runtime" where
  "run_task poll t rt =
    (let rt = begin_poll t rt
     in if future_slot rt t then
          let (pending, effects) = poll t
          in end_poll t pending (fold apply_effect effects rt)
        else rt)"

definition run_tasks :: "(task \<Rightarrow> bool \<times> poll_effect list) \<Rightarrow> runtime \<Rightarrow> runtime" where
  "run_tasks poll rt = (let rt = drain_queue rt in fold (run_task poll) (task_vec rt) rt)"

text \<open>How long to wait for descriptors, in milliseconds, as a 32-bit integer.\<close>

definition sleep_ms :: "instant option \<Rightarrow> instant \<Rightarrow> int" where
  "sleep_ms next_wakeup now =
    (case next_wakeup of
       Some i \<Rightarrow> if now < i then sint (word_of_nat ((i - now) div 1000000) :: u32) else 1000
     | None \<Rightarrow> 1000)"

definition poll_timeout :: "instant \<Rightarrow> runtime \<Rightarrow> int" where
  "poll_timeout now rt =
    (if task_queue rt = [] then sleep_ms (get_next_wakeup (sleep_store rt)) now else 0)"

text \<open>
  A turn of \<^verbatim>\<open>run_forever\<close>: the clock is read before the timers run and again before waiting; the error of
  \<^verbatim>\<open>poll_and_wake\<close> is unwrapped. The wake pipe is the last descriptor of the poll, so it is read empty
  after the wakes. The result is the time to wait and the state after the turn.
\<close>

definition run_turn ::
  "(int \<Rightarrow> bool) \<Rightarrow> fd \<Rightarrow> instant \<Rightarrow> (task \<Rightarrow> bool \<times> poll_effect list) \<Rightarrow> instant \<Rightarrow> (fd \<Rightarrow> bool option) option \<Rightarrow>
   runtime \<Rightarrow> int \<times> runtime exec"
where
  "run_turn timeout_ok pipe_fd now1 poll now2 answer rt =
    (let rt = run_tasks poll (run_timers now1 rt);
         timeout = poll_timeout now2 rt
     in (timeout,
         case poll_and_wake timeout_ok pipe_fd (poll_register rt) timeout answer (poll_cache rt) of
           Done (Inr (woken, left, cache)) \<Rightarrow>
             (let rt = fold wake woken (rt\<lparr>poll_register := left, poll_cache := cache\<rparr>)
              in case empty_pipe (exec_pipe rt) of
                   Done p \<Rightarrow> Done (rt\<lparr>exec_pipe := p\<rparr>)
                 | Panic e \<Rightarrow> Panic e
                 | Diverges \<Rightarrow> Diverges)
         | Done (Inl _) \<Rightarrow> Panic UnwrapFailed
         | Panic p \<Rightarrow> Panic p
         | Diverges \<Rightarrow> Diverges))"

section \<open>Timers and turns\<close>

lemma wake_waiting: "exec_inv x \<Longrightarrow> set (waiting (wake t x)) = insert t (set (waiting x))"
  by (auto simp: wake_def exec_inv_def)

lemma fold_wake_waiting:
  assumes "exec_inv x"
  shows "exec_inv (fold wake ws x) \<and> set (waiting (fold wake ws x)) = set ws \<union> set (waiting x)"
  using assms
proof (induction ws arbitrary: x)
  case Nil
  then show ?case by simp
next
  case (Cons t ws)
  then show ?case using Cons.IH [OF exec_inv_wake [OF Cons.prems, of t]] wake_waiting [OF Cons.prems, of t] by auto
qed

lemma fold_wake_sleep_store [simp]: "sleep_store (fold wake ws rt) = sleep_store rt"
  by (induction ws arbitrary: rt) (simp_all add: wake_def poke_def task_push_def)

lemma fold_sleep_add:
  "mset (sleep_queue (fold (\<lambda>(i, w) s. sleep_add i w s) regs store)) =
    mset (map (\<lambda>(i, w). InstantAndWaker i w) regs) + mset (sleep_queue store)"
  by (induction regs arbitrary: store) (auto simp: sleep_add_def heap_push_def)

lemma run_timers_store:
  "mset (sleep_queue (sleep_store (run_timers now rt))) =
    filter_mset (\<lambda>t. now < timer_instant t)
      (mset (map (\<lambda>(i, w). InstantAndWaker i w) (sleep_register rt)) + mset (sleep_queue (sleep_store rt)))"
  using wake_ready_correct [of now "sleep_queue (fold (\<lambda>(i, w) s. sleep_add i w s) (sleep_register rt) (sleep_store rt))"]
  by (simp add: run_timers_def wake_all_ready_def split_beta Let_def fold_sleep_add not_le)

lemma run_task_sleep_store [simp]: "sleep_store (run_task poll t rt) = sleep_store rt"
proof -
  have "sleep_store (apply_effect e x) = sleep_store x" for e x
    by (cases e) (simp_all add: apply_effect_def wake_def poke_def task_push_def spawn_def)
  then have "sleep_store (fold apply_effect es x) = sleep_store x" for es x
    by (induction es arbitrary: x) simp_all
  then show ?thesis by (simp add: run_task_def begin_poll_def end_poll_def Let_def split_beta)
qed

lemma run_tasks_sleep_store [simp]: "sleep_store (run_tasks poll rt) = sleep_store rt"
proof -
  have "sleep_store (fold (run_task poll) ts x) = sleep_store x" for ts x
    by (induction ts arbitrary: x) simp_all
  then show ?thesis by (simp add: run_tasks_def drain_queue_eq Let_def)
qed

lemma run_turn_timeout:
  "fst (run_turn timeout_ok pipe_fd now1 poll now2 answer rt) =
    (if task_queue (run_tasks poll (run_timers now1 rt)) = []
     then sleep_ms (get_next_wakeup (sleep_store (run_timers now1 rt))) now2 else 0)"
  by (simp add: run_turn_def poll_timeout_def Let_def)

text \<open>
  C18. Tasks whose timers are due run in the same turn: a timer that was registered or stored, and whose instant
  the clock has reached when the turn starts, puts its task among those polled in this turn.
\<close>

theorem due_timers_run:
  assumes "exec_inv rt" and "i \<le> now"
    and "(i, w) \<in> set (sleep_register rt) \<or> InstantAndWaker i w \<in> set (sleep_queue (sleep_store rt))"
  shows "w \<in> set (task_vec (drain_queue (run_timers now rt)))"
proof -
  let ?store = "fold (\<lambda>(i, w) s. sleep_add i w s) (sleep_register rt) (sleep_store rt)"
  let ?woken = "fst (wake_all_ready now ?store)"
  have "InstantAndWaker i w \<in># mset (sleep_queue ?store)"
    using assms(3) by (force simp: fold_sleep_add)
  then have "w \<in># image_mset timer_waker (filter_mset (\<lambda>t. timer_instant t \<le> now) (mset (sleep_queue ?store)))"
    using assms(2) by force
  then have "w \<in> set ?woken"
    using wake_ready_correct [of now "sleep_queue ?store"]
    by (simp add: wake_all_ready_def split_beta flip: set_mset_mset)
  moreover have "exec_inv (rt\<lparr>sleep_register := [], sleep_store := s\<rparr>)" for s
    using assms(1) by (simp add: exec_inv_def waiting_def)
  ultimately have "w \<in> set (waiting (run_timers now rt))"
    using fold_wake_waiting [of "rt\<lparr>sleep_register := [], sleep_store := snd (wake_all_ready now ?store)\<rparr>" ?woken]
    by (auto simp: run_timers_def Let_def split_beta)
  then show ?thesis by (simp add: waiting_def drain_queue_eq)
qed

theorem due_timers_run_witness:
  "3 \<in> set (task_vec (drain_queue (run_timers 7
    \<lparr>task_queue = [], task_vec = [], scheduled = (\<lambda>_. False), future_slot = (\<lambda>_. True),
     exec_pipe = \<lparr>pipe_bytes = 0, pipe_room = 65536\<rparr>, sleep_register = [(7, 3)], sleep_store = SleepStore_new, poll_register = [], poll_cache = PollCache_new\<rparr>)))"
  by (rule due_timers_run [of _ 7]) (simp_all add: exec_inv_def waiting_def)

text \<open>
  The executor does not oversleep a timer it knows: when it waits for descriptors with nothing to run, and
  the next timer in the store is still ahead and less than \<open>2 ^ 31\<close> milliseconds away, the time it asks to
  wait is not negative and ends before that timer and so before every other one in the store.
\<close>

theorem known_timers_not_overslept:
  assumes "get_next_wakeup (sleep_store (run_timers now1 rt)) = Some i" and "now2 < i"
    and "(i - now2) div 1000000 < 2 ^ 31"
    and "t \<in> set (sleep_queue (sleep_store (run_timers now1 rt)))"
  shows "0 \<le> fst (run_turn timeout_ok pipe_fd now1 poll now2 answer rt) \<and>
    fst (run_turn timeout_ok pipe_fd now1 poll now2 answer rt) * 1000000 \<le> int (timer_instant t) - int now2"
proof -
  let ?ms = "(i - now2) div 1000000"
  have "sint (word_of_nat ?ms :: u32) = int ?ms"
    using assms(3) by (simp add: signed_of_nat signed_take_bit_int_eq_self)
  then have ms: "sleep_ms (Some i) now2 = int ?ms" using assms(2) by (simp add: sleep_ms_def)
  have "i \<le> timer_instant t"
    using assms(1,4) heap_peek_max by (fastforce simp: get_next_wakeup_def timer_le)
  moreover have "int ?ms * 1000000 \<le> int i - int now2"
  proof -
    have "?ms * 1000000 \<le> i - now2" by (rule div_times_less_eq_dividend)
    then have "int (?ms * 1000000) \<le> int (i - now2)" by (simp only: of_nat_le_iff)
    then show ?thesis using assms(2) by (simp add: of_nat_diff)
  qed
  ultimately show ?thesis using assms(1,2) ms by (auto simp: run_turn_timeout)
qed

text \<open>
  C33. A timer the executor does not look at makes it wait a whole second: when nothing is left to run, and the
  store has no timer or its first one expired while the tasks ran, the time to wait is 1000 milliseconds,
  whatever timers the tasks of this turn registered.
\<close>

theorem unseen_timers_wait_a_second:
  assumes "task_queue (run_tasks poll (run_timers now1 rt)) = []"
    and "\<forall>i. get_next_wakeup (sleep_store (run_timers now1 rt)) = Some i \<longrightarrow> i \<le> now2"
  shows "fst (run_turn timeout_ok pipe_fd now1 poll now2 answer rt) = 1000"
  using assms by (auto simp: run_turn_timeout sleep_ms_def split: option.split)

text \<open>One task that goes to sleep for five milliseconds.\<close>

definition sleepy :: runtime where
  "sleepy = \<lparr>task_queue = [7], task_vec = [], scheduled = (\<lambda>t. t = 7), future_slot = (\<lambda>t. t = 7),
     exec_pipe = \<lparr>pipe_bytes = 0, pipe_room = 65536\<rparr>, sleep_register = [], sleep_store = SleepStore_new, poll_register = [], poll_cache = PollCache_new\<rparr>"

lemma sleepy_timers: "run_timers 0 sleepy = sleepy"
  by (simp add: run_timers_def sleepy_def SleepStore_new_def wake_all_ready_def wake_ready.simps)

theorem unseen_timers_wait_a_second_witness:
  "sleep_register (run_tasks (\<lambda>_. (True, [Register_Sleep 5000000 7])) (run_timers 0 sleepy)) = [(5000000, 7)] \<and>
   fst (run_turn (\<lambda>n. - 1 \<le> n) 3 0 (\<lambda>_. (True, [Register_Sleep 5000000 7])) 0 (Some (\<lambda>_. Some False)) sleepy) = 1000"
proof -
  let ?poll = "\<lambda>_ :: task. (True, [Register_Sleep 5000000 7])"
  have run: "run_tasks ?poll (run_timers 0 sleepy) =
      sleepy\<lparr>task_queue := [], task_vec := [], scheduled := (\<lambda>_. False), future_slot := (\<lambda>t. t = 7),
        sleep_register := [(5000000, 7)]\<rparr>"
    by (auto simp: sleepy_timers)
      (auto simp: sleepy_def run_tasks_def drain_queue_eq run_task_def begin_poll_def end_poll_def
        apply_effect_def fun_eq_iff)
  have "task_queue (run_tasks ?poll (run_timers 0 sleepy)) = []" by (simp add: run)
  then show ?thesis
    using unseen_timers_wait_a_second [of ?poll 0 sleepy 0 "\<lambda>n. - 1 \<le> n" 3 "Some (\<lambda>_. Some False)"] run
    by (simp add: sleepy_timers) (simp add: sleepy_def SleepStore_new_def get_next_wakeup_def)
qed

theorem known_timers_not_overslept_witness:
  "0 \<le> fst (run_turn (\<lambda>n. - 1 \<le> n) 3 0 (\<lambda>_. (True, [])) 0 None (sleepy\<lparr>sleep_register := [(5000000, 7)]\<rparr>)) \<and>
   fst (run_turn (\<lambda>n. - 1 \<le> n) 3 0 (\<lambda>_. (True, [])) 0 None (sleepy\<lparr>sleep_register := [(5000000, 7)]\<rparr>)) * 1000000 \<le> 5000000"
proof -
  let ?rt = "sleepy\<lparr>sleep_register := [(5000000, 7)]\<rparr>"
  have "sleep_queue (sleep_store (run_timers 0 ?rt)) = [InstantAndWaker 5000000 7]"
    by (simp add: run_timers_def sleepy_def SleepStore_new_def wake_all_ready_def sleep_add_def heap_push_def
        wake_ready.simps)
  then show ?thesis
    using known_timers_not_overslept [of 0 ?rt 5000000 0 "InstantAndWaker 5000000 7" "\<lambda>n. - 1 \<le> n" 3 "\<lambda>_. (True, [])" None]
    by (simp add: get_next_wakeup_def)
qed

section \<open>Descriptors and turns\<close>

lemma fold_wake_register [simp]:
  "poll_register (fold wake ws rt) = poll_register rt"
  by (induction ws arbitrary: rt) (simp_all add: wake_def poke_def task_push_def)

text \<open>The registrations a turn hands to the poller.\<close>

abbreviation turn_registrations :: "instant \<Rightarrow> (task \<Rightarrow> bool \<times> poll_effect list) \<Rightarrow> runtime \<Rightarrow> registration list" where
  "turn_registrations now poll rt \<equiv> poll_register (run_tasks poll (run_timers now rt))"

text \<open>
  C16. A turn serves the descriptors: when \<^verbatim>\<open>poll\<close> answers, the turn ends without a panic; then the tasks waiting to be
  polled are, each once, those with a registration on a descriptor with events and those that were waiting already, and
  no others; the other registrations are kept for the next turn, and the wake pipe is empty.
\<close>

theorem turn_serves_descriptors:
  assumes "timeout_ok (fst (run_turn timeout_ok pipe_fd now1 poll now2 (Some (\<lambda>fd. Some (ready fd))) rt))"
    and "pipe_fd \<notin> fst ` set (turn_registrations now1 poll rt)"
    and "exec_inv (run_tasks poll (run_timers now1 rt))"
  shows "\<exists>rt'. snd (run_turn timeout_ok pipe_fd now1 poll now2 (Some (\<lambda>fd. Some (ready fd))) rt) = Done rt' \<and>
    exec_inv rt' \<and> pipe_level (exec_pipe rt') = 0 \<and>
    distinct (waiting rt') \<and>
    set (waiting rt') = {w. \<exists>fd p. ready fd \<and> (fd, p, w) \<in> set (turn_registrations now1 poll rt)} \<union>
      set (waiting (run_tasks poll (run_timers now1 rt))) \<and>
    mset (poll_register rt') = filter_mset (\<lambda>r. \<not> ready (fst r)) (mset (turn_registrations now1 poll rt))"
proof -
  let ?rt = "run_tasks poll (run_timers now1 rt)"
  let ?regs = "turn_registrations now1 poll rt"
  have timeout: "timeout_ok (poll_timeout now2 ?rt)" using assms(1) by (simp add: run_turn_def Let_def)
  obtain woken left c' where poll: "poll_and_wake timeout_ok pipe_fd ?regs (poll_timeout now2 ?rt)
        (Some (\<lambda>fd. Some (ready fd))) (poll_cache ?rt) = Done (Inr (woken, left, c'))"
      and woken: "mset woken = image_mset (\<lambda>(_, _, w). w) (filter_mset (\<lambda>r. ready (fst r)) (mset ?regs))"
      and left: "mset left = filter_mset (\<lambda>r. \<not> ready (fst r)) (mset ?regs)"
    using poll_and_wake_correct [of timeout_ok, OF timeout assms(2)] by blast
  let ?rt1 = "fold wake woken (?rt\<lparr>poll_register := left, poll_cache := c'\<rparr>)"
  let ?rt2 = "?rt1\<lparr>exec_pipe := (exec_pipe ?rt1)\<lparr>pipe_bytes := 0\<rparr>\<rparr>"
  have inv: "exec_inv (?rt\<lparr>poll_register := left, poll_cache := c'\<rparr>)"
    using assms(3) by (simp add: exec_inv_def waiting_def)
  have same: "waiting ?rt2 = waiting ?rt1" "exec_inv ?rt2 = exec_inv ?rt1" "waiting (?rt\<lparr>poll_register := left, poll_cache := c'\<rparr>) = waiting ?rt"
    by (simp_all add: exec_inv_def waiting_def)
  have "set woken = set_mset (mset woken)" by simp
  also have "\<dots> = {w. \<exists>fd p. ready fd \<and> (fd, p, w) \<in> set ?regs}" unfolding woken by force
  finally have "set woken = {w. \<exists>fd p. ready fd \<and> (fd, p, w) \<in> set ?regs}" .
  moreover have "exec_inv ?rt1 \<and> set (waiting ?rt1) = set woken \<union> set (waiting ?rt)"
    using fold_wake_waiting [OF inv, of woken] unfolding same(3) .
  then have "exec_inv ?rt1" "distinct (waiting ?rt1)" "set (waiting ?rt1) = set woken \<union> set (waiting ?rt)"
    by (simp_all add: exec_inv_def)
  moreover have "snd (run_turn timeout_ok pipe_fd now1 poll now2 (Some (\<lambda>fd. Some (ready fd))) rt) = Done ?rt2"
    using poll by (simp add: run_turn_def Let_def empty_pipe_eq)
  moreover have "mset (poll_register ?rt2) = mset left" "pipe_level (exec_pipe ?rt2) = 0"
    by (simp_all add: pipe_level_def)
  ultimately show ?thesis unfolding left [symmetric] by (intro exI [of _ ?rt2]) (auto simp: same(1,2))
qed

text \<open>A node with one task that waits to read a descriptor.\<close>

theorem turn_serves_descriptors_witness:
  "\<exists>rt'. snd (run_turn (\<lambda>n. - 1 \<le> n) 3 0 (\<lambda>_. (True, [Register_Poll 9 Read 7])) 0 (Some (\<lambda>fd. Some (fd = 9))) sleepy) =
    Done rt' \<and> set (waiting rt') = {7}"
proof -
  let ?poll = "\<lambda>_ :: task. (True, [Register_Poll 9 Read 7])"
  let ?turn = "run_turn (\<lambda>n. - 1 \<le> n) 3 0 ?poll 0 (Some (\<lambda>fd. Some (fd = 9))) sleepy"
  have run: "run_tasks ?poll (run_timers 0 sleepy) =
      sleepy\<lparr>task_queue := [], scheduled := (\<lambda>_. False), poll_register := [(9, Read, 7)]\<rparr>"
    by (auto simp: sleepy_timers)
      (auto simp: sleepy_def run_tasks_def drain_queue_eq run_task_def begin_poll_def end_poll_def
        apply_effect_def fun_eq_iff)
  have "sleep_queue (sleep_store (run_timers 0 sleepy)) = []"
    unfolding sleepy_timers by (simp add: sleepy_def SleepStore_new_def)
  then have "fst ?turn = 1000" by (simp add: run_turn_timeout run get_next_wakeup_def sleep_ms_def)
  then have "- 1 \<le> fst ?turn" by simp
  moreover have "3 \<notin> fst ` set (turn_registrations 0 ?poll sleepy)" by (simp add: run)
  moreover have idle: "waiting (sleepy\<lparr>task_queue := [], scheduled := (\<lambda>_. False), poll_register := [(9, Read, 7)]\<rparr>) = []"
    by (simp add: waiting_def sleepy_def)
  moreover have "exec_inv (run_tasks ?poll (run_timers 0 sleepy))"
    by (simp add: run exec_inv_def waiting_def) (simp add: sleepy_def)
  ultimately show ?thesis
    using turn_serves_descriptors [of "\<lambda>n. - 1 \<le> n" 3 0 ?poll 0 "\<lambda>fd. fd = 9" sleepy] idle
    by (auto simp: run)
qed

text \<open>
  A failing \<^verbatim>\<open>poll\<close> ends the program: whatever the error, an interrupted call included, and whatever the
  timeout, the turn panics.
\<close>

theorem failed_poll_crashes:
  "snd (run_turn timeout_ok pipe_fd now1 poll now2 None rt) = Panic UnwrapFailed"
proof -
  let ?rt = "run_tasks poll (run_timers now1 rt)"
  have "cache_ok (cache_registrations (poll_register ?rt) (PollCache_clear (poll_cache ?rt)))"
    using cache_registrations_ok clear_ok(1) by blast
  then show ?thesis by (simp add: run_turn_def poll_and_wake_def Let_def poll_requests_done)
qed

end
