(* ===== verification/Logging.thy ===== *)
theory Logging
  imports Mesh_Node
begin

text \<open>
  The logging macros of \<^verbatim>\<open>rust/src/log.rs\<close>, and what the packet loop of \<^verbatim>\<open>run_meshnode\<close> logs about a packet. The time
  stamp is made by the \<^verbatim>\<open>chrono\<close> crate and is an argument. A macro yields the lines it writes to standard error;
  \<^verbatim>\<open>eprintln!\<close> panics when it cannot write.
\<close>

section \<open>The macros\<close>

definition TRACE_ENABLED :: bool where "TRACE_ENABLED = False"
definition DEBUG_ENABLED :: bool where "DEBUG_ENABLED = True"
definition INFO_ENABLED :: bool where "INFO_ENABLED = True"
definition WARN_ENABLED :: bool where "WARN_ENABLED = True"
definition ERROR_ENABLED :: bool where "ERROR_ENABLED = True"

record stderr =
  writable :: bool
  timestamp :: string

definition log_level :: "bool \<Rightarrow> string \<Rightarrow> string \<Rightarrow> stderr \<Rightarrow> string list exec" where
  "log_level level_enabled level_str msg err =
    (if level_enabled then
       (if writable err then Done [''['' @ timestamp err @ ''] ['' @ level_str @ ''] '' @ msg]
        else Panic (Message ''failed printing to stderr''))
     else Done [])"

definition log_trace :: "string \<Rightarrow> stderr \<Rightarrow> string list exec" where
  "log_trace = log_level TRACE_ENABLED ''TRC''"

definition log_debug :: "string \<Rightarrow> stderr \<Rightarrow> string list exec" where
  "log_debug = log_level DEBUG_ENABLED ''DBG''"

definition log_info :: "string \<Rightarrow> stderr \<Rightarrow> string list exec" where
  "log_info = log_level INFO_ENABLED ''INF''"

definition log_warn :: "string \<Rightarrow> stderr \<Rightarrow> string list exec" where
  "log_warn = log_level WARN_ENABLED ''WRN''"

definition log_error :: "string \<Rightarrow> stderr \<Rightarrow> string list exec" where
  "log_error = log_level ERROR_ENABLED ''ERR''"

definition log_log :: "string \<Rightarrow> stderr \<Rightarrow> string list exec" where
  "log_log = log_debug"

text \<open>The macro a statement calls.\<close>

datatype level = Trace | Debug | Info | Warn | Error | Log

fun log_macro :: "level \<Rightarrow> string \<Rightarrow> stderr \<Rightarrow> string list exec" where
  "log_macro Trace = log_trace"
| "log_macro Debug = log_debug"
| "log_macro Info = log_info"
| "log_macro Warn = log_warn"
| "log_macro Error = log_error"
| "log_macro Log = log_log"

section \<open>The packet loop\<close>

text \<open>The call the loop makes for a packet, if any; a packet on which it panics first has none.\<close>

definition ip_log :: "bytes \<Rightarrow> (level \<times> string) option" where
  "ip_log data =
    (case data of
       [] \<Rightarrow> None
     | b # _ \<Rightarrow>
         (let ip_version = drop_bit 4 (b AND 0xF0)
          in if ip_version = 4 \<or> ip_version = 6 then None
             else Some (Warn, ''Invalid IP version: '' @ fmt_dec ip_version)))"

definition packet_log :: "(bytes \<Rightarrow> u64) \<Rightarrow> u64 \<Rightarrow> bytes \<Rightarrow> MeshNode \<Rightarrow> (level \<times> string) option" where
  "packet_log fx current data node =
    (if length data < 9 then
       Some (Warn, ''Dropping too-short packet ('' @ dec_digits (length data) @ '' bytes)'')
     else
       let ms = from_le_bytes [data ! 0, data ! 1, data ! 2, data ! 3, data ! 4, data ! 5, data ! 6, data ! 7]
       in if abs_diff current ms > ignore_after then None
       else if fst (seen_add fx data (seen_packets node)) then None
       else
         let cmd = data ! 8;
             data = drop 9 data
         in if cmd = 0 then
              if from_utf8 data then Some (Debug, ''Got node name flood for '' @ map (\<lambda>b. char_of (unat b)) data)
              else None
            else if cmd = 1 then
              if length data \<noteq> 16 then Some (Warn, ''Invalid IPv6 address length'') else None
            else if cmd = 2 then
              if length data \<noteq> 4 then Some (Warn, ''Invalid IPv4 address length'') else None
            else if cmd = 3 then ip_log data
            else Some (Warn, ''Unknown command '' @ fmt_dec cmd))"

definition node_stderr :: "(bytes \<Rightarrow> u64) \<Rightarrow> u64 \<Rightarrow> bytes \<Rightarrow> MeshNode \<Rightarrow> stderr \<Rightarrow> string list exec" where
  "node_stderr fx current data node err =
    (case packet_log fx current data node of None \<Rightarrow> Done [] | Some (lv, msg) \<Rightarrow> log_macro lv msg err)"

section \<open>What is reported\<close>

definition warned :: "(level \<times> string) option \<Rightarrow> bool" where
  "warned call \<longleftrightarrow> (\<exists>msg. call = Some (Warn, msg))"

lemma packet_log_eq:
  "packet_log fx current data node =
    (if length data < 9 then
       Some (Warn, ''Dropping too-short packet ('' @ dec_digits (length data) @ '' bytes)'')
     else if \<not> accepts fx current data node then None
     else if data ! 8 = 0 then
       if from_utf8 (drop 9 data)
       then Some (Debug, ''Got node name flood for '' @ map (\<lambda>b. char_of (unat b)) (drop 9 data)) else None
     else if data ! 8 = 1 then
       if length (drop 9 data) \<noteq> 16 then Some (Warn, ''Invalid IPv6 address length'') else None
     else if data ! 8 = 2 then
       if length (drop 9 data) \<noteq> 4 then Some (Warn, ''Invalid IPv4 address length'') else None
     else if data ! 8 = 3 then ip_log (drop 9 data)
     else Some (Warn, ''Unknown command '' @ fmt_dec (data ! 8)))"
proof (cases "length data < 9")
  case True
  then show ?thesis by (simp add: packet_log_def)
next
  case False
  then have ms: "packet_ms data =
      from_le_bytes [data ! 0, data ! 1, data ! 2, data ! 3, data ! 4, data ! 5, data ! 6, data ! 7]"
    using take_8 [of data] by (simp add: packet_ms_def)
  show ?thesis
    using False unfolding packet_log_def ms [symmetric] Let_def
    by (simp add: accepts_def seen_contains_def seen_add_def not_le Let_def)
qed

lemma ip_log_warned: "data \<noteq> [] \<Longrightarrow> \<not> short_ip data \<Longrightarrow> warned (ip_log data) \<longleftrightarrow> ip_target data = None"
  using ipv4_from_buf_total [of "take 4 (drop 16 data)"] ipv6_from_buf_total [of "take 16 (drop 24 data)"]
  by (cases data) (auto simp: warned_def ip_log_def ip_target_def ip_version_def short_ip_def Let_def)

lemma warning_line:
  assumes "writable err"
  shows "(\<exists>msg. node_stderr fx current data node err = Done [''['' @ timestamp err @ ''] [WRN] '' @ msg]) \<longleftrightarrow>
    warned (packet_log fx current data node)"
proof -
  have "packet_log fx current data node = None \<or>
      (\<exists>lv msg. packet_log fx current data node = Some (lv, msg) \<and> (lv = Warn \<or> lv = Debug))"
    by (auto simp: packet_log_eq ip_log_def Let_def split: list.splits)
  then show ?thesis
    using assms
    by (auto simp: node_stderr_def warned_def log_warn_def log_debug_def log_level_def WARN_ENABLED_def DEBUG_ENABLED_def)
qed

text \<open>
  C38. A packet that goes nowhere is reported. When a pass of the loop ends, it has written a warning, one line with
  time stamp and level, exactly if it passed nothing on and the packet is not an old one or a duplicate; the one
  other case is an IP packet for the node itself when it has no TUN device, which is dropped in silence.
\<close>

theorem dropped_packets_reported:
  assumes "handle_packet fx current data sndr node = (acts, Done node')" and "writable err"
  shows "(\<exists>msg. node_stderr fx current data node err = Done [''['' @ timestamp err @ ''] [WRN] '' @ msg]) \<longleftrightarrow>
    acts = [] \<and> (length data < 9 \<or> accepts fx current data node \<and>
      \<not> (data ! 8 = 3 \<and> tun_sender node = None \<and> (\<exists>ip \<in> our_ips node. ip_target (drop 9 data) = Some ip)))"
proof -
  consider (short) "length data < 9" | (rejected) "9 \<le> length data" "\<not> accepts fx current data node"
    | (ip) "accepts fx current data node" "data ! 8 = 3" | (other) "accepts fx current data node" "data ! 8 \<noteq> 3"
    by linarith
  then have "warned (packet_log fx current data node) \<longleftrightarrow>
    acts = [] \<and> (length data < 9 \<or> accepts fx current data node \<and>
      \<not> (data ! 8 = 3 \<and> tun_sender node = None \<and> (\<exists>ip \<in> our_ips node. ip_target (drop 9 data) = Some ip)))"
  proof cases
    case short
    then show ?thesis using assms(1) by (simp add: packet_log_eq warned_def handle_packet_eq accepts_def)
  next
    case rejected
    then show ?thesis by (simp add: packet_log_eq warned_def)
  next
    case ip
    then have "\<not> short_ip (drop 9 data)"
      using assms(1) by (auto simp: handle_packet_eq dispatch_def on_ip_packet_def target_addr_eq)
    moreover from this have "drop 9 data \<noteq> []" by (auto simp: short_ip_def)
    ultimately show ?thesis
      using assms(1) ip ip_log_warned [of "drop 9 data"]
      by (auto simp: packet_log_eq handle_packet_eq dispatch_def on_ip_packet_def target_addr_eq accepts_def
          split: option.splits if_splits)
  next
    case other
    then show ?thesis
      using assms(1)
      by (auto simp: packet_log_eq warned_def handle_packet_eq dispatch_def on_node_name_def on_address_def then_do_def
          accepts_def split: option.splits if_splits exec.splits prod.splits)
  qed
  then show ?thesis by (simp only: warning_line [OF assms(2)])
qed

text \<open>A packet with an unknown command.\<close>

theorem dropped_packets_reported_witness:
  "\<exists>msg. node_stderr (\<lambda>_. 0) 0 [0, 0, 0, 0, 0, 0, 0, 0, 9] sample_node \<lparr>writable = True, timestamp = ''12:00:00''\<rparr> =
    Done [''[12:00:00] [WRN] '' @ msg]"
proof -
  let ?p = "[0, 0, 0, 0, 0, 0, 0, 0, 9] :: bytes"
  have acc: "accepts (\<lambda>_. 0) 0 ?p sample_node"
    by (simp add: accepts_def packet_ms_def abs_diff_def ignore_after_def sample_node_def seen_contains_def SeenPackets_new_def)
  then have "handle_packet (\<lambda>_. 0) 0 ?p 7 sample_node = ([], Done (note_seen (\<lambda>_. 0) ?p sample_node))"
    by (simp add: handle_packet_eq dispatch_def)
  from dropped_packets_reported [OF this, of "\<lparr>writable = True, timestamp = ''12:00:00''\<rparr>"] acc
  show ?thesis by simp
qed

end
