(* ===== verification/Program.thy ===== *)
theory Program
  imports Node_Setup Rng_Seed Executor Logging Mesh_Routing
begin

text \<open>
  The program from \<^verbatim>\<open>main\<close> on, in \<^verbatim>\<open>rust/src/main.rs\<close>: logging, seeding, the command line, and for \<^verbatim>\<open>meshnode\<close>
  reading the configuration and starting the node. Reading a file and parsing JSON are arguments that return a
  value or the text of an error. The last section is about the loop of \<^verbatim>\<open>run_forever\<close> as a whole.
\<close>

section \<open>From the command line to the node\<close>

definition read_config :: "(string \<Rightarrow> string + string) \<Rightarrow> (string \<Rightarrow> string + config) \<Rightarrow> string list \<Rightarrow> config exec" where
  "read_config read_to_string json_parse args =
    (case args of
       [] \<Rightarrow> Panic (Message ''meshnode requires a <config-file> argument'')
     | config_path # _ \<Rightarrow>
         (case read_to_string config_path of
            Inl e \<Rightarrow> Panic (Message (''failed to read '' @ config_path @ '': '' @ e))
          | Inr config_file \<Rightarrow>
              (case json_parse config_file of
                 Inl e \<Rightarrow> Panic (Message (''failed to parse JSON in '' @ config_path @ '': '' @ e))
               | Inr cfg \<Rightarrow> Done cfg)))"

text \<open>\<^verbatim>\<open>run_meshnode\<close> up to its packet loop.\<close>

definition run_meshnode ::
  "(string \<Rightarrow> string + string) \<Rightarrow> (string \<Rightarrow> string + config) \<Rightarrow> string list \<Rightarrow> (startup list \<times> MeshNode) exec"
where
  "run_meshnode read_to_string json_parse args = exec_bind (read_config read_to_string json_parse args) start_node"

text \<open>What the program comes to: lines printed by a command that is then done, or a node with its tasks.\<close>

datatype outcome = Printed "string list" | Running "startup list" MeshNode

record world =
  read_to_string :: "string \<Rightarrow> string + string"
  json_parse :: "string \<Rightarrow> string + config"
  os_env :: environment
  std_err :: stderr

definition main :: "world \<Rightarrow> string list \<Rightarrow> outcome exec" where
  "main w args =
    exec_bind (log_info ''Started smolmesh2'' (std_err w)) (\<lambda>_.
    exec_bind (log_info ''Entered async_main'' (std_err w)) (\<lambda>_.
    let rng = init_rng (os_env w) Rng_new
    in exec_bind (fst (async_main args rng)) (\<lambda>c.
       case c of
         Print out \<Rightarrow> Done (Printed out)
       | Meshnode args \<Rightarrow>
           exec_bind (run_meshnode (read_to_string w) (json_parse w) args) (\<lambda>(tasks, node).
           Done (Running tasks node)))))"

lemma log_info_writable: "writable err \<Longrightarrow> \<exists>ls. log_info msg err = Done ls"
  by (simp add: log_info_def log_level_def INFO_ENABLED_def)

lemma main_writable:
  "writable (std_err w) \<Longrightarrow> main w args =
    exec_bind (fst (async_main args (init_rng (os_env w) Rng_new))) (\<lambda>c.
       case c of
         Print out \<Rightarrow> Done (Printed out)
       | Meshnode args \<Rightarrow>
           exec_bind (run_meshnode (read_to_string w) (json_parse w) args) (\<lambda>(tasks, node).
           Done (Running tasks node)))"
  using log_info_writable [of "std_err w" "''Started smolmesh2''"] log_info_writable [of "std_err w" "''Entered async_main''"]
  by (auto simp: main_def)

lemma start_node_name:
  assumes "start_node cfg = Done (acts, node)" and "cfg_node_name cfg = Some name"
  shows "\<exists>ip. from_node_name (bstr name) = Some ip \<and> ip \<in> our_ips node"
  using assms by (auto simp: start_node_def exec_bind_Done unwrap_Done Let_def split: option.splits)

text \<open>
  C21. \<^verbatim>\<open>name-to-ipv6\<close> tells the truth: if \<^verbatim>\<open>meshnode\<close> starts a node whose configuration gives it a name, then
  \<^verbatim>\<open>name-to-ipv6\<close> with that name prints one line, the text of an address that is among the addresses of the node
  and under which every node that accepts the node's announcement learns the way to it.
\<close>

theorem name_to_ipv6_is_node_address:
  assumes "main w [exe, ''meshnode'', path] = Done (Running tasks node)" and "writable (std_err w)"
    and "read_to_string w path = Inr txt" and "json_parse w txt = Inr cfg" and "cfg_node_name cfg = Some name"
    and "from_utf8 (bstr name)"
  shows "\<exists>ip. main w [exe, ''name-to-ipv6'', name] = Done (Printed [fmt_addr ip]) \<and> ip \<in> our_ips node \<and>
    (\<forall>fx current ms sndr other. accepts fx current (name_announcement ms (bstr name)) other \<and> route_adder other \<noteq> Some False \<longrightarrow>
      Post_All_Senders (AddFastestTo ms ip sndr) \<in>
        set (fst (handle_packet fx current (name_announcement ms (bstr name)) sndr other)))"
proof -
  have "start_node cfg = Done (tasks, node)"
    using assms(1,3,4) unfolding main_writable [OF assms(2)]
    by (auto simp: async_main_def run_meshnode_def read_config_def exec_bind_Done)
  then obtain ip where ip: "from_node_name (bstr name) = Some ip" "ip \<in> our_ips node"
    using start_node_name assms(5) by blast
  then have "main w [exe, ''name-to-ipv6'', name] = Done (Printed [fmt_addr ip])"
    unfolding main_writable [OF assms(2)] by (simp add: async_main_def run_name_to_ipv6_def)
  then show ?thesis using ip learn_name [OF assms(6) ip(1)] by auto
qed

theorem name_to_ipv6_is_node_address_witness:
  "\<exists>tasks node ip. main \<lparr>read_to_string = (\<lambda>_. Inr ''{}''),
       json_parse = (\<lambda>_. Inr \<lparr>cfg_node_name = Some ''r12'', cfg_ipv4_addresses = [], cfg_transports = [], cfg_linux_tuntap = None\<rparr>),
       os_env = \<lparr>process_id = [], thread_id = [], thread_name = [], build_consts = [], args_os = [], current_dir = [],
         current_exe = [], temp_dir = [], vars_os = [], system_time = [], instant_now = [], dev_urandom = Open_Error []\<rparr>,
       std_err = \<lparr>writable = True, timestamp = ''''\<rparr>\<rparr> [''smolmesh2'', ''meshnode'', ''config.json''] =
      Done (Running tasks node) \<and> ip \<in> our_ips node"
proof -
  let ?cfg = "\<lparr>cfg_node_name = Some ''r12'', cfg_ipv4_addresses = [], cfg_transports = [], cfg_linux_tuntap = None\<rparr>"
  let ?w = "\<lparr>read_to_string = (\<lambda>_. Inr ''{}''), json_parse = (\<lambda>_. Inr ?cfg),
       os_env = \<lparr>process_id = [], thread_id = [], thread_name = [], build_consts = [], args_os = [], current_dir = [],
         current_exe = [], temp_dir = [], vars_os = [], system_time = [], instant_now = [], dev_urandom = Open_Error []\<rparr>,
       std_err = \<lparr>writable = True, timestamp = ''''\<rparr>\<rparr>"
  have ok: "writable (std_err ?w)" by simp
  have name: "bstr ''r12'' = [0x72, 0x31, 0x32]" by (simp add: bstr_def)
  obtain acts node where "start_node ?cfg = Done (acts, node)"
    by (simp add: start_node_def name from_node_name_r12 setup_tun_def Let_def)
  then have run: "main ?w [''smolmesh2'', ''meshnode'', ''config.json''] = Done (Running acts node)"
    unfolding main_writable [OF ok] by (simp add: async_main_def run_meshnode_def read_config_def)
  have "from_utf8 (bstr ''r12'')" unfolding name by simp
  then show ?thesis
    using name_to_ipv6_is_node_address [OF run ok, of "''{}''" ?cfg "''r12''"] run by auto
qed

section \<open>After the last task\<close>

text \<open>
  The loop of \<^verbatim>\<open>run_forever\<close>, for the turns given by the two readings of the clock and the answer of \<^verbatim>\<open>poll\<close>: the times
  it waited, and the state it has come to.
\<close>

fun run_forever ::
  "(int \<Rightarrow> bool) \<Rightarrow> fd \<Rightarrow> (task \<Rightarrow> bool \<times> poll_effect list) \<Rightarrow>
   (instant \<times> instant \<times> (fd \<Rightarrow> bool option) option) list \<Rightarrow> runtime \<Rightarrow> int list \<times> runtime exec"
where
  "run_forever timeout_ok pipe_fd poll [] rt = ([], Done rt)"
| "run_forever timeout_ok pipe_fd poll ((now1, now2, answer) # turns) rt =
    (case run_turn timeout_ok pipe_fd now1 poll now2 answer rt of
       (t, Done rt) \<Rightarrow> (let (ts, r) = run_forever timeout_ok pipe_fd poll turns rt in (t # ts, r))
     | (t, r) \<Rightarrow> ([t], r))"

text \<open>Nothing is waiting or registered, and the only task left, if any, is ready to finish.\<close>

definition at_rest :: "task set \<Rightarrow> runtime \<Rightarrow> bool" where
  "at_rest live rt \<longleftrightarrow> task_vec rt = [] \<and> set (task_queue rt) = live \<and> distinct (task_queue rt) \<and>
    (\<forall>t. future_slot rt t \<longrightarrow> t \<in> live) \<and> sleep_register rt = [] \<and> sleep_queue (sleep_store rt) = [] \<and>
    poll_register rt = []"

lemma finish_tasks:
  assumes "\<forall>t. poll t = (False, [])"
  shows "task_queue (fold (run_task poll) ts rt) = task_queue rt \<and>
    task_vec (fold (run_task poll) ts rt) = drop (length ts) (task_vec rt) \<and>
    (\<forall>u. future_slot (fold (run_task poll) ts rt) u \<longleftrightarrow> future_slot rt u \<and> u \<notin> set ts) \<and>
    sleep_register (fold (run_task poll) ts rt) = sleep_register rt \<and>
    sleep_store (fold (run_task poll) ts rt) = sleep_store rt \<and>
    poll_register (fold (run_task poll) ts rt) = poll_register rt"
proof (induction ts arbitrary: rt)
  case Nil
  then show ?case by simp
next
  case (Cons t ts)
  have "run_task poll t rt =
      rt\<lparr>task_vec := tl (task_vec rt), scheduled := (scheduled rt)(t := False), future_slot := (future_slot rt)(t := False)\<rparr>"
    using assms
    by (cases "future_slot rt t") (simp_all add: run_task_def Let_def begin_poll_def end_poll_def fun_upd_idem)
  then show ?case using Cons.IH by (auto simp: drop_Suc)
qed

lemma rest_timers:
  assumes "at_rest live rt"
  shows "run_timers now rt = rt\<lparr>sleep_register := [], sleep_store := sleep_store rt\<rparr>"
  using assms by (simp add: at_rest_def run_timers_def wake_all_ready_def wake_ready.simps)

lemma rest_tasks:
  assumes "at_rest live rt" and "\<forall>t. poll t = (False, [])"
  shows "at_rest {} (run_tasks poll (run_timers now rt))"
proof -
  let ?rt = "drain_queue (run_timers now rt)"
  have vec: "task_vec ?rt = task_queue rt" "task_queue ?rt = []"
    using assms(1) by (simp_all add: rest_timers [OF assms(1)] drain_queue_eq at_rest_def)
  then show ?thesis
    using finish_tasks [OF assms(2), of "task_queue rt" ?rt] assms(1)
    by (auto simp: run_tasks_def Let_def at_rest_def) (auto simp: rest_timers [OF assms(1)] drain_queue_eq)
qed

lemma rest_turn:
  assumes "at_rest live rt" and "\<forall>t. poll t = (False, [])" and "timeout_ok 1000"
  shows "\<exists>rt'. run_turn timeout_ok pipe_fd now1 poll now2 (Some (\<lambda>fd. Some (ready fd))) rt = (1000, Done rt') \<and>
    at_rest {} rt'"
proof -
  let ?rt = "run_tasks poll (run_timers now1 rt)"
  have rest: "at_rest {} ?rt" using assms(1,2) by (rule rest_tasks)
  then have timeout: "poll_timeout now2 ?rt = 1000"
    by (simp add: at_rest_def poll_timeout_def get_next_wakeup_def sleep_ms_def)
  have "poll_register ?rt = []" using rest by (simp add: at_rest_def)
  then obtain c' where "poll_and_wake timeout_ok pipe_fd [] 1000 (Some (\<lambda>fd. Some (ready fd))) (poll_cache ?rt) =
      Done (Inr ([], [], c'))"
    using poll_and_wake_correct [of timeout_ok 1000 pipe_fd "[]" ready "poll_cache ?rt"] assms(3) by auto
  then show ?thesis
    using timeout \<open>poll_register ?rt = []\<close> rest
    by (auto simp: run_turn_def Let_def empty_pipe_eq at_rest_def)
qed

text \<open>
  C39. A finished command does not end the program, as the manual says of the commands that print something: once the
  tasks still queued finish when they are polled, and nothing else is registered, every further turn of
  \<^verbatim>\<open>run_forever\<close> finds nothing to do, waits for one second and starts again. No panic ends it either.
\<close>

theorem finished_program_keeps_waiting:
  assumes "at_rest live rt" and "\<forall>t. poll t = (False, [])" and "timeout_ok 1000"
    and "\<forall>(_, _, answer) \<in> set turns. \<exists>ready. answer = Some (\<lambda>fd. Some (ready fd))"
  shows "\<exists>rt'. run_forever timeout_ok pipe_fd poll turns rt = (replicate (length turns) 1000, Done rt') \<and>
    (turns \<noteq> [] \<longrightarrow> at_rest {} rt')"
  using assms(1,4)
proof (induction turns arbitrary: rt live)
  case Nil
  then show ?case by simp
next
  case (Cons turn turns)
  obtain now1 now2 answer where turn: "turn = (now1, now2, answer)" by (cases turn)
  then obtain ready where "answer = Some (\<lambda>fd. Some (ready fd))" using Cons.prems(2) by auto
  then obtain rt1 where one: "run_turn timeout_ok pipe_fd now1 poll now2 answer rt = (1000, Done rt1)" "at_rest {} rt1"
    using rest_turn [of live rt poll timeout_ok, OF Cons.prems(1) assms(2,3)] by blast
  then obtain rt' where "run_forever timeout_ok pipe_fd poll turns rt1 = (replicate (length turns) 1000, Done rt')"
      "turns \<noteq> [] \<longrightarrow> at_rest {} rt'"
    using Cons.IH [of "{}" rt1] Cons.prems(2) by auto
  then show ?case using one by (cases turns) (auto simp: turn)
qed

theorem finished_program_keeps_waiting_witness:
  "\<exists>rt'. run_forever (\<lambda>n. - 1 \<le> n) 3 (\<lambda>_. (False, [])) (replicate 5 (0, 0, Some (\<lambda>_. Some False))) sleepy =
    (replicate 5 1000, Done rt') \<and> at_rest {} rt'"
proof -
  have "at_rest {7} sleepy" by (simp add: at_rest_def sleepy_def SleepStore_new_def)
  then show ?thesis
    using finished_program_keeps_waiting [of "{7}" sleepy "\<lambda>_. (False, [])" "\<lambda>n. - 1 \<le> n"
        "replicate 5 (0, 0, Some (\<lambda>_. Some False))" 3] by auto
qed

end
