(* ===== verification/Background.thy ===== *)
theory Background
  imports Node_Setup
begin

text \<open>
  The endless background tasks of a node: cleaning the senders and announcing the node's name and addresses in
  \<^verbatim>\<open>rust/src/main.rs\<close>, and dialling and listening again in \<^verbatim>\<open>rust/src/legacy_tcp.rs\<close>. All of them do something,
  draw a delay between five and ten seconds, and sleep. Times are in nanoseconds. A run of a task is given by
  one entry per turn: how much time the work of the turn took and the executor woke the task late, and the
  state in which the shared random generator was found when the delay was drawn.
\<close>

section \<open>The delay\<close>

text \<open>
  Rounding to a 53-bit significand, ties to even. The numbers of \<^verbatim>\<open>5.0 + uniform() * 5.0\<close> are multiples of
  \<open>1 / 2 ^ 64\<close>, so that every operation on \<^verbatim>\<open>f64\<close> is one on integers, scaled by \<open>2 ^ 64\<close>, followed by rounding.
\<close>

definition round53 :: "nat \<Rightarrow> nat" where
  "round53 n =
    (let k = floorlog 2 n - 53;
         q = n div 2 ^ k;
         r = n mod 2 ^ k
     in if k = 0 then n
        else if 2 * r > 2 ^ k \<or> (2 * r = 2 ^ k \<and> odd q) then (q + 1) * 2 ^ k
        else q * 2 ^ k)"

text \<open>\<^verbatim>\<open>Duration::from_secs_f64\<close> in nanoseconds: to the nearest, ties to even.\<close>

definition duration_nanos :: "nat \<Rightarrow> nat" where
  "duration_nanos secs =
    (let n = secs * 10 ^ 9;
         q = n div 2 ^ 64;
         r = n mod 2 ^ 64
     in if 2 * r > 2 ^ 64 \<or> (2 * r = 2 ^ 64 \<and> odd q) then q + 1 else q)"

definition random_delay :: "Rng \<Rightarrow> nat \<times> Rng" where
  "random_delay r =
    (let (x, r) = rng_u64 r;
         uniform = f64_of_u64 x;
         delay = round53 (5 * 2 ^ 64 + round53 (uniform * 5))
     in (duration_nanos delay, r))"

section \<open>The tasks\<close>

type_synonym turns = "(nat \<times> Rng) list"

text \<open>What a task does, with the times at which it does it.\<close>

fun background :: "(nat \<Rightarrow> 'm) \<Rightarrow> turns \<Rightarrow> nat \<Rightarrow> (nat \<times> 'm) list" where
  "background work [] now = []"
| "background work ((late, rng) # ts) now =
    (now, work now) # background work ts (now + late + fst (random_delay rng))"

text \<open>\<^verbatim>\<open>millis\<close>, for a clock that counts nanoseconds since the epoch.\<close>

definition millis :: "nat \<Rightarrow> u64" where
  "millis now = of_nat (now div 1000000)"

definition clean_task :: "turns \<Rightarrow> nat \<Rightarrow> (nat \<times> AllSendersMessage) list" where
  "clean_task = background (\<lambda>_. clean_broken_senders)"

definition announce_name_task :: "bytes \<Rightarrow> turns \<Rightarrow> nat \<Rightarrow> (nat \<times> AllSendersMessage) list" where
  "announce_name_task node_name = background (\<lambda>now. send_all (name_announcement (millis now) node_name))"

definition announce_ipv4_task :: "bytes \<Rightarrow> turns \<Rightarrow> nat \<Rightarrow> (nat \<times> AllSendersMessage) list" where
  "announce_ipv4_task addr = background (\<lambda>now. send_all (ipv4_announcement (millis now) addr))"

text \<open>
  The loops around \<^verbatim>\<open>connect_impl\<close> and \<^verbatim>\<open>listener_impl\<close>: an attempt starts whatever became of the last one. The
  work of a turn is the time until the attempt ended.
\<close>

datatype attempt = Connect_Impl string u16 bytes | Listener_Impl u16 "bytes list"

definition create_connection :: "string \<Rightarrow> u16 \<Rightarrow> bytes \<Rightarrow> turns \<Rightarrow> nat \<Rightarrow> (nat \<times> attempt) list" where
  "create_connection host port key = background (\<lambda>_. Connect_Impl host port key)"

definition listener :: "u16 \<Rightarrow> bytes list \<Rightarrow> turns \<Rightarrow> nat \<Rightarrow> (nat \<times> attempt) list" where
  "listener port keys = background (\<lambda>_. Listener_Impl port keys)"

section \<open>Rounding\<close>

text \<open>The conversion of the generator's integers is the same rounding.\<close>

lemma f64_of_u64_round53: "f64_of_u64 x = round53 (unat x)"
  by (simp add: f64_of_u64_def round53_def Let_def)

text \<open>Rounding does not cross a number on the grid it rounds to.\<close>

lemma round53_between:
  assumes "2 ^ (floorlog 2 n - 53) dvd m"
  shows "n \<le> m \<Longrightarrow> round53 n \<le> m" and "m \<le> n \<Longrightarrow> m \<le> round53 n"
proof -
  let ?g = "2 ^ (floorlog 2 n - 53) :: nat"
  obtain c where m: "m = c * ?g" using assms by (metis dvdE mult.commute)
  have n: "n div ?g * ?g + n mod ?g = n" by (rule div_mult_mod_eq)
  show "m \<le> round53 n" if "m \<le> n"
  proof -
    have "c \<le> n div ?g" using that by (simp add: m less_eq_div_iff_mult_less_eq)
    then have "m \<le> n div ?g * ?g" by (simp add: m)
    then show ?thesis using that unfolding round53_def Let_def by auto
  qed
  show "round53 n \<le> m" if le: "n \<le> m"
  proof (cases "n mod ?g = 0")
    case True
    then show ?thesis using le n unfolding round53_def Let_def by auto
  next
    case False
    then have "n div ?g * ?g < m" using le n by linarith
    then have "n div ?g < c" by (simp add: m)
    then have "(n div ?g + 1) * ?g \<le> m" unfolding m by (intro mult_right_mono) auto
    moreover have "n div ?g * ?g \<le> m" using \<open>n div ?g * ?g < m\<close> by simp
    ultimately show ?thesis using le unfolding round53_def Let_def by auto
  qed
qed

lemma grid_dvd: "n < 2 ^ 100 \<Longrightarrow> 2 ^ (floorlog 2 n - 53) dvd (a * 2 ^ 64 :: nat)"
proof -
  assume "n < 2 ^ 100"
  then have "floorlog 2 n \<le> 100" by (simp add: floorlog_le_iff)
  then have "floorlog 2 n - 53 \<le> 64" by simp
  then show ?thesis by (intro dvd_mult le_imp_power_dvd)
qed

lemma round53_scaled:
  assumes "n < 2 ^ 100"
  shows "n \<le> a * 2 ^ 64 \<Longrightarrow> round53 n \<le> a * 2 ^ 64" and "a * 2 ^ 64 \<le> n \<Longrightarrow> a * 2 ^ 64 \<le> round53 n"
  using round53_between [OF grid_dvd [OF assms]] by auto

lemma delay_scaled:
  assumes "u \<le> 2 ^ 64"
  shows "5 * 2 ^ 64 \<le> round53 (5 * 2 ^ 64 + round53 (u * 5)) \<and>
    round53 (5 * 2 ^ 64 + round53 (u * 5)) \<le> 10 * 2 ^ 64"
proof -
  have u: "u * 5 \<le> 5 * 2 ^ 64" "u * 5 < 2 ^ 100" using assms by simp_all
  then have "round53 (u * 5) \<le> 5 * 2 ^ 64" using round53_scaled(1) [of "u * 5" 5] by simp
  then have b: "5 * 2 ^ 64 + round53 (u * 5) \<le> 10 * 2 ^ 64" "5 * 2 ^ 64 + round53 (u * 5) < 2 ^ 100" by simp_all
  show ?thesis
    using round53_scaled [OF b(2), of 5] round53_scaled [OF b(2), of 10] b(1) by simp
qed

lemma div_less_top: "n div d < c" if "n \<le> c * d" and "n mod d \<noteq> 0" for n d c :: nat
proof (rule ccontr)
  assume "\<not> n div d < c"
  then have "c * d \<le> n div d * d" by simp
  then show False using that div_mult_mod_eq [of n d] by linarith
qed

lemma duration_nanos_bounds:
  assumes "5 * 2 ^ 64 \<le> s" and "s \<le> 10 * 2 ^ 64"
  shows "5 * 10 ^ 9 \<le> duration_nanos s \<and> duration_nanos s \<le> 10 * 10 ^ 9"
proof -
  let ?n = "s * 10 ^ 9 :: nat"
  have lo: "5 * 10 ^ 9 \<le> ?n div 2 ^ 64"
    using assms(1) by (simp add: less_eq_div_iff_mult_less_eq)
  have hi: "?n \<le> 10 * 10 ^ 9 * 2 ^ 64" using assms(2) by simp
  then have "?n div 2 ^ 64 \<le> 10 * 10 ^ 9" using div_le_mono [OF hi, of "2 ^ 64"] by simp
  moreover have "?n div 2 ^ 64 < 10 * 10 ^ 9" if "?n mod 2 ^ 64 \<noteq> 0"
    using div_less_top [OF hi that] .
  ultimately show ?thesis using lo unfolding duration_nanos_def Let_def by auto
qed

lemma random_delay_bounds: "5 * 10 ^ 9 \<le> fst (random_delay r) \<and> fst (random_delay r) \<le> 10 * 10 ^ 9"
proof -
  have "fst (random_delay r) =
      duration_nanos (round53 (5 * 2 ^ 64 + round53 (f64_of_u64 (fst (rng_u64 r)) * 5)))"
    by (simp add: random_delay_def Let_def split_beta)
  then show ?thesis using duration_nanos_bounds delay_scaled [OF f64_of_u64_le] by simp
qed

section \<open>Properties\<close>

text \<open>
  C37. The delay of the background tasks, computed in floating point from a random integer, is always at least five
  and at most ten seconds, and drawing it advances the generator by one permutation.
\<close>

theorem delay_within_bounds:
  "5 * 10 ^ 9 \<le> fst (random_delay r) \<and> fst (random_delay r) \<le> 10 * 10 ^ 9 \<and>
   rng_state (snd (random_delay r)) = permute (rng_state r)"
  using random_delay_bounds [of r]
  by (simp add: random_delay_def rng_u64_def Rng_u64_def Let_def)

lemma background_work: "(t, m) \<in> set (background work ts now) \<Longrightarrow> m = work t"
  by (induction work ts now rule: background.induct) auto

lemma background_after: "(t, m) \<in> set (background work ts now) \<Longrightarrow> now \<le> t"
  by (induction work ts now rule: background.induct) auto

text \<open>At every moment of a run the last turn began at most ten seconds and the lateness of a turn ago.\<close>

lemma background_recent:
  assumes "(t', m') \<in> set (background work ts now)" and "now \<le> T" and "T \<le> t'"
    and "\<forall>(late, _) \<in> set ts. late \<le> slack"
  shows "\<exists>t. (t, work t) \<in> set (background work ts now) \<and> t \<le> T \<and> T - t \<le> slack + 10 * 10 ^ 9 \<and>
    (\<forall>(u, _) \<in> set (background work ts now). u \<le> T \<longrightarrow> u \<le> t)"
  using assms
proof (induction work ts now rule: background.induct)
  case (1 work now)
  then show ?case by simp
next
  case (2 work late rng ts now)
  let ?next = "now + late + fst (random_delay rng)"
  have gap: "now < ?next" "?next \<le> now + slack + 10 * 10 ^ 9"
    using random_delay_bounds [of rng] "2.prems"(4) by auto
  show ?case
  proof (cases "T < ?next")
    case True
    then have "u = now" if "(u, m) \<in> set (background work ((late, rng) # ts) now)" "u \<le> T" for u m
      using that background_after [of u m work ts ?next] by auto
    then show ?thesis using "2.prems"(2) True gap by (intro exI [of _ now]) fastforce
  next
    case False
    then have "(t', m') \<in> set (background work ts ?next)" using "2.prems"(1,3) gap(1) by auto
    then obtain t where t: "(t, work t) \<in> set (background work ts ?next)" "t \<le> T" "T - t \<le> slack + 10 * 10 ^ 9"
        "\<forall>(u, _) \<in> set (background work ts ?next). u \<le> T \<longrightarrow> u \<le> t"
      using "2.IH" "2.prems" False by fastforce
    then show ?thesis using background_after [OF t(1)] gap(1) by (intro exI [of _ t]) auto
  qed
qed

lemma millis_diff:
  assumes "t \<le> T" and "T - t \<le> n * 1000000" and "T div 1000000 < 2 ^ 64"
  shows "unat (millis T) - unat (millis t) \<le> n \<and> unat (millis t) \<le> unat (millis T)"
proof -
  have le: "t div 1000000 \<le> T div 1000000" using assms(1) by (rule div_le_mono)
  then have "unat (millis t) = t div 1000000" "unat (millis T) = T div 1000000"
    using assms(3) by (simp_all add: millis_def unsigned_of_nat take_bit_nat_eq_self)
  moreover have "T \<le> t + n * 1000000" using assms(1,2) by simp
  then have "T div 1000000 \<le> (t + n * 1000000) div 1000000" by (rule div_le_mono)
  ultimately show ?thesis using le by simp
qed

lemma millis_close:
  assumes "x \<le> y + 180 * 10 ^ 9" and "y \<le> x + 180 * 10 ^ 9" and "x div 1000000 < 2 ^ 64" and "y div 1000000 < 2 ^ 64"
  shows "abs_diff (millis x) (millis y) \<le> ignore_after"
proof (cases "x \<le> y")
  case True
  then have "unat (millis y) - unat (millis x) \<le> 180000 \<and> unat (millis x) \<le> unat (millis y)"
    using millis_diff [OF True, of 180000] assms by simp
  then show ?thesis by (auto simp: abs_diff_def ignore_after_def word_le_nat_alt unat_sub)
next
  case False
  then have "unat (millis x) - unat (millis y) \<le> 180000 \<and> unat (millis y) \<le> unat (millis x)"
    using millis_diff [of y x 180000] assms by simp
  then show ?thesis by (auto simp: abs_diff_def ignore_after_def word_le_nat_alt unat_sub)
qed

text \<open>
  C34. The announcements of a running node stay fresh. Suppose that no turn of the announcing task is later than
  \<open>slack\<close>, that the clock of another node shows \<open>T'\<close> when that of the node shows \<open>T\<close>, no further apart than \<open>skew\<close>,
  and that \<open>slack\<close> and \<open>skew\<close> together are at most 170 seconds, which with the delay of at most ten seconds makes the
  three minutes after which packets are ignored. Then, at every moment of a run, the last announcement handed to the
  dispatcher carries the node's name and is accepted by the other node, unless it has seen it already.
\<close>

theorem announcements_stay_fresh:
  assumes "(t', m') \<in> set (announce_name_task name ts start)" and "start \<le> T" and "T \<le> t'"
    and "\<forall>(late, _) \<in> set ts. late \<le> slack" and "slack + skew \<le> 170 * 10 ^ 9"
    and "T' \<le> T + skew" and "T \<le> T' + skew" and "T div 1000000 < 2 ^ 64" and "T' div 1000000 < 2 ^ 64"
  shows "\<exists>t. (t, SendToAll (name_announcement (millis t) name)) \<in> set (announce_name_task name ts start) \<and> t \<le> T \<and>
    (\<forall>(u, m) \<in> set (announce_name_task name ts start). u \<le> T \<longrightarrow> u \<le> t) \<and>
    (\<forall>fx node. \<not> seen_contains fx (seen_packets node) (name_announcement (millis t) name) \<longrightarrow>
      accepts fx (millis T') (name_announcement (millis t) name) node)"
proof -
  obtain t where t: "(t, SendToAll (name_announcement (millis t) name)) \<in> set (announce_name_task name ts start)"
      "t \<le> T" "T - t \<le> slack + 10 * 10 ^ 9"
      "\<forall>(u, m) \<in> set (announce_name_task name ts start). u \<le> T \<longrightarrow> u \<le> t"
    using background_recent [OF assms(1) [unfolded announce_name_task_def] assms(2-4)]
    unfolding announce_name_task_def send_all_def by blast
  have "t div 1000000 < 2 ^ 64" using div_le_mono [OF t(2), of 1000000] assms(8) by simp
  then have "abs_diff (millis T') (millis t) \<le> ignore_after"
    using t(2,3) assms(5-9) by (intro millis_close) auto
  then have "accepts fx (millis T') (name_announcement (millis t) name) node"
    if "\<not> seen_contains fx (seen_packets node) (name_announcement (millis t) name)" for fx node
    using that by (simp add: accepts_def) (simp add: name_announcement_def packet_ms_def)
  then show ?thesis using t by blast
qed

text \<open>Three seconds into a run, for a node whose clock is a second ahead.\<close>

theorem announcements_stay_fresh_witness:
  "\<exists>t. (t, SendToAll (name_announcement (millis t) [0x72])) \<in>
      set (announce_name_task [0x72] [(0, Rng_new), (9, Rng_new)] 0) \<and> t \<le> 3000000000 \<and>
    accepts (\<lambda>_. 0) (millis 4000000000) (name_announcement (millis t) [0x72]) sample_node"
proof -
  let ?d = "fst (random_delay Rng_new)"
  let ?run = "announce_name_task [0x72] [(0, Rng_new), (9, Rng_new)] 0"
  have later: "(?d, send_all (name_announcement (millis ?d) [0x72])) \<in> set ?run"
    by (simp add: announce_name_task_def)
  have "3000000000 \<le> ?d" using random_delay_bounds [of Rng_new] by simp
  from announcements_stay_fresh [OF later _ this, of 9 "10 ^ 9" 4000000000]
  obtain t where t: "(t, SendToAll (name_announcement (millis t) [0x72])) \<in> set ?run" "t \<le> 3000000000"
      "\<not> seen_contains (\<lambda>_. 0) (seen_packets sample_node) (name_announcement (millis t) [0x72]) \<Longrightarrow>
       accepts (\<lambda>_. 0) (millis 4000000000) (name_announcement (millis t) [0x72]) sample_node"
    by auto
  moreover have "\<not> seen_contains (\<lambda>_. 0) (seen_packets sample_node) (name_announcement (millis t) [0x72])"
    by (simp add: seen_contains_def sample_node_def SeenPackets_new_def)
  ultimately show ?thesis by blast
qed

end
