(* ===== verification/Link_Progress.thy ===== *)
theory Link_Progress
  imports Link_Session
begin

text \<open>
  Progress of a connection: from every state of two connected nodes in which both ends are up and the socket of
  the sending end takes the bytes, turns of the sending task, TCP carrying the bytes over, and turns of the
  receiving task deliver everything that was posted.
\<close>

section \<open>The receiving end\<close>

text \<open>With all frames arrived, every turn delivers the next packet.\<close>

lemma recv_turns_receiving:
  assumes "lk_open dst" and "lk_recv dst = Receiving mk g" and "lk_in dst = fst (seal_frames mk g ps)"
    and "fit_u16 ps" and "length ps \<le> k"
  shows "lk_delivered ((recv_turn ^^ k) dst) = lk_delivered dst @ ps"
  using assms
proof (induction k arbitrary: dst g ps)
  case 0
  then show ?case by simp
next
  case (Suc k)
  have frame: "recv_frame mk g (fst (seal_frames mk g ps)) =
    (case ps of
       [] \<Rightarrow> Inl ReadFailed
     | p # qs \<Rightarrow> Inr (p, snd (seal_frame mk g p), fst (seal_frames mk (snd (seal_frame mk g p)) qs)))"
    using recv_frame_pending [OF Suc.prems(4) cut_frame_Nil] by (simp split: list.split)
  have shift: "(recv_turn ^^ Suc k) dst = (recv_turn ^^ k) (recv_turn dst)" by (simp only: funpow_Suc_right o_apply)
  show ?case
  proof (cases ps)
    case Nil
    then have "recv_turn dst = dst" using Suc.prems frame by (simp add: recv_turn_def)
    then show ?thesis using Suc.IH [OF Suc.prems(1-4)] Nil by (simp only: shift) simp
  next
    case (Cons p qs)
    let ?d = "dst\<lparr>lk_recv := Receiving mk (snd (seal_frame mk g p)),
      lk_in := fst (seal_frames mk (snd (seal_frame mk g p)) qs), lk_delivered := lk_delivered dst @ [p]\<rparr>"
    have "recv_turn dst = ?d" using Suc.prems(1-3) frame Cons by (simp add: recv_turn_def)
    moreover have "lk_delivered ((recv_turn ^^ k) ?d) = lk_delivered ?d @ qs"
      using Suc.prems Cons by (intro Suc.IH [of ?d "snd (seal_frame mk g p)"]) auto
    ultimately show ?thesis using Cons by (simp only: shift) simp
  qed
qed

lemma recv_turns_expecting:
  assumes "lk_open dst" and "expects (lk_recv dst) (lk_in dst) mk g (fst (seal_frames mk g ps))"
    and "fit_u16 ps" and "length ps < k"
  shows "lk_delivered ((recv_turn ^^ k) dst) = lk_delivered dst @ ps"
proof (cases "lk_recv dst")
  case (Receiving mk' g')
  then show ?thesis using assms recv_turns_receiving [of dst mk g ps k] by simp
next
  case (AwaitHello key)
  then obtain iv where iv: "length iv = 16" "mk = mac_key key iv" "g = KeystreamGen_new (enc_key key iv)"
      and stream: "lk_in dst = iv @ keyfinder key iv @ fst (seal_frames mk g ps)"
    using assms(2) by auto
  obtain j where k: "k = Suc j" using assms(4) by (cases k) auto
  let ?d = "dst\<lparr>lk_recv := Receiving mk g, lk_in := fst (seal_frames mk g ps)\<rparr>"
  have "recv_hello key (lk_in dst) = Inr (mk, g, fst (seal_frames mk g ps))"
    unfolding stream using iv by (simp add: recv_hello_def read_exact_append keyfinder_def)
  then have "recv_turn dst = ?d" using assms(1) AwaitHello by (simp add: recv_turn_def)
  moreover have "lk_delivered ((recv_turn ^^ j) ?d) = lk_delivered ?d @ ps"
    using assms k by (intro recv_turns_receiving) auto
  ultimately show ?thesis unfolding k by (simp only: funpow_Suc_right o_apply) simp
qed

section \<open>The sending end\<close>

text \<open>The bytes the frames of some packets take.\<close>

definition frame_bytes :: "bytes list \<Rightarrow> nat" where
  "frame_bytes ps = sum_list (map (\<lambda>p. length p + 18) (nonempty ps))"

lemma send_turns:
  assumes "lk_open src" and "frame_bytes (lk_outbox src) \<le> room (lk_writer src)"
    and "length (lk_outbox src) \<le> k"
  shows "lk_open ((send_turn ^^ k) src) \<and> lk_outbox ((send_turn ^^ k) src) = []"
  using assms
proof (induction k arbitrary: src)
  case 0
  then show ?case by simp
next
  case (Suc k)
  have "lk_open (send_turn src) \<and> frame_bytes (lk_outbox (send_turn src)) \<le> room (lk_writer (send_turn src)) \<and>
      length (lk_outbox (send_turn src)) \<le> k"
    using Suc.prems
    by (cases "lk_outbox src")
      (auto simp: send_turn_def write_all_def frame_bytes_def split_beta Let_def split: if_splits)
  then show ?case using Suc.IH [of "send_turn src"] by (simp only: funpow_Suc_right o_apply)
qed

section \<open>Delivery\<close>

lemma net_run_append: "net_run (es @ fs) n = net_run fs (net_run es n)"
  by (simp add: net_run_def)

lemma net_run_sends: "net_run (replicate k (SendTurn s)) n = n(s := (send_turn ^^ k) (n s))"
  by (induction k arbitrary: n) (simp_all add: net_run_def funpow_swap1)

lemma net_run_recvs: "net_run (replicate k (RecvTurn s)) n = n(s := (recv_turn ^^ k) (n s))"
  by (induction k arbitrary: n) (simp_all add: net_run_def funpow_swap1)

lemma posted_turns: "posted s' (replicate k (SendTurn s)) = []" "posted s' (replicate k (RecvTurn s)) = []"
  by (induction k) simp_all

text \<open>Once nothing is left to send, carrying all bytes over lets the other end receive everything.\<close>

lemma carry_and_receive:
  assumes "dir_inv E src dst" and "lk_open src" and "lk_open dst" and "lk_outbox src = []"
    and "length E < k"
  shows "lk_delivered ((recv_turn ^^ k) (snd (carry (length (wire (lk_writer src))) src dst))) = E"
proof -
  let ?d = "snd (carry (length (wire (lk_writer src))) src dst)"
  obtain mk g ps where ex: "expects (lk_recv dst) (lk_in dst @ wire (lk_writer src)) mk g (fst (seal_frames mk g ps))"
      and fit: "fit_u16 ps" and E: "E = lk_delivered dst @ ps"
    using assms(1,2,4) unfolding dir_inv_def by auto
  have "lk_delivered ((recv_turn ^^ k) ?d) = lk_delivered ?d @ ps"
    using ex fit assms(3,5) E by (intro recv_turns_expecting [of ?d mk g]) (simp_all add: carry_def)
  then show ?thesis by (simp add: E carry_def)
qed

lemma session_delivers_all:
  assumes "establish sys1 sys2 key keys room1 room2 rng1 rng2 = Inr n"
    and "no_collision keys key (fst (gen_iv rng1))"
    and "\<forall>s. \<forall>p \<in> set (posted s events). length p \<le> 65535"
    and "lk_open (net_run events n s)" and "lk_open (net_run events n (other s))"
    and "frame_bytes (lk_outbox (net_run events n s)) \<le> room (lk_writer (net_run events n s))"
  shows "\<exists>more. set more \<subseteq> {SendTurn s, RecvTurn (other s)} \<union> range (Carry s) \<and>
    lk_delivered (net_run (events @ more) n (other s)) = posted s events"
proof -
  let ?x = "net_run events n"
  define a where "a = length (lk_outbox (?x s))"
  define sends where "sends = replicate a (SendTurn s)"
  let ?y = "net_run (events @ sends) n"
  have y: "?y = ?x(s := (send_turn ^^ a) (?x s))" by (simp add: net_run_append sends_def net_run_sends)
  have src: "lk_open (?y s)" "lk_outbox (?y s) = []"
    using send_turns [OF assms(4,6), of a] by (simp_all add: y a_def)
  have dst: "lk_open (?y (other s))" using assms(5) by (simp add: y)
  have posted: "posted t (events @ sends) = posted t events" for t
    by (simp add: posted_append sends_def posted_turns)
  have "net_inv (\<lambda>t. posted t (events @ sends)) ?y"
    using net_inv_run [OF establish_inv [OF assms(1,2)], of "events @ sends"] assms(3) by (simp add: posted)
  then have d: "dir_inv (posted s events) (?y s) (?y (other s))" by (simp add: net_inv_def posted)
  let ?w = "length (wire (lk_writer (?y s)))" and ?k = "Suc (length (posted s events))"
  let ?more = "sends @ [Carry s ?w] @ replicate ?k (RecvTurn (other s))"
  have "net_run (events @ ?more) n (other s) = (recv_turn ^^ ?k) (snd (carry ?w (?y s) (?y (other s))))"
    using net_run_append [of "events @ sends" "[Carry s ?w] @ replicate ?k (RecvTurn (other s))" n]
    by (simp only: append.assoc net_run_append [of "[Carry s ?w]"] net_run_recvs)
      (simp add: net_run_def split_beta)
  then have "lk_delivered (net_run (events @ ?more) n (other s)) = posted s events"
    using carry_and_receive [OF d src(1) dst src(2), of ?k] by simp
  moreover have "set ?more \<subseteq> {SendTurn s, RecvTurn (other s)} \<union> range (Carry s)"
    by (auto simp: sends_def)
  ultimately show ?thesis by blast
qed

text \<open>
  C5. A connection delivers what was posted: after any events at the end of which both ends are still up, if the
  socket takes the frames of the packets that wait to be sent, then turns of the sending task, TCP carrying
  bytes over, and turns of the receiving task lead to a state in which exactly the non-empty packets posted at
  one end have been delivered at the other, in order.
\<close>

theorem session_completes:
  assumes "establish sys1 sys2 key keys room1 room2 rng1 rng2 = Inr n"
    and "no_collision keys key (fst (gen_iv rng1))"
    and "\<forall>s. \<forall>p \<in> set (posted s events). length p \<le> 65535"
    and "lk_open (net_run events n s)" and "lk_open (net_run events n (other s))"
    and "frame_bytes (lk_outbox (net_run events n s)) \<le> room (lk_writer (net_run events n s))"
  shows "\<exists>more. set more \<subseteq> {SendTurn s, RecvTurn (other s)} \<union> range (Carry s) \<and>
    lk_delivered (net_run (events @ more) n (other s)) = posted s events"
  using assms by (rule session_delivers_all)

text \<open>A fresh connection has nothing to send and has used 32 bytes of the dialler's socket.\<close>

lemma send_hello_uses: "send_hello key iv w = Inr w' \<Longrightarrow> length iv = 16 \<Longrightarrow> room w' = room w - 32"
  by (auto simp: send_hello_def write_all_def split: if_splits)

lemma establish_fresh:
  assumes "establish sys1 sys2 key keys room1 room2 rng1 rng2 = Inr n"
  shows "lk_open (n s) \<and> lk_outbox (n s) = [] \<and> room (lk_writer (n Dialer)) = room1 - 32"
proof -
  from assms obtain w where "send_hello key (fst (gen_iv rng1)) \<lparr>wire = [], room = room1\<rparr> = Inr w"
      and d: "n Dialer = open_link 0 key (fst (gen_iv rng1)) (w\<lparr>wire := []\<rparr>) (AwaitHello key) []"
    by (auto simp: establish_def connect_impl_def bind_result_Inr split_beta open_link_def split: sum.splits)
  then have "room (lk_writer (n Dialer)) = room1 - 32" using send_hello_uses by fastforce
  moreover from assms obtain a m r b m2 r2
    where "connect_impl sys1 0 key \<lparr>wire = [], room = room1\<rparr> rng1 = (Inr (a, m), r)" and n: "n Acceptor = b"
      and b: "handle_connection sys2 1 keys (wire (lk_writer a)) \<lparr>wire = [], room = room2\<rparr> rng2 = (Inr (b, m2), r2)"
    by (auto simp: establish_def bind_result_Inr split_beta prod_eq_iff)
  from b have "lk_open b \<and> lk_outbox b = []" by (rule handle_connection_Inr) (simp add: open_link_def)
  ultimately show ?thesis using d n by (cases s) (simp_all add: open_link_def)
qed

theorem session_completes_witness:
  "\<exists>n more. establish (\<lambda>c. True) (\<lambda>c. True) [1, 2] [[1, 2]] 64 64 Rng_new Rng_new = Inr n \<and>
    lk_delivered (net_run ([Post Dialer [5]] @ more) n Acceptor) = [[5]]"
proof -
  have k: "no_collision [[1, 2]] [1, 2] (fst (gen_iv Rng_new))" by (simp add: no_collision_def)
  obtain n where n: "establish (\<lambda>c. True) (\<lambda>c. True) [1, 2] [[1, 2]] 64 64 Rng_new Rng_new = Inr n"
    using establish_Inr [OF _ _ _ _ _ k refl refl, of "\<lambda>c. True" "\<lambda>c. True" 64 64] by auto
  note fresh = establish_fresh [OF n]
  have "\<exists>more. set more \<subseteq> {SendTurn Dialer, RecvTurn (other Dialer)} \<union> range (Carry Dialer) \<and>
      lk_delivered (net_run ([Post Dialer [5]] @ more) n (other Dialer)) = posted Dialer [Post Dialer [5]]"
    by (rule session_completes [OF n k]) (use fresh in \<open>simp_all add: net_run_def enqueue_def frame_bytes_def\<close>)
  then show ?thesis using n by auto
qed

end
