(* ===== verification/Executor_Threads.thy ===== *)
theory Executor_Threads
  imports Executor
begin

text \<open>
  The loop of \<^verbatim>\<open>run_forever\<close> interleaved with the threads that wake tasks. The executor thread is a state machine
  over the phases of a turn; a wake is three steps, setting the flag of the task, entering the task in the queue and
  poking the pipe, and any other steps may come in between. This is where a wake-up could be lost or the executor could sleep although a
  task is waiting; the theorems exclude both.
\<close>

text \<open>
  The phases of a turn: the timers run and the queue is emptied into \<^verbatim>\<open>task_vec\<close>; tasks are polled one after the
  other; \<^verbatim>\<open>poll\<close> is called, with a timeout that is not zero if the queue was found empty; the wake pipe is read
  empty.
\<close>

datatype phase = Collecting | Between | Polling task | In_Poll bool | Serving

text \<open>\<open>claimed\<close> are the tasks whose flag a thread has set and not yet entered in the queue, \<open>poking\<close> those entered
  before the poke of the pipe.\<close>

record system = executor +
  phase :: phase
  claimed :: "task list"
  poking :: "task list"

text \<open>
  What an observer sees of a step: a thread calls the waker of a task, a task spawns another, the poll of a task
  begins, or \<^verbatim>\<open>poll\<close> returns by itself. All other steps finish what is under way.
\<close>

datatype label = Internal | Wakes task | Spawns task | Polls task | Elapses

text \<open>The \<^verbatim>\<open>compare_exchange\<close> of a wake: nothing happens if the flag is set already.\<close>

definition thread_claim :: "task \<Rightarrow> system \<Rightarrow> system" where
  "thread_claim t x =
    (if scheduled x t then x else x\<lparr>scheduled := (scheduled x)(t := True), claimed := claimed x @ [t]\<rparr>)"

text \<open>The rest of the wake: the task is entered in the queue, then the pipe is poked.\<close>

definition thread_push :: "task \<Rightarrow> system \<Rightarrow> system" where
  "thread_push t x = x\<lparr>task_queue := task_queue x @ [t], poking := poking x @ [t]\<rparr>"

inductive sys_step :: "system \<Rightarrow> label \<Rightarrow> system \<Rightarrow> bool" where
  step_claim: "sys_step x (Wakes t) (thread_claim t x)"
| step_push: "claimed x = ts @ t # us \<Longrightarrow> sys_step x Internal ((thread_push t x)\<lparr>claimed := ts @ us\<rparr>)"
| step_poke: "poking x = ts @ t # us \<Longrightarrow> sys_step x Internal ((poke x)\<lparr>poking := ts @ us\<rparr>)"
| step_pop: "phase x = Collecting \<Longrightarrow> task_queue x \<noteq> [] \<Longrightarrow> sys_step x Internal (pop_task x)"
| step_collected: "phase x = Collecting \<Longrightarrow> task_queue x = [] \<Longrightarrow> sys_step x Internal (x\<lparr>phase := Between\<rparr>)"
| step_begin: "phase x = Between \<Longrightarrow> task_vec x = t # ts \<Longrightarrow>
    sys_step x (Polls t) ((begin_poll t x)\<lparr>phase := Polling t\<rparr>)"
| step_spawn: "phase x = Polling u \<Longrightarrow> \<not> scheduled x t \<Longrightarrow> \<not> future_slot x t \<Longrightarrow> t \<noteq> u \<Longrightarrow>
    sys_step x (Spawns t) (spawn t x)"
| step_end: "phase x = Polling t \<Longrightarrow> sys_step x Internal ((end_poll t pending x)\<lparr>phase := Between\<rparr>)"
| step_decide: "phase x = Between \<Longrightarrow> task_vec x = [] \<Longrightarrow>
    sys_step x Internal (x\<lparr>phase := In_Poll (task_queue x = [])\<rparr>)"
| step_return: "phase x = In_Poll may_block \<Longrightarrow> \<not> may_block \<or> 0 < pipe_level (exec_pipe x) \<Longrightarrow>
    sys_step x Internal (x\<lparr>phase := Serving\<rparr>)"
| step_elapse: "phase x = In_Poll may_block \<Longrightarrow> sys_step x Elapses (x\<lparr>phase := Serving\<rparr>)"
| step_read: "phase x = Serving \<Longrightarrow> pipe_get 2048 (exec_pipe x) = (Io_Ok (Suc n), p) \<Longrightarrow>
    sys_step x Internal (x\<lparr>exec_pipe := p\<rparr>)"
| step_served: "phase x = Serving \<Longrightarrow> pipe_get 2048 (exec_pipe x) = (Io_Again, p) \<Longrightarrow>
    sys_step x Internal (x\<lparr>exec_pipe := p, phase := Collecting\<rparr>)"

inductive_cases sys_stepE: "sys_step x l y"

inductive sys_run :: "system \<Rightarrow> label list \<Rightarrow> system \<Rightarrow> bool" where
  run_refl: "sys_run x [] x"
| run_step: "sys_run x ls y \<Longrightarrow> sys_step y l z \<Longrightarrow> sys_run x (ls @ [l]) z"

text \<open>The tasks polled in a run, in order.\<close>

fun polled :: "label list \<Rightarrow> task list" where
  "polled [] = []"
| "polled (Polls t # ls) = t # polled ls"
| "polled (_ # ls) = polled ls"

text \<open>\<^verbatim>\<open>run_main\<close> spawns the first task and starts the loop.\<close>

definition run_main :: "nat \<Rightarrow> task \<Rightarrow> system" where
  "run_main room t = executor.extend (spawn t (executor_init room)) \<lparr>phase = Collecting, claimed = [], poking = []\<rparr>"

lemma polled_append [simp]: "polled (ls @ ms) = polled ls @ polled ms"
  by (induction ls rule: polled.induct) auto

lemma run_single: "sys_step x l y \<Longrightarrow> sys_run x [l] y"
  using run_step [OF run_refl] by simp

lemma run_trans: "sys_run y ms z \<Longrightarrow> sys_run x ls y \<Longrightarrow> sys_run x (ls @ ms) z"
proof (induction rule: sys_run.induct)
  case (run_step y ms z l w)
  then show ?case using sys_run.run_step [of x "ls @ ms" z l w] by simp
qed simp

section \<open>The invariant\<close>

text \<open>The tasks that will be polled: those waiting, and those a thread is about to enter.\<close>

definition pending_tasks :: "system \<Rightarrow> task list" where
  "pending_tasks x = claimed x @ waiting x"

text \<open>
  A task is scheduled exactly if it is pending, and no task is pending twice. While \<^verbatim>\<open>poll\<close> may block, a task in the
  queue was entered after the queue had been found empty, so its pipe byte is there or on its way.
\<close>

definition sys_inv :: "system \<Rightarrow> bool" where
  "sys_inv x \<longleftrightarrow> distinct (pending_tasks x) \<and> (\<forall>t. scheduled x t \<longleftrightarrow> t \<in> set (pending_tasks x)) \<and>
    (\<forall>b. phase x = In_Poll b \<longrightarrow> task_vec x = [] \<and>
      (b \<longrightarrow> task_queue x = [] \<or> poking x \<noteq> [] \<or> 0 < pipe_level (exec_pipe x)))"

text \<open>The queue does not depend on the fields of the threads.\<close>

lemma waiting_update [simp]:
  "waiting (x\<lparr>phase := p\<rparr>) = waiting x" "waiting (x\<lparr>poking := q\<rparr>) = waiting x" "waiting (x\<lparr>exec_pipe := r\<rparr>) = waiting x"
  "waiting (x\<lparr>claimed := q\<rparr>) = waiting x" "waiting (thread_push t x) = waiting x @ [t]"
  "waiting (thread_claim t x) = waiting x"
  by (simp_all add: waiting_def thread_push_def thread_claim_def)

lemma phase_simps [simp]:
  "phase (task_push t x) = phase x" "phase (poke x) = phase x" "phase (pop_task x) = phase x"
  "phase (spawn t x) = phase x" "phase (thread_push t x) = phase x" "phase (thread_claim t x) = phase x"
  by (simp_all add: task_push_def poke_def pop_task_def spawn_def thread_push_def thread_claim_def)

lemma claimed_simps [simp]:
  "claimed (poke x) = claimed x" "claimed (pop_task x) = claimed x" "claimed (spawn t x) = claimed x"
  "claimed (begin_poll t x) = claimed x" "claimed (end_poll t b x) = claimed x"
  by (simp_all add: poke_def pop_task_def spawn_def begin_poll_def end_poll_def)

lemma push_simps [simp]:
  "scheduled (thread_push t x) = scheduled x" "task_vec (thread_push t x) = task_vec x"
  "poking (thread_push t x) = poking x @ [t]"
  by (simp_all add: thread_push_def)

lemma task_vec_simps [simp]:
  "task_vec (task_push t x) = task_vec x" "task_vec (poke x) = task_vec x"
  by (simp_all add: task_push_def poke_def)

lemma poke_pipe [simp]: "0 < pipe_level (exec_pipe (poke x))"
  using counted.put_readable by (simp add: poke_def)

lemma sys_inv_step: "sys_step x l y \<Longrightarrow> sys_inv x \<Longrightarrow> sys_inv y"
proof (induction rule: sys_step.induct)
  case (step_claim x t)
  then show ?case by (auto simp: sys_inv_def thread_claim_def pending_tasks_def waiting_def)
next
  case (step_begin x t ts)
  then show ?case by (auto simp: sys_inv_def pending_tasks_def waiting_def begin_poll_def)
qed (auto simp: sys_inv_def pending_tasks_def)

lemma sys_inv_run: "sys_run x ls y \<Longrightarrow> sys_inv x \<Longrightarrow> sys_inv y"
  by (induction rule: sys_run.induct) (auto dest: sys_inv_step)

lemma sys_inv_main: "sys_inv (run_main room t)"
  by (simp add: sys_inv_def run_main_def pending_tasks_def waiting_def executor.defs spawn_def executor_init_def)

section \<open>Order\<close>

text \<open>Every step takes the polled task off the front and adds at most at the end.\<close>

lemma step_fifo: "sys_step x l y \<Longrightarrow> \<exists>new. waiting x @ new = polled [l] @ waiting y"
proof (induction rule: sys_step.induct)
  case (step_begin x t ts)
  then show ?case by (simp add: waiting_def begin_poll_def)
qed auto

lemma run_fifo: "sys_run x ls y \<Longrightarrow> \<exists>new. waiting x @ new = polled ls @ waiting y"
proof (induction rule: sys_run.induct)
  case (run_refl x)
  then show ?case by simp
next
  case (run_step x ls y l z)
  obtain new where "waiting x @ new = polled ls @ waiting y" using run_step.IH by blast
  moreover obtain new' where "waiting y @ new' = polled [l] @ waiting z"
    using step_fifo [OF run_step.hyps(2)] by blast
  ultimately have "waiting x @ (new @ new') = polled (ls @ [l]) @ waiting z"
    by (metis append.assoc polled_append)
  then show ?case by blast
qed

lemma run_order:
  assumes "sys_run x ls y" and "i < length (waiting x)" and "i < length (polled ls)"
  shows "polled ls ! i = waiting x ! i"
proof -
  obtain new where "waiting x @ new = polled ls @ waiting y" using run_fifo [OF assms(1)] by blast
  then have "(waiting x @ new) ! i = (polled ls @ waiting y) ! i" by simp
  then show ?thesis using assms(2,3) by (simp add: nth_append)
qed

text \<open>Only the poll of a task clears its flag.\<close>

lemma step_scheduled: "sys_step x l y \<Longrightarrow> scheduled x t \<Longrightarrow> t \<notin> set (polled [l]) \<Longrightarrow> scheduled y t"
  by (induction rule: sys_step.induct) (auto simp: thread_claim_def)

lemma run_scheduled: "sys_run x ls y \<Longrightarrow> scheduled x t \<Longrightarrow> t \<notin> set (polled ls) \<Longrightarrow> scheduled y t"
  by (induction rule: sys_run.induct) (auto dest: step_scheduled)

section \<open>Progress\<close>

text \<open>Reached by steps of the executor and pending pokes alone, with the same tasks waiting.\<close>

definition quiet :: "system \<Rightarrow> system \<Rightarrow> bool" where
  "quiet x y \<longleftrightarrow> (\<exists>n. sys_run x (replicate n Internal) y) \<and> waiting y = waiting x"

lemma quiet_refl [intro]: "quiet x x"
  using run_refl [of x] by (auto simp: quiet_def intro: exI [of _ 0])

lemma quiet_trans [trans]: "quiet x y \<Longrightarrow> quiet y z \<Longrightarrow> quiet x z"
  by (auto simp: quiet_def) (metis replicate_add run_trans)

lemma quiet_step: "sys_step x Internal y \<Longrightarrow> waiting y = waiting x \<Longrightarrow> quiet x y"
  using run_single [of x Internal y] by (auto simp: quiet_def intro: exI [of _ 1])

lemma quiet_inv: "quiet x y \<Longrightarrow> sys_inv x \<Longrightarrow> sys_inv y"
  by (auto simp: quiet_def dest: sys_inv_run)

lemma quiet_collect: "phase x = Collecting \<Longrightarrow> \<exists>y. quiet x y \<and> phase y = Between \<and> task_queue y = []"
proof (induction "length (task_queue x)" arbitrary: x)
  case 0
  then have "quiet x (x\<lparr>phase := Between\<rparr>)" by (intro quiet_step step_collected) auto
  then show ?case using 0 by fastforce
next
  case (Suc n)
  then have ne: "task_queue x \<noteq> []" by auto
  then have "quiet x (pop_task x)" using Suc.prems by (intro quiet_step step_pop) auto
  moreover have "n = length (task_queue (pop_task x))" using Suc(2) by (simp add: pop_task_def)
  ultimately show ?case using Suc quiet_trans by (metis phase_simps(3))
qed

lemma quiet_serve: "phase x = Serving \<Longrightarrow> \<exists>y. quiet x y \<and> phase y = Collecting"
proof (induction "pipe_bytes (exec_pipe x)" arbitrary: x rule: less_induct)
  case less
  show ?case
  proof (cases "pipe_bytes (exec_pipe x) = 0")
    case True
    then have "sys_step x Internal (x\<lparr>exec_pipe := exec_pipe x, phase := Collecting\<rparr>)"
      using less.prems by (intro step_served) (simp_all add: pipe_get_def)
    then show ?thesis by (fastforce intro: quiet_step)
  next
    case False
    define p where "p = (exec_pipe x)\<lparr>pipe_bytes := pipe_bytes (exec_pipe x) - 2048\<rparr>"
    have "pipe_get 2048 (exec_pipe x) = (Io_Ok (Suc (min 2048 (pipe_bytes (exec_pipe x)) - 1)), p)"
      using False by (simp add: pipe_get_def p_def)
    then have "quiet x (x\<lparr>exec_pipe := p\<rparr>)"
      using less.prems by (intro quiet_step step_read) auto
    moreover have "\<exists>y. quiet (x\<lparr>exec_pipe := p\<rparr>) y \<and> phase y = Collecting"
      using less False by (simp add: p_def)
    ultimately show ?thesis using quiet_trans by blast
  qed
qed

lemma quiet_block:
  assumes "sys_inv x" and "phase x = In_Poll b" and "waiting x \<noteq> []"
  shows "\<exists>y. quiet x y \<and> phase y = Serving"
proof (cases "\<not> b \<or> 0 < pipe_level (exec_pipe x)")
  case True
  then have "sys_step x Internal (x\<lparr>phase := Serving\<rparr>)" using assms(2) by (intro step_return)
  then show ?thesis by (fastforce intro: quiet_step)
next
  case False
  then obtain t ts where pokes: "poking x = [] @ t # ts"
    using assms by (auto simp: sys_inv_def waiting_def neq_Nil_conv)
  let ?y = "(poke x)\<lparr>poking := [] @ ts\<rparr>"
  have "quiet x ?y" using step_poke [OF pokes] by (rule quiet_step) simp
  moreover have "sys_step ?y Internal (?y\<lparr>phase := Serving\<rparr>)"
    using assms(2) by (intro step_return) auto
  then have "quiet ?y (?y\<lparr>phase := Serving\<rparr>)" by (rule quiet_step) simp
  ultimately show ?thesis using quiet_trans by fastforce
qed

lemma quiet_between:
  assumes "sys_inv x" and "waiting x \<noteq> []"
  shows "\<exists>y. quiet x y \<and> phase y = Between \<and> task_vec y \<noteq> []"
proof -
  have collect: "\<exists>z. quiet y z \<and> phase z = Between \<and> task_vec z \<noteq> []" if "quiet x y" "phase y = Collecting" for y
    using quiet_collect [OF that(2)] that(1) assms(2) by (auto simp: quiet_def waiting_def)
  then have collect: "\<exists>z. quiet x z \<and> phase z = Between \<and> task_vec z \<noteq> []" if "quiet x y" "phase y = Collecting" for y
    using that quiet_trans by blast
  then have serve: "\<exists>z. quiet x z \<and> phase z = Between \<and> task_vec z \<noteq> []" if "quiet x y" "phase y = Serving" for y
    using that quiet_serve quiet_trans by blast
  then have block: "\<exists>z. quiet x z \<and> phase z = Between \<and> task_vec z \<noteq> []" if "quiet x y" "phase y = In_Poll b" for y b
    using that quiet_block [of y b] quiet_inv [OF that(1) assms(1)] assms(2) quiet_trans by (metis quiet_def)
  have between: "\<exists>z. quiet x z \<and> phase z = Between \<and> task_vec z \<noteq> []" if "quiet x y" "phase y = Between" for y
  proof (cases "task_vec y = []")
    case True
    then have "quiet y (y\<lparr>phase := In_Poll (task_queue y = [])\<rparr>)"
      using that(2) by (intro quiet_step step_decide) auto
    then show ?thesis using block [of "y\<lparr>phase := In_Poll (task_queue y = [])\<rparr>"] that(1) quiet_trans by fastforce
  qed (use that in blast)
  show ?thesis
  proof (cases "phase x")
    case (Polling t)
    then have "quiet x ((end_poll t True x)\<lparr>phase := Between\<rparr>)" by (intro quiet_step step_end) auto
    then show ?thesis by (rule between) simp
  next
    case (In_Poll b)
    then show ?thesis by (rule block [OF quiet_refl])
  qed (rule collect [OF quiet_refl], assumption, rule between [OF quiet_refl], assumption,
    rule serve [OF quiet_refl], assumption)
qed

text \<open>So the first waiting task is polled without anything from outside.\<close>

lemma progress:
  assumes "sys_inv x" and "waiting x = t # ts"
  shows "\<exists>ls y. sys_run x ls y \<and> polled ls = [t] \<and> set ls \<subseteq> insert Internal (range Polls) \<and> waiting y = ts"
proof -
  obtain y where y: "quiet x y" "phase y = Between" "task_vec y \<noteq> []"
    using quiet_between [OF assms(1)] assms(2) by auto
  have "waiting y = t # ts" using y(1) assms(2) by (simp add: quiet_def)
  then obtain us where us: "task_vec y = t # us" using y(3) by (auto simp: waiting_def neq_Nil_conv)
  let ?z = "(begin_poll t y)\<lparr>phase := Polling t\<rparr>"
  obtain n where "sys_run x (replicate n Internal) y" using y(1) by (auto simp: quiet_def)
  then have "sys_run x (replicate n Internal @ [Polls t]) ?z"
    using run_step step_begin [OF y(2) us] by blast
  moreover have "polled (replicate n Internal) = []" by (induction n) auto
  moreover have "waiting ?z = ts" using \<open>waiting y = t # ts\<close> us by simp
  ultimately show ?thesis by (intro exI [of _ "replicate n Internal @ [Polls t]"] exI [of _ ?z]) auto
qed

lemma progress_all:
  "sys_inv x \<Longrightarrow> n \<le> length (waiting x) \<Longrightarrow> \<exists>ls y. sys_run x ls y \<and> length (polled ls) = n \<and>
    set ls \<subseteq> insert Internal (range Polls)"
proof (induction n arbitrary: x)
  case 0
  then show ?case using run_refl by fastforce
next
  case (Suc n)
  then obtain t ts where w: "waiting x = t # ts" by (cases "waiting x") auto
  then obtain ls y where y: "sys_run x ls y" "polled ls = [t]" "set ls \<subseteq> insert Internal (range Polls)" "waiting y = ts"
    using progress Suc.prems(1) by blast
  moreover obtain ms z where "sys_run y ms z" "length (polled ms) = n" "set ms \<subseteq> insert Internal (range Polls)"
    using Suc.IH [of y] Suc.prems w y(4) sys_inv_run [OF y(1)] by auto
  ultimately show ?case using run_trans [of y ms z x ls] by (intro exI [of _ "ls @ ms"] exI [of _ z]) auto
qed

lemma count_list_distinct: "distinct xs \<Longrightarrow> x \<in> set xs \<Longrightarrow> count_list xs x = 1"
  by (induction xs) (auto simp: count_list_0_iff)

text \<open>A pending task is polled without anything from outside.\<close>

lemma pending_polled:
  assumes "sys_inv x" and "t \<in> set (pending_tasks x)"
  shows "\<exists>ls y. sys_run x ls y \<and> set ls \<subseteq> insert Internal (range Polls) \<and> t \<in> set (polled ls)"
proof -
  have waits: "\<exists>ls y. sys_run z ls y \<and> set ls \<subseteq> insert Internal (range Polls) \<and> t \<in> set (polled ls)"
    if z: "sys_inv z" "t \<in> set (waiting z)" for z
  proof -
    obtain i where i: "i < length (waiting z)" "waiting z ! i = t" using z(2) by (auto simp: in_set_conv_nth)
    obtain ls y where run: "sys_run z ls y" "length (polled ls) = Suc i" "set ls \<subseteq> insert Internal (range Polls)"
      using progress_all [OF z(1), of "Suc i"] i(1) by auto
    then have "polled ls ! i = t" using run_order [OF run(1) i(1)] i(2) by simp
    then show ?thesis using run by (metis lessI nth_mem)
  qed
  show ?thesis
  proof (cases "t \<in> set (waiting x)")
    case True
    then show ?thesis using waits assms(1) by blast
  next
    case False
    then obtain ts us where "claimed x = ts @ t # us"
      using assms(2) by (auto simp: pending_tasks_def dest: split_list)
    then have push: "sys_step x Internal ((thread_push t x)\<lparr>claimed := ts @ us\<rparr>)" by (rule step_push)
    then obtain ls y where "sys_run ((thread_push t x)\<lparr>claimed := ts @ us\<rparr>) ls y"
        "set ls \<subseteq> insert Internal (range Polls)" "t \<in> set (polled ls)"
      using waits [OF sys_inv_step [OF push assms(1)]] by auto
    then show ?thesis
      using run_trans [OF _ run_single [OF push]] by (intro exI [of _ "[Internal] @ ls"] exI [of _ y]) auto
  qed
qed

text \<open>
  C7. No wake-up is lost and no task starves. In every state the executor can get into, whatever threads wake
  tasks in between and however far their wakes have come, a call of the waker of a task at any moment, also while the
  task is being polled or while another wake of it is half done, leaves it pending: until it is polled it stays, exactly
  once, either in the queue or with a thread that has set its flag and is about to enter it. Once it is in the
  queue behind \<open>i\<close> others it is the one polled after \<open>i\<close> others, whatever else happens. And steps of the executor and of
  the wakes already under way are enough to get it polled, without a further wake, a timeout or an event of a
  descriptor.
\<close>

theorem wake_never_lost:
  assumes "sys_run (run_main room main) ls x"
  shows "(\<forall>ms y. sys_run (thread_claim t x) ms y \<and> t \<notin> set (polled ms) \<longrightarrow>
      count_list (claimed y @ task_vec y @ task_queue y) t = 1) \<and>
    (\<forall>ms y i. sys_run (thread_claim t x) ms y \<and> i < length (task_vec y @ task_queue y) \<and>
        (task_vec y @ task_queue y) ! i = t \<longrightarrow>
      (\<forall>ns z. sys_run y ns z \<and> i < length (polled ns) \<longrightarrow> polled ns ! i = t)) \<and>
    (\<exists>ms y. sys_run (thread_claim t x) ms y \<and> set ms \<subseteq> insert Internal (range Polls) \<and> t \<in> set (polled ms))"
proof -
  let ?x = "thread_claim t x"
  have "sys_inv x" using assms sys_inv_main sys_inv_run by blast
  then have inv: "sys_inv ?x" using sys_inv_step step_claim by blast
  have sched: "scheduled ?x t" by (simp add: thread_claim_def)
  have "count_list (claimed y @ task_vec y @ task_queue y) t = 1"
    if "sys_run ?x ms y" "t \<notin> set (polled ms)" for ms y
    using run_scheduled [OF that(1) sched that(2)] sys_inv_run [OF that(1) inv] count_list_distinct [of "pending_tasks y" t]
    by (simp add: sys_inv_def pending_tasks_def waiting_def)
  moreover have "polled ns ! i = t" if "i < length (task_vec y @ task_queue y)" "(task_vec y @ task_queue y) ! i = t"
      "sys_run y ns z" "i < length (polled ns)" for y i ns z
    using run_order [OF that(3) _ that(4)] that(1,2) by (simp add: waiting_def)
  moreover have "t \<in> set (pending_tasks ?x)" using inv sched by (simp add: sys_inv_def)
  ultimately show ?thesis using pending_polled [OF inv] by blast
qed

text \<open>Another thread wakes a task before the loop has begun.\<close>

theorem wake_never_lost_witness:
  "\<exists>ls y. sys_run (thread_claim 3 (run_main 65536 7)) ls y \<and> set ls \<subseteq> insert Internal (range Polls) \<and> 3 \<in> set (polled ls)"
  using wake_never_lost [OF run_refl, of 3 65536 7] by blast

text \<open>
  C12. The executor does not sleep on work: in every reachable state in which it is inside \<^verbatim>\<open>poll\<close> while a task waits,
  and no thread is between entering its task and poking the pipe, \<^verbatim>\<open>poll\<close> returns at once, because its timeout is
  zero or the wake pipe is readable.
\<close>

theorem never_sleeps_on_work:
  assumes "sys_run (run_main room main) ls x" and "phase x = In_Poll may_block"
    and "waiting x \<noteq> []" and "poking x = []"
  shows "\<not> may_block \<or> 0 < pipe_level (exec_pipe x)"
proof -
  have "sys_inv x" using assms(1) sys_inv_main sys_inv_run by blast
  then show ?thesis using assms(2-4) by (auto simp: sys_inv_def waiting_def)
qed

text \<open>The first task goes to sleep, then another thread wakes a task.\<close>

theorem never_sleeps_on_work_witness:
  "\<exists>ls x. sys_run (run_main 65536 7) ls x \<and> phase x = In_Poll True \<and> waiting x = [3] \<and> 0 < pipe_level (exec_pipe x)"
proof -
  let ?a = "run_main 65536 7"
  let ?b = "(pop_task ?a)\<lparr>phase := Between\<rparr>"
  let ?c = "(begin_poll 7 ?b)\<lparr>phase := Polling 7\<rparr>"
  let ?d = "(end_poll 7 True ?c)\<lparr>phase := Between\<rparr>"
  let ?e = "?d\<lparr>phase := In_Poll (task_queue ?d = [])\<rparr>"
  let ?f = "(thread_push 3 (thread_claim 3 ?e))\<lparr>claimed := [] @ []\<rparr>"
  let ?g = "(poke ?f)\<lparr>poking := [] @ []\<rparr>"
  note defs = run_main_def executor.defs spawn_def executor_init_def pop_task_def begin_poll_def end_poll_def
    thread_claim_def thread_push_def
  have "sys_run ?a [Internal] (pop_task ?a)"
    by (rule run_single, rule step_pop) (simp_all add: defs)
  then have "sys_run ?a ([Internal] @ [Internal]) ?b"
    by (rule run_step, intro step_collected) (simp_all add: defs)
  then have "sys_run ?a (([Internal] @ [Internal]) @ [Polls 7]) ?c"
    by (rule run_step, intro step_begin) (simp_all add: defs)
  then have "sys_run ?a ((([Internal] @ [Internal]) @ [Polls 7]) @ [Internal]) ?d"
    by (rule run_step, intro step_end) simp
  then have "sys_run ?a (((([Internal] @ [Internal]) @ [Polls 7]) @ [Internal]) @ [Internal]) ?e"
    by (rule run_step, intro step_decide) (simp_all add: defs)
  then have "sys_run ?a ((((([Internal] @ [Internal]) @ [Polls 7]) @ [Internal]) @ [Internal]) @ [Wakes 3]) (thread_claim 3 ?e)"
    by (rule run_step, intro step_claim)
  then have "sys_run ?a (((((([Internal] @ [Internal]) @ [Polls 7]) @ [Internal]) @ [Internal]) @ [Wakes 3]) @ [Internal]) ?f"
    by (rule run_step, intro step_push) (simp add: defs)
  then have run: "sys_run ?a ((((((([Internal] @ [Internal]) @ [Polls 7]) @ [Internal]) @ [Internal]) @ [Wakes 3]) @ [Internal]) @
      [Internal]) ?g"
    by (rule run_step, intro step_poke [of _ "[]" 3 "[]"]) (simp add: defs)
  have state: "phase ?g = In_Poll True" "waiting ?g = [3]" "poking ?g = []"
    by (simp_all add: defs waiting_def poke_def)
  then have "0 < pipe_level (exec_pipe ?g)" using never_sleeps_on_work [OF run state(1) _ state(3)] by simp
  then show ?thesis using run state(1,2) by blast
qed

end
