(* ===== verification/Futures.thy ===== *)
theory Futures
  imports Executor
begin

text \<open>
  The futures of \<^verbatim>\<open>rust/src/leo_async.rs\<close>: sleeping, timeouts, yielding, selecting and joining, fusing, and the
  futures that wait for descriptors. A future is its \<^verbatim>\<open>poll\<close> function: given the time and the waker of the
  task that polls, it returns its result, what it does to the runtime, and its next state. The contract every
  future has to keep towards the executor, that a pending poll leaves something behind that will wake the task,
  is the locale \<open>responsive\<close>.
\<close>

datatype 'a poll = Ready 'a | Pending

type_synonym ('s, 'a) future = "instant \<Rightarrow> waker \<Rightarrow> 's \<Rightarrow> 'a poll \<times> poll_effect list \<times> 's"

text \<open>Polling again and again, at given times with given wakers, until there is a result.\<close>

fun run_future :: "('s, 'a) future \<Rightarrow> (instant \<times> waker) list \<Rightarrow> 's \<Rightarrow> 'a poll \<times> poll_effect list \<times> 's" where
  "run_future poll [] s = (Pending, [], s)"
| "run_future poll ((now, w) # ps) s =
    (case poll now w s of
       (Ready v, es, s) \<Rightarrow> (Ready v, es, s)
     | (Pending, es, s) \<Rightarrow> (case run_future poll ps s of (r, es', s) \<Rightarrow> (r, es @ es', s)))"

section \<open>The contract\<close>

definition arranged :: "waker \<Rightarrow> poll_effect list \<Rightarrow> bool" where
  "arranged w es \<longleftrightarrow>
    Wake w \<in> set es \<or> (\<exists>i. Register_Sleep i w \<in> set es) \<or> (\<exists>fd p. Register_Poll fd p w \<in> set es)"

lemma arranged_append [simp]: "arranged w (es @ fs) \<longleftrightarrow> arranged w es \<or> arranged w fs"
  by (auto simp: arranged_def)

lemma arranged_poll: "Register_Poll fd p w \<in> set es \<Longrightarrow> arranged w es"
  by (auto simp: arranged_def)

locale responsive =
  fixes poll :: "('s, 'a) future"
    and inv :: "poll_effect list \<Rightarrow> 's \<Rightarrow> bool"
  assumes inv_poll: "inv es s \<Longrightarrow> poll now w s = (r, es', s') \<Longrightarrow> inv (es @ es') s'"
    and pending_arranged: "inv es s \<Longrightarrow> poll now w s = (Pending, es', s') \<Longrightarrow> arranged w (es @ es')"
    and inv_mono: "inv es s \<Longrightarrow> inv (es @ fs) s"
begin

text \<open>So a task that polls a fresh future again and again is never left without a wake-up.\<close>

lemma run_arranged:
  assumes "inv es s" and "ps \<noteq> []" and "run_future poll ps s = (Pending, es', s')"
  shows "arranged (snd (last ps)) (es @ es')"
  using assms
proof (induction ps arbitrary: es s es')
  case Nil
  then show ?case by simp
next
  case (Cons p ps)
  obtain now w where p: "p = (now, w)" by fastforce
  obtain r es1 s1 where q: "poll now w s = (r, es1, s1)" by (cases "poll now w s")
  then have r: "r = Pending" using Cons.prems(3) by (cases r) (auto simp: p)
  show ?case
  proof (cases "ps = []")
    case True
    then show ?thesis using Cons.prems(1,3) pending_arranged q r by (auto simp: p)
  next
    case False
    then obtain es2 where "run_future poll ps s1 = (Pending, es2, s')" "es' = es1 @ es2"
      using Cons.prems(3) q r by (auto simp: p split: prod.splits)
    then show ?thesis using Cons.IH [OF inv_poll [OF Cons.prems(1) q] False] False by simp
  qed
qed

end

section \<open>Sleeping\<close>

record SleepFuture =
  sf_target :: instant
  sf_registered_waker :: "waker option"

definition SleepFuture_poll :: "(SleepFuture, unit) future" where
  "SleepFuture_poll now w f =
    (if sf_target f \<le> now then (Ready (), [], f)
     else if sf_registered_waker f = Some w then (Pending, [], f)
     else (Pending, [Register_Sleep (sf_target f) w], f\<lparr>sf_registered_waker := Some w\<rparr>))"

text \<open>\<^verbatim>\<open>sleep_seconds\<close>, with the duration in nanoseconds.\<close>

definition sleep_for :: "instant \<Rightarrow> nat \<Rightarrow> SleepFuture" where
  "sleep_for now duration = \<lparr>sf_target = now + duration, sf_registered_waker = None\<rparr>"

definition sleep_inv :: "poll_effect list \<Rightarrow> SleepFuture \<Rightarrow> bool" where
  "sleep_inv es f \<longleftrightarrow> (\<forall>w. sf_registered_waker f = Some w \<longrightarrow> Register_Sleep (sf_target f) w \<in> set es)"

interpretation sleeping: responsive SleepFuture_poll sleep_inv
  by unfold_locales (auto simp: SleepFuture_poll_def sleep_inv_def arranged_def split: if_splits)

section \<open>Yielding\<close>

definition yield_now_poll :: "(bool, unit) future" where
  "yield_now_poll now w done = (if done then (Ready (), [], done) else (Pending, [Wake w], True))"

interpretation yielding: responsive yield_now_poll "\<lambda>_ _. True"
  by unfold_locales (auto simp: yield_now_poll_def arranged_def split: if_splits)

section \<open>Timeouts\<close>

record 's TimeoutFuture =
  tf_future :: 's
  tf_timeout_at :: instant
  tf_registered_waker :: "waker option"

definition timeout_future :: "'s \<Rightarrow> nat \<Rightarrow> instant \<Rightarrow> 's TimeoutFuture" where
  "timeout_future future timeout now =
    \<lparr>tf_future = future, tf_timeout_at = now + timeout, tf_registered_waker = None\<rparr>"

text \<open>The error is the timeout, the other side the result of the future.\<close>

definition TimeoutFuture_poll :: "('s, 'a) future \<Rightarrow> ('s TimeoutFuture, unit + 'a) future" where
  "TimeoutFuture_poll poll now w f =
    (if tf_timeout_at f \<le> now then (Ready (Inl ()), [], f)
     else
       let (res, es, future) = poll now w (tf_future f);
           f = f\<lparr>tf_future := future\<rparr>
       in case res of
            Ready output \<Rightarrow> (Ready (Inr output), es, f)
          | Pending \<Rightarrow>
              if tf_registered_waker f = Some w then (Pending, es, f)
              else (Pending, es @ [Register_Sleep (tf_timeout_at f) w], f\<lparr>tf_registered_waker := Some w\<rparr>))"

definition timeout_inv :: "poll_effect list \<Rightarrow> 's TimeoutFuture \<Rightarrow> bool" where
  "timeout_inv es f \<longleftrightarrow>
    (\<forall>w. tf_registered_waker f = Some w \<longrightarrow> Register_Sleep (tf_timeout_at f) w \<in> set es)"

interpretation timing: responsive "TimeoutFuture_poll poll" timeout_inv for poll
  by unfold_locales
    (auto simp: TimeoutFuture_poll_def timeout_inv_def arranged_def Let_def split: if_splits prod.splits poll.splits)

section \<open>Selecting and joining\<close>

definition Select2_poll :: "('s, 'a) future \<Rightarrow> ('t, 'b) future \<Rightarrow> ('s \<times> 't, unit) future" where
  "Select2_poll poll1 poll2 now w f =
    (let (r1, es1, f1) = poll1 now w (fst f);
         (r2, es2, f2) = poll2 now w (snd f)
     in (if r1 \<noteq> Pending \<or> r2 \<noteq> Pending then Ready () else Pending, es1 @ es2, (f1, f2)))"

record ('s, 't, 'a, 'b) Join2Futures =
  jf_future1 :: 's
  jf_future2 :: 't
  jf_result1 :: "'a option"
  jf_result2 :: "'b option"

definition join2 :: "'s \<Rightarrow> 't \<Rightarrow> ('s, 't, 'a, 'b) Join2Futures" where
  "join2 f1 f2 = \<lparr>jf_future1 = f1, jf_future2 = f2, jf_result1 = None, jf_result2 = None\<rparr>"

text \<open>A component that has its result is not polled again.\<close>

definition poll_once :: "('s, 'a) future \<Rightarrow> instant \<Rightarrow> waker \<Rightarrow> 's \<Rightarrow> 'a option \<Rightarrow> 'a option \<times> poll_effect list \<times> 's" where
  "poll_once poll now w f res =
    (if res = None then
       (case poll now w f of (Ready v, es, f) \<Rightarrow> (Some v, es, f) | (Pending, es, f) \<Rightarrow> (None, es, f))
     else (res, [], f))"

definition Join2_poll ::
  "('s, 'a) future \<Rightarrow> ('t, 'b) future \<Rightarrow> (('s, 't, 'a, 'b) Join2Futures, 'a \<times> 'b) future"
where
  "Join2_poll poll1 poll2 now w f =
    (let (r1, es1, f1) = poll_once poll1 now w (jf_future1 f) (jf_result1 f);
         (r2, es2, f2) = poll_once poll2 now w (jf_future2 f) (jf_result2 f);
         f = f\<lparr>jf_future1 := f1, jf_future2 := f2, jf_result1 := r1, jf_result2 := r2\<rparr>
     in case (r1, r2) of
          (Some v1, Some v2) \<Rightarrow> (Ready (v1, v2), es1 @ es2, f\<lparr>jf_result1 := None, jf_result2 := None\<rparr>)
        | _ \<Rightarrow> (Pending, es1 @ es2, f))"

text \<open>Two responsive futures side by side.\<close>

locale responsive_pair = f1: responsive poll1 inv1 + f2: responsive poll2 inv2
  for poll1 :: "('s, 'a) future" and inv1 and poll2 :: "('t, 'b) future" and inv2
begin

lemma select_responsive:
  assumes "inv1 es (fst f) \<and> inv2 es (snd f)" and "Select2_poll poll1 poll2 now w f = (r, es', f')"
  shows "inv1 (es @ es') (fst f') \<and> inv2 (es @ es') (snd f') \<and> (r = Pending \<longrightarrow> arranged w (es @ es'))"
proof -
  obtain r1 es1 g1 where p1: "poll1 now w (fst f) = (r1, es1, g1)" by (cases "poll1 now w (fst f)")
  obtain r2 es2 g2 where p2: "poll2 now w (snd f) = (r2, es2, g2)" by (cases "poll2 now w (snd f)")
  have r: "r = Pending \<longrightarrow> r1 = Pending" "es' = es1 @ es2" "f' = (g1, g2)"
    using assms(2) p1 p2 by (auto simp: Select2_poll_def split: if_splits)
  have "inv1 ((es @ es1) @ es2) g1" using f1.inv_mono f1.inv_poll p1 assms(1) by blast
  moreover have "inv2 ((es @ es1) @ es2) g2" using f2.inv_mono f2.inv_poll p2 assms(1) by blast
  moreover have "r1 = Pending \<longrightarrow> arranged w (es @ es1)" using f1.pending_arranged assms(1) p1 by blast
  ultimately show ?thesis using r by auto
qed

lemma join_arranged:
  assumes "inv1 es (jf_future1 f)" and "inv2 es (jf_future2 f)"
    and "Join2_poll poll1 poll2 now w f = (Pending, es', f')"
  shows "arranged w (es @ es')"
proof -
  obtain r1 es1 g1 where p1: "poll_once poll1 now w (jf_future1 f) (jf_result1 f) = (r1, es1, g1)"
    by (cases "poll_once poll1 now w (jf_future1 f) (jf_result1 f)")
  obtain r2 es2 g2 where p2: "poll_once poll2 now w (jf_future2 f) (jf_result2 f) = (r2, es2, g2)"
    by (cases "poll_once poll2 now w (jf_future2 f) (jf_result2 f)")
  have es': "es' = es1 @ es2" and none: "r1 = None \<or> r2 = None"
    using assms(3) p1 p2 by (auto simp: Join2_poll_def Let_def split: option.splits)
  have "arranged w (es @ es1)" if "r1 = None"
    using p1 that f1.pending_arranged [OF assms(1)]
    by (auto simp: poll_once_def split: if_splits prod.splits poll.splits)
  moreover have "arranged w (es @ es2)" if "r2 = None"
    using p2 that f2.pending_arranged [OF assms(2)]
    by (auto simp: poll_once_def split: if_splits prod.splits poll.splits)
  ultimately show ?thesis using none es' by auto
qed

end

sublocale responsive_pair \<subseteq> select: responsive "Select2_poll poll1 poll2"
  "\<lambda>es f. inv1 es (fst f) \<and> inv2 es (snd f)"
  using select_responsive f1.inv_mono f2.inv_mono by unfold_locales blast+

text \<open>A pair of futures under timeouts.\<close>

interpretation timed_pair: responsive_pair "TimeoutFuture_poll p1" timeout_inv "TimeoutFuture_poll p2" timeout_inv
  for p1 p2
  by unfold_locales

section \<open>Fusing\<close>

record 's Fused =
  fused_future :: 's
  fused_resolved :: bool

definition Fused_poll ::
  "('s, 'a) future \<Rightarrow> instant \<Rightarrow> waker \<Rightarrow> 's Fused \<Rightarrow> ('a poll \<times> poll_effect list \<times> 's Fused) exec"
where
  "Fused_poll poll now w f =
    (if fused_resolved f then Panic PolledAfterCompletion
     else
       let (res, es, future) = poll now w (fused_future f)
       in Done (res, es, \<lparr>fused_future = future, fused_resolved = (res \<noteq> Pending)\<rparr>))"

definition fused :: "'s \<Rightarrow> 's Fused" where
  "fused future = \<lparr>fused_future = future, fused_resolved = False\<rparr>"

text \<open>Polling whatever the result, with and without the wrapper; polls stop at a panic.\<close>

fun poll_all :: "('s, 'a) future \<Rightarrow> (instant \<times> waker) list \<Rightarrow> 's \<Rightarrow> 'a poll list" where
  "poll_all poll [] s = []"
| "poll_all poll ((now, w) # ps) s = (case poll now w s of (r, _, s) \<Rightarrow> r # poll_all poll ps s)"

fun fused_all :: "('s, 'a) future \<Rightarrow> (instant \<times> waker) list \<Rightarrow> 's Fused \<Rightarrow> 'a poll list \<times> panic option" where
  "fused_all poll [] f = ([], None)"
| "fused_all poll ((now, w) # ps) f =
    (case Fused_poll poll now w f of
       Done (r, _, f) \<Rightarrow> (let (rs, e) = fused_all poll ps f in (r # rs, e))
     | Panic e \<Rightarrow> ([], Some e)
     | Diverges \<Rightarrow> ([], None))"

text \<open>
  What \<^verbatim>\<open>fused\<close> promises: polled any number of times, the wrapped future gives the results of the future up to and
  including the first one that is ready, and panics at the next poll, if there is one, without polling the
  future again.
\<close>

theorem fused_catches_misuse:
  "fused_all poll ps (fused s) =
    (let rs = poll_all poll ps s; n = length (takeWhile (\<lambda>r. r = Pending) rs)
     in (take (Suc n) rs, if Suc n < length ps then Some PolledAfterCompletion else None))"
proof (induction ps arbitrary: s)
  case Nil
  then show ?case by simp
next
  case (Cons p ps)
  obtain now w where p: "p = (now, w)" by fastforce
  obtain r es s' where q: "poll now w s = (r, es, s')" by (cases "poll now w s")
  show ?case
  proof (cases r)
    case (Ready v)
    then show ?thesis using q by (cases ps) (auto simp: p Fused_poll_def fused_def)
  next
    case Pending
    then show ?thesis using q Cons.IH [of s'] by (simp add: p Fused_poll_def fused_def Let_def)
  qed
qed

section \<open>Waiting for descriptors\<close>

text \<open>The answer of the system call, as the future turns it into its own result.\<close>

definition poll_io :: "fd \<Rightarrow> PollType \<Rightarrow> io \<Rightarrow> waker \<Rightarrow> (unit + nat) poll \<times> poll_effect list" where
  "poll_io fd p answer w =
    (case answer of
       Io_Ok n \<Rightarrow> (Ready (Inr n), [])
     | Io_Again \<Rightarrow> (Pending, [Register_Poll fd p w])
     | Io_Intr \<Rightarrow> (Pending, [Wake w])
     | Io_Err \<Rightarrow> (Ready (Inl ()), []))"

text \<open>Nothing is buffered, so flushing and closing the stream are ready at once.\<close>

definition poll_flush :: "(unit + unit) poll" where
  "poll_flush = Ready (Inr ())"

definition poll_close :: "(unit + unit) poll" where
  "poll_close = Ready (Inr ())"

text \<open>The futures that wait until a descriptor is readable or writable; the check may fail.\<close>

definition fd_wait :: "fd \<Rightarrow> PollType \<Rightarrow> bool option \<Rightarrow> waker \<Rightarrow> (unit + unit) poll \<times> poll_effect list" where
  "fd_wait fd p check w =
    (case check of
       None \<Rightarrow> (Ready (Inl ()), [])
     | Some True \<Rightarrow> (Ready (Inr ()), [])
     | Some False \<Rightarrow> (Pending, [Register_Poll fd p w]))"

section \<open>Properties\<close>

lemma timeout_keeps: "TimeoutFuture_poll poll now w f = (r, es, g) \<Longrightarrow> tf_timeout_at g = tf_timeout_at f"
  by (auto simp: TimeoutFuture_poll_def Let_def split: if_splits prod.splits poll.splits)

lemma timeout_run:
  assumes "timeout_inv es f" and "ps \<noteq> []" and "run_future (TimeoutFuture_poll poll) ps f = (Pending, es', g)"
  shows "fst (last ps) < tf_timeout_at f \<and> tf_timeout_at g = tf_timeout_at f \<and>
    Register_Sleep (tf_timeout_at f) (snd (last ps)) \<in> set (es @ es')"
  using assms
proof (induction ps arbitrary: es f es')
  case Nil
  then show ?case by simp
next
  case (Cons p ps)
  obtain now w where p: "p = (now, w)" by fastforce
  obtain r es1 h where q: "TimeoutFuture_poll poll now w f = (r, es1, h)"
    by (cases "TimeoutFuture_poll poll now w f")
  then have r: "r = Pending" using Cons.prems(3) by (cases r) (auto simp: p)
  have now: "now < tf_timeout_at f \<and> tf_timeout_at h = tf_timeout_at f \<and>
      Register_Sleep (tf_timeout_at f) w \<in> set (es @ es1)"
    using q r Cons.prems(1)
    by (auto simp: TimeoutFuture_poll_def timeout_inv_def Let_def split: if_splits prod.splits poll.splits)
  show ?case
  proof (cases "ps = []")
    case True
    then show ?thesis using Cons.prems(3) q r now by (auto simp: p)
  next
    case False
    then obtain es2 where "run_future (TimeoutFuture_poll poll) ps h = (Pending, es2, g)" "es' = es1 @ es2"
      using Cons.prems(3) q r by (auto simp: p split: prod.splits)
    then show ?thesis using Cons.IH [OF timing.inv_poll [OF Cons.prems(1) q] False] False now by simp
  qed
qed

text \<open>
  C13. A timeout always fires: however often and by whichever tasks a future under a timeout was polled, while it
  is pending the deadline had not passed at the last poll and a timer for the deadline is registered for the
  task that polled last, and any poll at or after the deadline ends in the timeout.
\<close>

theorem timeout_always_fires:
  assumes "ps \<noteq> []" and "run_future (TimeoutFuture_poll poll) ps (timeout_future f d t0) = (Pending, es, g)"
  shows "fst (last ps) < t0 + d \<and> Register_Sleep (t0 + d) (snd (last ps)) \<in> set es \<and>
    (\<forall>now w. t0 + d \<le> now \<longrightarrow> fst (TimeoutFuture_poll poll now w g) = Ready (Inl ()))"
proof -
  have "timeout_inv [] (timeout_future f d t0)" by (simp add: timeout_inv_def timeout_future_def)
  from timeout_run [OF this assms] have "fst (last ps) < t0 + d" "tf_timeout_at g = t0 + d"
    "Register_Sleep (t0 + d) (snd (last ps)) \<in> set es"
    by (simp_all add: timeout_future_def)
  then show ?thesis by (simp add: TimeoutFuture_poll_def)
qed

theorem timeout_always_fires_witness:
  "Register_Sleep 30 5 \<in> set (fst (snd (run_future (TimeoutFuture_poll SleepFuture_poll) [(1, 4), (2, 5)]
     (timeout_future (sleep_for 0 100) 30 0))))"
proof -
  obtain es g where run: "run_future (TimeoutFuture_poll SleepFuture_poll) [(1, 4), (2, 5)]
      (timeout_future (sleep_for 0 100) 30 0) = (Pending, es, g)"
    by (simp add: TimeoutFuture_poll_def SleepFuture_poll_def timeout_future_def sleep_for_def)
  show ?thesis unfolding run using timeout_always_fires [OF _ run] by simp
qed

text \<open>
  A select of two futures under timeouts never leaves its task asleep for good: whenever it is pending,
  something was registered that wakes the task that polled it last.
\<close>

theorem select_never_stuck:
  assumes "ps \<noteq> []" and "run_future (Select2_poll (TimeoutFuture_poll p1) (TimeoutFuture_poll p2)) ps
    (timeout_future f1 d1 t1, timeout_future f2 d2 t2) = (Pending, es, g)"
  shows "arranged (snd (last ps)) es"
  using timed_pair.select.run_arranged [OF _ assms, of "[]"]
  by (simp add: timeout_inv_def timeout_future_def)

theorem select_never_stuck_witness:
  "arranged 5 (fst (snd (run_future (Select2_poll (TimeoutFuture_poll SleepFuture_poll)
     (TimeoutFuture_poll SleepFuture_poll)) [(1, 4), (2, 5)]
     (timeout_future (sleep_for 0 100) 30 0, timeout_future (sleep_for 0 100) 40 0))))"
proof -
  obtain es g where run: "run_future (Select2_poll (TimeoutFuture_poll SleepFuture_poll)
      (TimeoutFuture_poll SleepFuture_poll)) [(1, 4), (2, 5)]
      (timeout_future (sleep_for 0 100) 30 0, timeout_future (sleep_for 0 100) 40 0) = (Pending, es, g)"
    by (simp add: Select2_poll_def TimeoutFuture_poll_def SleepFuture_poll_def timeout_future_def sleep_for_def)
  show ?thesis unfolding run using select_never_stuck [OF _ run] by simp
qed

lemma join2_run:
  assumes "run_future (Join2_poll p1 p2) ps f = (Ready (v1, v2), es, g)"
  shows "(case jf_result1 f of Some v \<Rightarrow> v = v1 | None \<Rightarrow> fst (run_future p1 ps (jf_future1 f)) = Ready v1) \<and>
    (case jf_result2 f of Some v \<Rightarrow> v = v2 | None \<Rightarrow> fst (run_future p2 ps (jf_future2 f)) = Ready v2)"
  using assms
proof (induction ps arbitrary: f es)
  case Nil
  then show ?case by simp
next
  case (Cons p ps)
  obtain now w where p: "p = (now, w)" by fastforce
  obtain r1 es1 g1 where o1: "poll_once p1 now w (jf_future1 f) (jf_result1 f) = (r1, es1, g1)"
    by (cases "poll_once p1 now w (jf_future1 f) (jf_result1 f)")
  obtain r2 es2 g2 where o2: "poll_once p2 now w (jf_future2 f) (jf_result2 f) = (r2, es2, g2)"
    by (cases "poll_once p2 now w (jf_future2 f) (jf_result2 f)")
  let ?f = "f\<lparr>jf_future1 := g1, jf_future2 := g2, jf_result1 := r1, jf_result2 := r2\<rparr>"
  show ?case
  proof (cases "r1 = None \<or> r2 = None")
    case True
    then have "Join2_poll p1 p2 now w f = (Pending, es1 @ es2, ?f)"
      using o1 o2 by (auto simp: Join2_poll_def Let_def split: option.splits)
    then obtain es' where "run_future (Join2_poll p1 p2) ps ?f = (Ready (v1, v2), es', g)"
      using Cons.prems by (auto simp: p split: prod.splits)
    from Cons.IH [OF this] show ?thesis
      using o1 o2 by (auto simp: p poll_once_def split: if_splits prod.splits poll.splits option.splits)
  next
    case False
    then obtain u1 u2 where u: "r1 = Some u1" "r2 = Some u2" by auto
    then have "fst (Join2_poll p1 p2 now w f) = Ready (u1, u2)"
      using o1 o2 by (simp add: Join2_poll_def Let_def)
    then have "u1 = v1" "u2 = v2" using Cons.prems by (auto simp: p split: prod.splits poll.splits)
    then show ?thesis
      using o1 o2 u by (auto simp: p poll_once_def split: if_splits prod.splits poll.splits option.splits)
  qed
qed

text \<open>
  Joining gives both results: when a join of two fresh futures is ready, each of the two, polled on its own at
  the same times, is ready too and with the value the join returns; neither is polled after it was ready.
\<close>

theorem join2_results:
  assumes "run_future (Join2_poll p1 p2) ps (join2 f1 f2) = (Ready (v1, v2), es, g)"
  shows "fst (run_future p1 ps f1) = Ready v1 \<and> fst (run_future p2 ps f2) = Ready v2"
  using join2_run [OF assms] by (simp add: join2_def)

theorem join2_results_witness:
  "fst (run_future SleepFuture_poll [(0, 4), (2, 4), (5, 4)] (sleep_for 0 2)) = Ready () \<and>
   fst (run_future SleepFuture_poll [(0, 4), (2, 4), (5, 4)] (sleep_for 0 5)) = Ready ()"
proof -
  obtain es g where run: "run_future (Join2_poll SleepFuture_poll SleepFuture_poll) [(0, 4), (2, 4), (5, 4)]
      (join2 (sleep_for 0 2) (sleep_for 0 5)) = (Ready ((), ()), es, g)"
    by (simp add: Join2_poll_def poll_once_def SleepFuture_poll_def sleep_for_def join2_def)
  show ?thesis by (rule join2_results [OF run])
qed

end
