(* ===== verification/Thread_Future.thy ===== *)
theory Thread_Future
  imports Futures
begin

text \<open>
  \<^verbatim>\<open>fn_thread_future\<close> of \<^verbatim>\<open>rust/src/leo_async.rs\<close>: a function runs in a thread of its own, and a future hands its
  result to the task that waits for it. Thread and future share two cells behind locks, the result and the
  waker. Each access to a cell is a step, and the steps of the thread and of the polls interleave freely.
\<close>

text \<open>The thread computes, then looks for a waker until it finds one, then is done.\<close>

datatype thread = Computing | Searching | Finished

text \<open>A poll stores its waker, then looks for the result; in between the poll is under way.\<close>

record 'a thread_future =
  th_result :: "'a option"
  th_waker :: "waker option"
  th_thread :: thread
  th_polling :: "waker option"
  th_pending :: "waker option"
  th_output :: "'a option"
  th_woken :: "waker list"

definition fn_thread_future :: "'a thread_future" where
  "fn_thread_future = \<lparr>th_result = None, th_waker = None, th_thread = Computing, th_polling = None,
     th_pending = None, th_output = None, th_woken = []\<rparr>"

text \<open>The two steps of a poll; \<open>th_pending\<close> is the waker of the last poll that was pending.\<close>

definition poll_store :: "waker \<Rightarrow> 'a thread_future \<Rightarrow> 'a thread_future" where
  "poll_store w x = x\<lparr>th_waker := Some w, th_polling := Some w\<rparr>"

definition poll_take :: "'a thread_future \<Rightarrow> 'a thread_future" where
  "poll_take x =
    (case th_result x of
       Some res \<Rightarrow> x\<lparr>th_result := None, th_polling := None, th_output := Some res\<rparr>
     | None \<Rightarrow> x\<lparr>th_polling := None, th_pending := th_polling x\<rparr>)"

text \<open>The two steps of the thread; a search that finds no waker yields and searches again.\<close>

definition thread_store :: "'a \<Rightarrow> 'a thread_future \<Rightarrow> 'a thread_future" where
  "thread_store res x = x\<lparr>th_result := Some res, th_thread := Searching\<rparr>"

definition thread_search :: "'a thread_future \<Rightarrow> 'a thread_future" where
  "thread_search x =
    (case th_waker x of
       Some w \<Rightarrow> x\<lparr>th_waker := None, th_woken := th_woken x @ [w], th_thread := Finished\<rparr>
     | None \<Rightarrow> x)"

text \<open>The future is not polled again after it was ready. The function returns the value \<open>v\<close>.\<close>

inductive th_reach :: "'a \<Rightarrow> 'a thread_future \<Rightarrow> bool" for v where
  th_start: "th_reach v fn_thread_future"
| th_poll: "th_reach v x \<Longrightarrow> th_polling x = None \<Longrightarrow> th_output x = None \<Longrightarrow> th_reach v (poll_store w x)"
| th_take: "th_reach v x \<Longrightarrow> th_polling x = Some w \<Longrightarrow> th_reach v (poll_take x)"
| th_compute: "th_reach v x \<Longrightarrow> th_thread x = Computing \<Longrightarrow> th_reach v (thread_store v x)"
| th_search: "th_reach v x \<Longrightarrow> th_thread x = Searching \<Longrightarrow> th_reach v (thread_search x)"

lemmas thread_defs = fn_thread_future_def poll_store_def poll_take_def thread_store_def thread_search_def

text \<open>
  The result is in its cell from the moment it is known until a poll takes it. As long as the thread has not
  woken anyone, the waker of the latest poll is in its cell, and a poll that was pending ended before the result
  was known.
\<close>

definition th_inv :: "'a \<Rightarrow> 'a thread_future \<Rightarrow> bool" where
  "th_inv v x \<longleftrightarrow>
    (if th_thread x = Computing then th_result x = None \<and> th_output x = None
     else th_output x = None \<longrightarrow> th_result x = Some v) \<and>
    (th_output x \<noteq> None \<longrightarrow> th_output x = Some v \<and> th_polling x = None) \<and>
    (\<forall>w. th_polling x = Some w \<and> th_thread x \<noteq> Finished \<longrightarrow> th_waker x = Some w) \<and>
    (\<forall>w. th_polling x = None \<and> th_output x = None \<and> th_pending x = Some w \<longrightarrow>
      (if th_thread x = Finished then w \<in> set (th_woken x) else th_waker x = Some w))"

lemma th_inv_reach: "th_reach v x \<Longrightarrow> th_inv v x"
proof (induction rule: th_reach.induct)
  case (th_take x w)
  then show ?case by (cases "th_result x") (auto simp: th_inv_def thread_defs split: if_splits)
next
  case (th_search x)
  then show ?case by (cases "th_waker x") (auto simp: th_inv_def thread_defs split: if_splits)
qed (auto simp: th_inv_def thread_defs split: if_splits)

text \<open>
  C14. The result of a thread reaches the waiting task: when the thread is done and the last poll of the future was
  pending, the waker of exactly that poll has been woken, and the poll that follows returns the value of the
  function; a poll never returns anything else.
\<close>

theorem thread_result_arrives:
  assumes "th_reach v x"
  shows "(th_output x = None \<or> th_output x = Some v) \<and>
    (th_thread x = Finished \<and> th_polling x = None \<and> th_output x = None \<longrightarrow>
      (\<forall>w. th_pending x = Some w \<longrightarrow> w \<in> set (th_woken x)) \<and>
      (\<forall>w. th_output (poll_take (poll_store w x)) = Some v))"
proof -
  have "th_inv v x" using assms by (rule th_inv_reach)
  then show ?thesis by (auto simp: th_inv_def poll_store_def poll_take_def)
qed

text \<open>A poll finds nothing, the thread finishes and wakes the task.\<close>

theorem thread_result_arrives_witness:
  "4 \<in> set (th_woken (thread_search (thread_store True (poll_take (poll_store 4 fn_thread_future)))))"
proof -
  let ?x = "thread_search (thread_store True (poll_take (poll_store 4 fn_thread_future)))"
  have "th_reach True (poll_store 4 fn_thread_future)"
    by (rule th_poll [OF th_start]) (simp_all add: thread_defs)
  then have "th_reach True (poll_take (poll_store 4 fn_thread_future))"
    by (rule th_take) (simp add: thread_defs)
  then have "th_reach True (thread_store True (poll_take (poll_store 4 fn_thread_future)))"
    by (rule th_compute) (simp add: thread_defs)
  then have "th_reach True ?x" by (rule th_search) (simp add: thread_defs)
  from thread_result_arrives [OF this] show ?thesis by (simp add: thread_defs)
qed

end
