(* ===== verification/Descriptors.thy ===== *)
theory Descriptors
  imports Futures
begin

text \<open>
  File descriptors and sockets: \<^verbatim>\<open>ArcFd\<close>, the helpers that make descriptors non-blocking and check it, and the
  module \<^verbatim>\<open>socket\<close> of \<^verbatim>\<open>rust/src/leo_async.rs\<close>, with the same helper of \<^verbatim>\<open>linux_tuntap.rs\<close> and
  \<^verbatim>\<open>mac_tuntap.rs\<close>. The kernel is an explicit store: descriptors point to open files, and the status flags
  belong to the file, so that a duplicate shares them. Whether a call succeeds is an argument, and so is the
  value of \<^verbatim>\<open>O_NONBLOCK\<close>.
\<close>

datatype fd_error = Dup_Failed | Fcntl_Failed | Socket_Failed | Sockopt_Failed | Poll_Error | No_Events

type_synonym 'a fd_result = "fd_error + 'a"

record kernel =
  descriptors :: "fd \<rightharpoonup> nat"
  file_flags :: "nat \<Rightarrow> u32"

section \<open>Descriptors\<close>

text \<open>\<^verbatim>\<open>fcntl(fd, F_GETFL)\<close> and \<^verbatim>\<open>fcntl(fd, F_SETFL, flags)\<close>, with \<open>None\<close> for the answer -1.\<close>

definition fcntl_getfl :: "fd \<Rightarrow> kernel \<Rightarrow> u32 option" where
  "fcntl_getfl fd k = map_option (file_flags k) (descriptors k fd)"

definition fcntl_setfl :: "bool \<Rightarrow> fd \<Rightarrow> u32 \<Rightarrow> kernel \<Rightarrow> kernel option" where
  "fcntl_setfl ok fd flags k =
    (case descriptors k fd of
       Some file \<Rightarrow> if ok then Some (k\<lparr>file_flags := (file_flags k)(file := flags)\<rparr>) else None
     | None \<Rightarrow> None)"

text \<open>\<^verbatim>\<open>ArcFd::dup\<close>; the answer of the system call is the new descriptor or -1.\<close>

definition ArcFd_dup :: "fd \<Rightarrow> int \<Rightarrow> kernel \<Rightarrow> fd fd_result \<times> kernel" where
  "ArcFd_dup fd answer k =
    (if answer = - 1 then (Inl Dup_Failed, k)
     else (Inr answer, k\<lparr>descriptors := (descriptors k)(answer := descriptors k fd)\<rparr>))"

definition fd_make_nonblocking :: "u32 \<Rightarrow> bool \<Rightarrow> fd \<Rightarrow> kernel \<Rightarrow> unit fd_result \<times> kernel" where
  "fd_make_nonblocking o_nonblock ok fd k =
    (case fcntl_getfl fd k of
       None \<Rightarrow> (Inl Fcntl_Failed, k)
     | Some flags \<Rightarrow>
         (case fcntl_setfl ok fd (flags OR o_nonblock) k of
            None \<Rightarrow> (Inl Fcntl_Failed, k)
          | Some k \<Rightarrow> (Inr (), k)))"

text \<open>The device of \<^verbatim>\<open>linux_tuntap.rs\<close> has a copy of the function.\<close>

definition linux_fd_make_nonblocking :: "u32 \<Rightarrow> bool \<Rightarrow> fd \<Rightarrow> kernel \<Rightarrow> unit fd_result \<times> kernel" where
  "linux_fd_make_nonblocking = fd_make_nonblocking"

text \<open>On macOS a failure is logged and the descriptor is used as it is.\<close>

definition mac_make_nonblocking :: "u32 \<Rightarrow> bool \<Rightarrow> fd \<Rightarrow> kernel \<Rightarrow> kernel" where
  "mac_make_nonblocking o_nonblock ok fd k =
    (case fcntl_getfl fd k of
       None \<Rightarrow> k
     | Some flags \<Rightarrow>
         (case fcntl_setfl ok fd (flags OR o_nonblock) k of None \<Rightarrow> k | Some k \<Rightarrow> k))"

definition fd_assert_nonblocking :: "bool \<Rightarrow> u32 \<Rightarrow> fd \<Rightarrow> kernel \<Rightarrow> unit exec" where
  "fd_assert_nonblocking debug_assertions o_nonblock fd k =
    (if \<not> debug_assertions then Done ()
     else
       case fcntl_getfl fd k of
         None \<Rightarrow> Panic AssertFailed
       | Some flags \<Rightarrow> if flags AND o_nonblock = 0 then Panic AssertFailed else Done ())"

text \<open>
  \<^verbatim>\<open>AsyncRead\<close> and \<^verbatim>\<open>AsyncWrite\<close> of \<^verbatim>\<open>ArcFd\<close> check the descriptor at every poll, \<^verbatim>\<open>read_fd\<close> and \<^verbatim>\<open>write_fd\<close> when the future
  is made. \<^verbatim>\<open>read_fd\<close> has no case for an interrupted call, which it reports as an error.
\<close>

definition poll_read ::
  "bool \<Rightarrow> u32 \<Rightarrow> kernel \<Rightarrow> fd \<Rightarrow> io \<Rightarrow> waker \<Rightarrow> ((unit + nat) poll \<times> poll_effect list) exec"
where
  "poll_read debug_assertions o_nonblock k fd answer w =
    exec_bind (fd_assert_nonblocking debug_assertions o_nonblock fd k) (\<lambda>_. Done (poll_io fd Read answer w))"

definition poll_write ::
  "bool \<Rightarrow> u32 \<Rightarrow> kernel \<Rightarrow> fd \<Rightarrow> io \<Rightarrow> waker \<Rightarrow> ((unit + nat) poll \<times> poll_effect list) exec"
where
  "poll_write debug_assertions o_nonblock k fd answer w =
    exec_bind (fd_assert_nonblocking debug_assertions o_nonblock fd k) (\<lambda>_. Done (poll_io fd Write answer w))"

definition read_fd ::
  "bool \<Rightarrow> u32 \<Rightarrow> kernel \<Rightarrow> fd \<Rightarrow> (io \<Rightarrow> waker \<Rightarrow> (unit + nat) poll \<times> poll_effect list) exec"
where
  "read_fd debug_assertions o_nonblock k fd =
    exec_bind (fd_assert_nonblocking debug_assertions o_nonblock fd k) (\<lambda>_.
    Done (\<lambda>answer w. case answer of Io_Intr \<Rightarrow> (Ready (Inl ()), []) | _ \<Rightarrow> poll_io fd Read answer w))"

definition write_fd ::
  "bool \<Rightarrow> u32 \<Rightarrow> kernel \<Rightarrow> fd \<Rightarrow> (io \<Rightarrow> waker \<Rightarrow> (unit + nat) poll \<times> poll_effect list) exec"
where
  "write_fd debug_assertions o_nonblock k fd =
    exec_bind (fd_assert_nonblocking debug_assertions o_nonblock fd k) (\<lambda>_. Done (poll_io fd Write))"

text \<open>
  \<^verbatim>\<open>fd_readable\<close> and \<^verbatim>\<open>fd_writable\<close>: the answer of \<^verbatim>\<open>poll\<close> is an error, unknown events, or whether the event asked
  for is set.
\<close>

definition fd_ready :: "bool option option \<Rightarrow> bool fd_result" where
  "fd_ready answer =
    (case answer of
       None \<Rightarrow> Inl Poll_Error
     | Some None \<Rightarrow> Inl No_Events
     | Some (Some event) \<Rightarrow> Inr event)"

text \<open>The first lines of \<^verbatim>\<open>TunInterface::run\<close>: two duplicates, both made non-blocking, failures unwrapped.\<close>

definition tun_run_fds :: "u32 \<Rightarrow> int \<Rightarrow> int \<Rightarrow> bool \<Rightarrow> bool \<Rightarrow> fd \<Rightarrow> kernel \<Rightarrow> (fd \<times> fd \<times> kernel) exec" where
  "tun_run_fds o_nonblock dup1 dup2 ok1 ok2 fd k =
    (case ArcFd_dup fd dup1 k of
       (Inl _, k) \<Rightarrow> Panic UnwrapFailed
     | (Inr rfd, k) \<Rightarrow>
         (case ArcFd_dup fd dup2 k of
            (Inl _, k) \<Rightarrow> Panic UnwrapFailed
          | (Inr wfd, k) \<Rightarrow>
              (case linux_fd_make_nonblocking o_nonblock ok1 rfd k of
                 (Inl _, k) \<Rightarrow> Panic UnwrapFailed
               | (Inr _, k) \<Rightarrow>
                   (case linux_fd_make_nonblocking o_nonblock ok2 wfd k of
                      (Inl _, k) \<Rightarrow> Panic UnwrapFailed
                    | (Inr _, k) \<Rightarrow> Done (rfd, wfd, k)))))"

section \<open>Sockets\<close>

definition socket :: "int \<Rightarrow> fd fd_result" where
  "socket answer = (if answer = - 1 then Inl Socket_Failed else Inr answer)"

definition set_nodelay :: "int \<Rightarrow> unit fd_result exec" where
  "set_nodelay answer =
    (if answer = 0 then Done (Inr ()) else if answer = - 1 then Done (Inl Sockopt_Failed) else Panic Unreachable)"

text \<open>\<^verbatim>\<open>std::net::SocketAddr\<close>\<close>

datatype SocketAddr = Sock_V4 u8 u8 u8 u8 u16 | Sock_V6 bytes u16

text \<open>\<^verbatim>\<open>Ipv4Addr::to_bits\<close>, and \<^verbatim>\<open>to_be\<close> on a little-endian target.\<close>

definition ip_to_bits :: "u8 \<Rightarrow> u8 \<Rightarrow> u8 \<Rightarrow> u8 \<Rightarrow> u32" where
  "ip_to_bits a b c d = from_le_bytes [d, c, b, a]"

definition to_be :: "nat \<Rightarrow> 'a::len word \<Rightarrow> 'a word" where
  "to_be n w = from_le_bytes (rev (to_le_bytes n w))"

text \<open>The bytes of \<^verbatim>\<open>sockaddr_in\<close> on Linux, where \<^verbatim>\<open>AF_INET\<close> is 2.\<close>

definition sockaddr_in :: "u8 \<Rightarrow> u8 \<Rightarrow> u8 \<Rightarrow> u8 \<Rightarrow> u16 \<Rightarrow> bytes" where
  "sockaddr_in a b c d port =
    to_le_bytes 2 (2 :: u16) @ to_le_bytes 2 (to_be 2 port) @ to_le_bytes 4 (to_be 4 (ip_to_bits a b c d)) @
    replicate 8 0"

datatype errno = EINPROGRESS | EALREADY | EISCONN | Errno int

datatype connect_error = Connect_Failed errno | Wait_Failed

text \<open>
  \<^verbatim>\<open>connect\<close> up to its \<^verbatim>\<open>await\<close>: what the system call and \<^verbatim>\<open>errno\<close> say decides between an error, being
  connected, and waiting until the socket is writable.
\<close>

definition connect_call :: "SocketAddr \<Rightarrow> int \<Rightarrow> errno \<Rightarrow> (connect_error + bool) exec" where
  "connect_call addr conn_res err =
    (case addr of
       Sock_V6 _ _ \<Rightarrow> Panic Unimplemented
     | Sock_V4 _ _ _ _ _ \<Rightarrow>
         if conn_res = 0 then Done (Inr True)
         else if conn_res = - 1 then
           (case err of
              EINPROGRESS \<Rightarrow> Done (Inr False)
            | EALREADY \<Rightarrow> Done (Inr False)
            | EISCONN \<Rightarrow> Done (Inr True)
            | Errno _ \<Rightarrow> Done (Inl (Connect_Failed err)))
         else Panic Unreachable)"

text \<open>The future: \<open>writable\<close> is what \<^verbatim>\<open>fd_writable\<close> finds at a given time, \<open>None\<close> for an error.\<close>

definition connect_poll ::
  "fd \<Rightarrow> (instant \<Rightarrow> bool option) \<Rightarrow> (connect_error + bool, connect_error + unit) future"
where
  "connect_poll fd writable now w call =
    (case call of
       Inl e \<Rightarrow> (Ready (Inl e), [], call)
     | Inr True \<Rightarrow> (Ready (Inr ()), [], call)
     | Inr False \<Rightarrow>
         (case fd_wait fd Write (writable now) w of
            (Ready (Inl _), es) \<Rightarrow> (Ready (Inl Wait_Failed), es, call)
          | (Ready (Inr _), es) \<Rightarrow> (Ready (Inr ()), es, call)
          | (Pending, es) \<Rightarrow> (Pending, es, call)))"

interpretation connecting: responsive "connect_poll fd writable" "\<lambda>_ _. True" for fd writable
  by unfold_locales
    (auto simp: connect_poll_def fd_wait_def intro!: arranged_poll split: sum.splits bool.splits option.splits)

section \<open>Properties\<close>

lemma or_and_nonzero: "o_nonblock \<noteq> 0 \<Longrightarrow> (flags OR o_nonblock) AND o_nonblock \<noteq> (0 :: u32)"
  by (metis and.commute word_bw_lcs(1) word_oa_dist and.idem or.commute word_ao_absorbs(1))

lemma nonblocking_file:
  assumes "fd_make_nonblocking o_nonblock ok fd k = (Inr (), k')"
  shows "\<exists>fl. descriptors k fd = Some fl \<and> descriptors k' = descriptors k \<and>
    file_flags k' = (file_flags k)(fl := file_flags k fl OR o_nonblock)"
  using assms
  by (auto simp: fd_make_nonblocking_def fcntl_getfl_def fcntl_setfl_def split: option.splits if_splits)

lemma assert_file:
  "descriptors k fd = Some fl \<Longrightarrow> file_flags k fl AND o_nonblock \<noteq> 0 \<Longrightarrow>
   fd_assert_nonblocking debug o_nonblock fd k = Done ()"
  by (simp add: fd_assert_nonblocking_def fcntl_getfl_def)

text \<open>
  The descriptors of the TUN tasks pass the checks of \<^verbatim>\<open>read_fd\<close> and \<^verbatim>\<open>write_fd\<close>: when \<^verbatim>\<open>run\<close> starts its tasks,
  both duplicates, and with them the descriptor they were made from, are non-blocking, so the assertion does not
  panic in a debug build; all other status flags of the file are as before.
\<close>

theorem tun_fds_nonblocking:
  assumes "tun_run_fds o_nonblock dup1 dup2 ok1 ok2 fd k = Done (rfd, wfd, k')" and "o_nonblock \<noteq> 0"
  shows "(\<exists>f. read_fd debug o_nonblock k' rfd = Done f) \<and> (\<exists>f. write_fd debug o_nonblock k' wfd = Done f) \<and>
    fd_assert_nonblocking debug o_nonblock fd k' = Done () \<and>
    fcntl_getfl rfd k' = map_option (\<lambda>flags. flags OR o_nonblock) (fcntl_getfl fd k)"
proof -
  let ?k2 = "k\<lparr>descriptors := (descriptors k)(dup1 := descriptors k fd, dup2 := descriptors k fd)\<rparr>"
  obtain k3 where k3: "fd_make_nonblocking o_nonblock ok1 rfd ?k2 = (Inr (), k3)"
      and k4: "fd_make_nonblocking o_nonblock ok2 wfd k3 = (Inr (), k')" and fds: "rfd = dup1" "wfd = dup2"
    using assms(1) by (fastforce simp: tun_run_fds_def linux_fd_make_nonblocking_def ArcFd_dup_def split: prod.splits sum.splits if_splits)
  obtain fl where fl: "descriptors k fd = Some fl" "descriptors k' = descriptors ?k2"
      "file_flags k' fl = file_flags k fl OR o_nonblock"
    using nonblocking_file [OF k3] nonblocking_file [OF k4] fds by (auto split: if_splits simp: or.assoc)
  then have "descriptors k' rfd = Some fl" "descriptors k' wfd = Some fl" "descriptors k' fd = Some fl"
    using fds by simp_all
  moreover have "file_flags k' fl AND o_nonblock \<noteq> 0"
    using fl(3) or_and_nonzero [OF assms(2)] by simp
  ultimately show ?thesis
    using assert_file [of k' _ fl o_nonblock debug] fl by (simp add: fcntl_getfl_def read_fd_def write_fd_def)
qed

theorem tun_fds_nonblocking_witness:
  "\<exists>k'. tun_run_fds 0x800 8 9 True True 7 \<lparr>descriptors = [7 \<mapsto> 0], file_flags = (\<lambda>_. 2)\<rparr> = Done (8, 9, k') \<and>
     (\<exists>f. read_fd True 0x800 k' 8 = Done f)"
proof -
  obtain k' where run: "tun_run_fds 0x800 8 9 True True 7 \<lparr>descriptors = [7 \<mapsto> 0], file_flags = (\<lambda>_. 2)\<rparr> =
      Done (8, 9, k')"
    by (simp add: tun_run_fds_def ArcFd_dup_def linux_fd_make_nonblocking_def fd_make_nonblocking_def fcntl_getfl_def fcntl_setfl_def)
  then show ?thesis using tun_fds_nonblocking [OF run, of True] by simp
qed

text \<open>The bytes of a socket address, as the kernel reads them: network byte order for port and address.\<close>

lemma to_le_bytes_to_be: "8 * n = LENGTH('a) \<Longrightarrow> to_le_bytes n (to_be n (w :: 'a::len word)) = rev (to_le_bytes n w)"
  by (simp add: to_be_def)

lemma sockaddr_in_bytes:
  "sockaddr_in a b c d port = [2, 0, ucast (drop_bit 8 port), ucast port, a, b, c, d, 0, 0, 0, 0, 0, 0, 0, 0]"
proof -
  have "to_le_bytes 4 (ip_to_bits a b c d) = [d, c, b, a]" by (simp add: ip_to_bits_def del: from_le_bytes.simps)
  then have "to_le_bytes 4 (to_be 4 (ip_to_bits a b c d)) = [a, b, c, d]" by (simp add: to_le_bytes_to_be)
  moreover have "to_le_bytes 2 (to_be 2 port) = [ucast (drop_bit 8 port), ucast port]"
    using to_le_bytes_to_be [of 2 port] by (simp add: to_le_bytes_2)
  moreover have "to_le_bytes 2 (2 :: u16) = [2, 0]" by (simp add: to_le_bytes_2)
  moreover have "replicate 8 (0 :: u8) = [0, 0, 0, 0, 0, 0, 0, 0]" by (simp add: eval_nat_numeral)
  ultimately show ?thesis by (simp add: sockaddr_in_def)
qed

lemma connect_poll_cases:
  "connect_poll fd writable now w call =
    (case call of
       Inl e \<Rightarrow> (Ready (Inl e), [], call)
     | Inr connected \<Rightarrow>
         if connected \<or> writable now = Some True then (Ready (Inr ()), [], call)
         else if writable now = None then (Ready (Inl Wait_Failed), [], call)
         else (Pending, [Register_Poll fd Write w], call))"
  by (auto simp: connect_poll_def fd_wait_def split: sum.splits bool.splits option.splits)

lemma dial_poll:
  assumes "TimeoutFuture_poll (connect_poll fd writable) now w f = (r, es, g)" and "tf_future f = call"
  shows "tf_future g = call \<and> tf_timeout_at g = tf_timeout_at f \<and>
    (r = Pending \<longrightarrow> call = Inr False \<and> now < tf_timeout_at f \<and> writable now = Some False \<and> Register_Poll fd Write w \<in> set es) \<and>
    (r = Ready (Inr (Inr ())) \<longrightarrow> call = Inr True \<or> now < tf_timeout_at f \<and> writable now = Some True) \<and>
    (r = Ready (Inl ()) \<longrightarrow> tf_timeout_at f \<le> now)"
  using assms
  by (cases "writable now"; cases call)
    (auto simp: TimeoutFuture_poll_def connect_poll_cases Let_def split: if_splits)

lemma dial_run:
  assumes "run_future (TimeoutFuture_poll (connect_poll fd writable)) ps f = (r, es, g)" and "ps \<noteq> []"
    and "tf_future f = call" and "tf_timeout_at f = T"
  shows "(r = Pending \<longrightarrow> call = Inr False \<and> (\<forall>(now, _) \<in> set ps. now < T \<and> writable now = Some False) \<and>
      Register_Poll fd Write (snd (last ps)) \<in> set es) \<and>
    (r = Ready (Inr (Inr ())) \<longrightarrow> call = Inr True \<or> (\<exists>(now, _) \<in> set ps. now < T \<and> writable now = Some True)) \<and>
    (r = Ready (Inl ()) \<longrightarrow> (\<exists>(now, _) \<in> set ps. T \<le> now))"
  using assms
proof (induction ps arbitrary: f es)
  case Nil
  then show ?case by simp
next
  case (Cons p ps)
  obtain now w where p: "p = (now, w)" by fastforce
  obtain r1 es1 f1 where one: "TimeoutFuture_poll (connect_poll fd writable) now w f = (r1, es1, f1)"
    by (cases "TimeoutFuture_poll (connect_poll fd writable) now w f")
  note poll = dial_poll [OF one Cons.prems(3)]
  show ?case
  proof (cases "r1 = Pending \<and> ps \<noteq> []")
    case True
    then obtain es2 where "run_future (TimeoutFuture_poll (connect_poll fd writable)) ps f1 = (r, es2, g)" "es = es1 @ es2"
      using Cons.prems(1) one by (auto simp: p split: prod.splits)
    then show ?thesis using Cons.IH [of f1 es2] True poll Cons.prems(3,4) by (auto simp: p)
  next
    case False
    then have "r = r1 \<and> es = es1 \<or> r1 \<noteq> Pending \<and> r = r1"
      using Cons.prems(1) one by (cases r1) (auto simp: p)
    then show ?thesis using poll Cons.prems(4) False by (auto simp: p)
  qed
qed

text \<open>
  C35. Dialling with a timeout, over any sequence of polls. While it is pending the connection is in progress, the
  socket was not writable at any poll, the deadline had not passed, and both a timer for the deadline and a
  registration of the socket wake the task. It succeeds only if the call succeeded at once or the socket was
  found writable before the deadline, and times out only after the deadline.
\<close>

theorem dial_outcome:
  assumes "run_future (TimeoutFuture_poll (connect_poll fd writable)) ps (timeout_future call d t0) = (r, es, g)"
    and "ps \<noteq> []"
  shows "(r = Pending \<longrightarrow> call = Inr False \<and>
      (\<forall>(now, _) \<in> set ps. now < t0 + d \<and> writable now = Some False) \<and>
      Register_Sleep (t0 + d) (snd (last ps)) \<in> set es \<and> Register_Poll fd Write (snd (last ps)) \<in> set es) \<and>
    (r = Ready (Inr (Inr ())) \<longrightarrow> call = Inr True \<or>
      (\<exists>(now, _) \<in> set ps. now < t0 + d \<and> writable now = Some True)) \<and>
    (r = Ready (Inl ()) \<longrightarrow> (\<exists>(now, _) \<in> set ps. t0 + d \<le> now))"
proof -
  have "timeout_inv [] (timeout_future call d t0)" by (simp add: timeout_inv_def timeout_future_def)
  then have "r = Pending \<longrightarrow> Register_Sleep (t0 + d) (snd (last ps)) \<in> set es"
    using timeout_run [of "[]" "timeout_future call d t0" ps "connect_poll fd writable" es g] assms
    by (auto simp: timeout_future_def)
  then show ?thesis
    using dial_run [OF assms, of call "t0 + d"] by (simp add: timeout_future_def)
qed

theorem dial_outcome_witness:
  "\<exists>es g. run_future (TimeoutFuture_poll (connect_poll 9 (\<lambda>now. Some (5 \<le> now)))) [(1, 4), (2, 6)]
     (timeout_future (Inr False) 30 0) = (Pending, es, g) \<and> Register_Sleep 30 6 \<in> set es \<and> Register_Poll 9 Write 6 \<in> set es"
proof -
  obtain es g where run: "run_future (TimeoutFuture_poll (connect_poll 9 (\<lambda>now. Some (5 \<le> now)))) [(1, 4), (2, 6)]
     (timeout_future (Inr False) 30 0) = (Pending, es, g)"
    by (simp add: TimeoutFuture_poll_def connect_poll_cases timeout_future_def)
  then show ?thesis using dial_outcome [OF run] by simp
qed

end
