(* ===== verification/Arc_Fd.thy ===== *)
theory Arc_Fd
  imports Descriptors "HOL-Library.Multiset"
begin

text \<open>
  Shared ownership of descriptors, the type \<^verbatim>\<open>ArcFd\<close> of \<^verbatim>\<open>rust/src/leo_async.rs\<close>. A handle points to a counted cell that
  owns a descriptor; cloning counts up, dropping counts down, and dropping the last handle closes the
  descriptor. Handles are compared and hashed by the number of the descriptor, which the kernel hands out
  again once it is closed. The theory models the cells next to the kernel of \<open>Descriptors\<close> and shows that no
  handle outlives its descriptor and no descriptor its handles. Making a handle of a descriptor that
  something else owns, as the macOS device does with one it then never drops (\<^verbatim>\<open>std::mem::forget\<close>), is not one of the steps.
\<close>

section \<open>Handles\<close>

datatype ArcFd = ArcFd (arc_cell: nat)

record fd_state =
  os :: kernel
  arcs :: "nat \<rightharpoonup> fd \<times> nat"
  next_arc :: nat

text \<open>\<^verbatim>\<open>Arc::new\<close> makes a cell with one handle.\<close>

definition arc_new :: "fd \<Rightarrow> fd_state \<Rightarrow> ArcFd \<times> fd_state" where
  "arc_new fd st =
    (ArcFd (next_arc st), st\<lparr>arcs := (arcs st)(next_arc st \<mapsto> (fd, 1)), next_arc := Suc (next_arc st)\<rparr>)"

definition from_owned_fd :: "fd \<Rightarrow> fd_state \<Rightarrow> ArcFd \<times> fd_state" where
  "from_owned_fd fd st = arc_new fd st"

text \<open>\<^verbatim>\<open>OwnedFd::from_raw_fd\<close> refuses -1.\<close>

definition from_raw_fd :: "fd \<Rightarrow> fd_state \<Rightarrow> (ArcFd \<times> fd_state) exec" where
  "from_raw_fd fd st = (if fd = - 1 then Panic AssertFailed else Done (arc_new fd st))"

definition as_raw_fd :: "ArcFd \<Rightarrow> fd_state \<Rightarrow> fd option" where
  "as_raw_fd a st = map_option fst (arcs st (arc_cell a))"

definition as_fd :: "ArcFd \<Rightarrow> fd_state \<Rightarrow> fd option" where
  "as_fd a st = as_raw_fd a st"

definition ArcFd_eq :: "ArcFd \<Rightarrow> ArcFd \<Rightarrow> fd_state \<Rightarrow> bool" where
  "ArcFd_eq a b st \<longleftrightarrow> as_raw_fd a st = as_raw_fd b st"

text \<open>The hasher is an argument: what it does with the number of a descriptor.\<close>

definition ArcFd_hash :: "(fd \<Rightarrow> 'h \<Rightarrow> 'h) \<Rightarrow> ArcFd \<Rightarrow> fd_state \<Rightarrow> 'h \<Rightarrow> 'h" where
  "ArcFd_hash hash_i32 a st state = (case as_raw_fd a st of None \<Rightarrow> state | Some fd \<Rightarrow> hash_i32 fd state)"

definition ArcFd_clone :: "ArcFd \<Rightarrow> fd_state \<Rightarrow> ArcFd \<times> fd_state" where
  "ArcFd_clone a st =
    (case arcs st (arc_cell a) of
       None \<Rightarrow> (a, st)
     | Some (fd, n) \<Rightarrow> (a, st\<lparr>arcs := (arcs st)(arc_cell a \<mapsto> (fd, n + 1))\<rparr>))"

text \<open>Dropping a handle; with the last one the \<^verbatim>\<open>OwnedFd\<close> is dropped, which closes the descriptor.\<close>

definition close_fd :: "fd \<Rightarrow> kernel \<Rightarrow> kernel" where
  "close_fd fd k = k\<lparr>descriptors := (descriptors k)(fd := None)\<rparr>"

definition ArcFd_drop :: "ArcFd \<Rightarrow> fd_state \<Rightarrow> fd_state" where
  "ArcFd_drop a st =
    (case arcs st (arc_cell a) of
       None \<Rightarrow> st
     | Some (fd, n) \<Rightarrow>
         if n = 1 then st\<lparr>os := close_fd fd (os st), arcs := (arcs st)(arc_cell a := None)\<rparr>
         else st\<lparr>arcs := (arcs st)(arc_cell a \<mapsto> (fd, n - 1))\<rparr>)"

text \<open>\<^verbatim>\<open>ArcFd::dup\<close> asks the kernel for another descriptor of the file and makes a cell of its own for it.\<close>

definition arc_dup :: "ArcFd \<Rightarrow> int \<Rightarrow> fd_state \<Rightarrow> (ArcFd fd_result \<times> fd_state) exec" where
  "arc_dup a answer st =
    (case as_raw_fd a st of
       None \<Rightarrow> Done (Inl Dup_Failed, st)
     | Some fd \<Rightarrow>
         (case ArcFd_dup fd answer (os st) of
            (Inl e, k) \<Rightarrow> Done (Inl e, st\<lparr>os := k\<rparr>)
          | (Inr fd, k) \<Rightarrow>
              (case from_raw_fd fd (st\<lparr>os := k\<rparr>) of
                 Done (b, st) \<Rightarrow> Done (Inr b, st)
               | Panic p \<Rightarrow> Panic p
               | Diverges \<Rightarrow> Diverges)))"

section \<open>Programs that use handles\<close>

text \<open>
  A state of the program is the handles it holds, with multiplicity, and the cells. A step gets a descriptor from
  the kernel, which answers with a free number, and wraps it; clones, drops or duplicates a handle it holds.
\<close>

definition open_fd :: "fd \<Rightarrow> nat \<Rightarrow> fd_state \<Rightarrow> fd_state" where
  "open_fd fd fl st = st\<lparr>os := (os st)\<lparr>descriptors := (descriptors (os st))(fd \<mapsto> fl)\<rparr>\<rparr>"

inductive fd_step :: "ArcFd multiset \<times> fd_state \<Rightarrow> ArcFd multiset \<times> fd_state \<Rightarrow> bool" where
  step_own: "descriptors (os st) fd = None \<Longrightarrow> from_owned_fd fd (open_fd fd fl st) = (a, st') \<Longrightarrow>
    fd_step (H, st) (add_mset a H, st')"
| step_raw: "descriptors (os st) fd = None \<Longrightarrow> from_raw_fd fd (open_fd fd fl st) = Done (a, st') \<Longrightarrow>
    fd_step (H, st) (add_mset a H, st')"
| step_clone: "a \<in># H \<Longrightarrow> ArcFd_clone a st = (b, st') \<Longrightarrow> fd_step (H, st) (add_mset b H, st')"
| step_drop: "a \<in># H \<Longrightarrow> fd_step (H, st) (H - {#a#}, ArcFd_drop a st)"
| step_dup: "a \<in># H \<Longrightarrow> descriptors (os st) answer = None \<Longrightarrow> arc_dup a answer st = Done (Inr b, st') \<Longrightarrow>
    fd_step (H, st) (add_mset b H, st')"
| step_dup_failed: "a \<in># H \<Longrightarrow> arc_dup a (- 1) st = Done (Inl e, st') \<Longrightarrow> fd_step (H, st) (H, st')"

definition fd_init :: "kernel \<Rightarrow> ArcFd multiset \<times> fd_state" where
  "fd_init k = ({#}, \<lparr>os = k, arcs = Map.empty, next_arc = 0\<rparr>)"

section \<open>The invariant\<close>

text \<open>
  The count of a cell is the number of handles the program holds on it; different cells own different
  descriptors; and the open descriptors are those open at the start and the owned ones.
\<close>

definition owned :: "fd_state \<Rightarrow> fd set" where
  "owned st = {fd. \<exists>c n. arcs st c = Some (fd, n)}"

definition counted_inv :: "ArcFd multiset \<times> fd_state \<Rightarrow> bool" where
  "counted_inv s \<longleftrightarrow>
    (\<forall>c. count (fst s) (ArcFd c) = (case arcs (snd s) c of None \<Rightarrow> 0 | Some (_, n) \<Rightarrow> n)) \<and>
    (\<forall>c fd n. arcs (snd s) c = Some (fd, n) \<longrightarrow> 0 < n \<and> c < next_arc (snd s))"

definition unique_inv :: "fd_state \<Rightarrow> bool" where
  "unique_inv st \<longleftrightarrow> (\<forall>c d fd n m. arcs st c = Some (fd, n) \<longrightarrow> arcs st d = Some (fd, m) \<longrightarrow> c = d)"

definition open_inv :: "fd set \<Rightarrow> fd_state \<Rightarrow> bool" where
  "open_inv base st \<longleftrightarrow> dom (descriptors (os st)) = base \<union> owned st \<and> base \<inter> owned st = {}"

definition fd_inv :: "fd set \<Rightarrow> ArcFd multiset \<times> fd_state \<Rightarrow> bool" where
  "fd_inv base s \<longleftrightarrow> counted_inv s \<and> unique_inv (snd s) \<and> open_inv base (snd s)"

lemma held_cell:
  assumes "counted_inv (H, st)" and "a \<in># H"
  shows "\<exists>fd. arcs st (arc_cell a) = Some (fd, count H a) \<and> 0 < count H a \<and> arc_cell a < next_arc st"
proof -
  obtain c where a: "a = ArcFd c" by (cases a)
  have "count H (ArcFd c) = (case arcs st c of None \<Rightarrow> 0 | Some (_, n) \<Rightarrow> n)"
    using assms(1) unfolding counted_inv_def by simp
  moreover have "0 < count H (ArcFd c)" using assms(2) a by simp
  ultimately show ?thesis using assms(1) unfolding counted_inv_def a by (cases "arcs st c") auto
qed

lemma fresh_cell: "counted_inv (H, st) \<Longrightarrow> arcs st (next_arc st) = None"
  by (cases "arcs st (next_arc st)") (auto simp: counted_inv_def)

lemma owned_close:
  assumes "unique_inv st" and "arcs st c = Some (fd, n)"
  shows "owned (st\<lparr>os := k, arcs := (arcs st)(c := None)\<rparr>) = owned st - {fd}"
proof -
  have "fd' \<in> owned (st\<lparr>os := k, arcs := (arcs st)(c := None)\<rparr>) \<longleftrightarrow> fd' \<in> owned st \<and> fd' \<noteq> fd" for fd'
    using assms unfolding owned_def unique_inv_def by simp (metis option.inject prod.inject)
  then show ?thesis by blast
qed

lemma owned_count:
  assumes "arcs st c = Some (fd, n)"
  shows "owned (st\<lparr>arcs := (arcs st)(c \<mapsto> (fd, m))\<rparr>) = owned st"
proof -
  have "fd' \<in> owned (st\<lparr>arcs := (arcs st)(c \<mapsto> (fd, m))\<rparr>) \<longleftrightarrow> fd' \<in> owned st" for fd'
    using assms unfolding owned_def by simp (metis option.inject prod.inject)
  then show ?thesis by blast
qed

lemma owned_new:
  assumes "arcs st c = None"
  shows "owned (st\<lparr>os := k, arcs := (arcs st)(c \<mapsto> (fd, n)), next_arc := i\<rparr>) = insert fd (owned st)"
proof -
  have "fd' \<in> owned (st\<lparr>os := k, arcs := (arcs st)(c \<mapsto> (fd, n)), next_arc := i\<rparr>) \<longleftrightarrow> fd' = fd \<or> fd' \<in> owned st" for fd'
    using assms unfolding owned_def by simp (metis option.distinct(1))
  then show ?thesis by blast
qed

text \<open>A new cell for a free descriptor.\<close>

lemma fd_inv_new:
  assumes "fd_inv base (H, st)" and "descriptors (os st) fd = None" and "arc_new fd (open_fd fd fl st) = (a, st')"
  shows "fd_inv base (add_mset a H, st')"
proof -
  have st': "a = ArcFd (next_arc st)"
    "st' = st\<lparr>os := (os st)\<lparr>descriptors := (descriptors (os st))(fd \<mapsto> fl)\<rparr>,
       arcs := (arcs st)(next_arc st \<mapsto> (fd, 1)), next_arc := Suc (next_arc st)\<rparr>"
    using assms(3) by (auto simp: arc_new_def open_fd_def)
  have none: "arcs st (next_arc st) = None" using assms(1) fresh_cell [of H st] by (simp add: fd_inv_def)
  have free: "fd \<notin> owned st" "fd \<notin> base"
    using assms(1,2) by (auto simp: fd_inv_def open_inv_def domIff)
  have "counted_inv (add_mset a H, st')"
    using assms(1) none unfolding fd_inv_def counted_inv_def st'
    by (auto simp: less_Suc_eq split: option.splits)
  moreover have "unique_inv st'" using assms(1) free by (auto simp: fd_inv_def unique_inv_def owned_def st')
  moreover have "owned st' = insert fd (owned st)"
    unfolding st' using none by (rule owned_new)
  then have "open_inv base st'" using assms(1) free by (auto simp: fd_inv_def open_inv_def st')
  ultimately show ?thesis by (simp add: fd_inv_def)
qed

text \<open>A count that changes with the number of handles.\<close>

lemma fd_inv_count:
  assumes "fd_inv base (H, st)" and "arcs st c = Some (fd, n)" and "0 < m"
    and "\<And>d. count H' (ArcFd d) = (if d = c then m else count H (ArcFd d))"
  shows "fd_inv base (H', st\<lparr>arcs := (arcs st)(c \<mapsto> (fd, m))\<rparr>)"
proof -
  let ?st = "st\<lparr>arcs := (arcs st)(c \<mapsto> (fd, m))\<rparr>"
  have "counted_inv (H', ?st)" using assms by (auto simp: fd_inv_def counted_inv_def)
  moreover have "unique_inv ?st" using assms(1,2) by (auto simp: fd_inv_def unique_inv_def)
  moreover have "owned ?st = owned st" using assms(2) by (rule owned_count)
  ultimately show ?thesis using assms(1) by (simp add: fd_inv_def open_inv_def)
qed

lemma fd_inv_close:
  assumes "fd_inv base (H, st)" and "arcs st (arc_cell a) = Some (fd, 1)" and "count H a = 1"
  shows "fd_inv base (H - {#a#}, st\<lparr>os := close_fd fd (os st), arcs := (arcs st)(arc_cell a := None)\<rparr>)"
proof -
  have "fd \<in> owned st" using assms(2) by (auto simp: owned_def)
  then have "open_inv base (st\<lparr>os := close_fd fd (os st), arcs := (arcs st)(arc_cell a := None)\<rparr>)"
    using assms(1) owned_close [OF _ assms(2)] by (auto simp: fd_inv_def open_inv_def close_fd_def)
  moreover have "counted_inv (H - {#a#}, st\<lparr>os := close_fd fd (os st), arcs := (arcs st)(arc_cell a := None)\<rparr>)"
    using assms(1,3) by (cases a) (auto simp: fd_inv_def counted_inv_def)
  ultimately show ?thesis using assms(1) by (auto simp: fd_inv_def unique_inv_def)
qed

lemma arc_dup_Inr:
  assumes "arc_dup a answer st = Done (Inr b, st')"
  shows "\<exists>fl. descriptors (os st) answer = None \<longrightarrow> counted_inv (H, st) \<longrightarrow> open_inv base st \<longrightarrow> a \<in># H \<longrightarrow>
    arc_new answer (open_fd answer fl st) = (b, st')"
proof (cases "a \<in># H \<and> counted_inv (H, st) \<and> open_inv base st")
  case True
  then obtain fd where fd: "arcs st (arc_cell a) = Some (fd, count H a)" using held_cell by blast
  then have "fd \<in> dom (descriptors (os st))" using True by (auto simp: open_inv_def owned_def)
  then show ?thesis
    using assms fd
    by (auto simp: arc_dup_def as_raw_fd_def ArcFd_dup_def from_raw_fd_def open_fd_def split: if_splits prod.splits)
qed blast

lemma fd_inv_step: "fd_step s s' \<Longrightarrow> fd_inv base s \<Longrightarrow> fd_inv base s'"
proof (induction rule: fd_step.induct)
  case (step_own st fd fl a st' H)
  then show ?case using fd_inv_new [of base H st fd] by (simp add: from_owned_fd_def)
next
  case (step_raw st fd fl a st' H)
  then show ?case using fd_inv_new [of base H st fd] by (simp add: from_raw_fd_def split: if_splits)
next
  case (step_clone a H st b st')
  then obtain fd where fd: "arcs st (arc_cell a) = Some (fd, count H a)" using held_cell [of H st a] by (auto simp: fd_inv_def)
  then have "b = a" "st' = st\<lparr>arcs := (arcs st)(arc_cell a \<mapsto> (fd, count H a + 1))\<rparr>"
    using step_clone.hyps(2) by (auto simp: ArcFd_clone_def)
  moreover have "fd_inv base (add_mset a H, st\<lparr>arcs := (arcs st)(arc_cell a \<mapsto> (fd, count H a + 1))\<rparr>)"
    by (rule fd_inv_count [OF step_clone.prems fd]) (cases a; simp)+
  ultimately show ?case by simp
next
  case (step_drop a H st)
  then obtain fd where fd: "arcs st (arc_cell a) = Some (fd, count H a)" "0 < count H a"
    using held_cell [of H st a] by (auto simp: fd_inv_def)
  show ?case
  proof (cases "count H a = 1")
    case True
    then show ?thesis using fd_inv_close [OF step_drop.prems] fd by (simp add: ArcFd_drop_def)
  next
    case False
    have "count (H - {#a#}) (ArcFd d) = (if d = arc_cell a then count H a - 1 else count H (ArcFd d))" for d
      by (cases a) auto
    from _ this have "fd_inv base (H - {#a#}, st\<lparr>arcs := (arcs st)(arc_cell a \<mapsto> (fd, count H a - 1))\<rparr>)"
      by (rule fd_inv_count [OF step_drop.prems fd(1)]) (use False fd(2) in linarith)
    then show ?thesis using False fd(1) by (simp add: ArcFd_drop_def)
  qed
next
  case (step_dup a H st answer b st')
  then obtain fl where "arc_new answer (open_fd answer fl st) = (b, st')"
    using arc_dup_Inr [OF step_dup.hyps(3), of H base] by (auto simp: fd_inv_def)
  then show ?case using fd_inv_new step_dup.prems step_dup.hyps(2) by blast
next
  case (step_dup_failed a H st e st')
  then show ?case by (auto simp: arc_dup_def ArcFd_dup_def split: option.splits)
qed

section \<open>Properties\<close>

lemma fd_inv_init: "fd_inv (dom (descriptors k)) (fd_init k)"
  by (simp add: fd_inv_def counted_inv_def unique_inv_def open_inv_def owned_def fd_init_def)

lemma fd_inv_run: "fd_step\<^sup>*\<^sup>* s s' \<Longrightarrow> fd_inv base s \<Longrightarrow> fd_inv base s'"
  by (induction rule: rtranclp_induct) (auto dest: fd_inv_step)

text \<open>What a cell stands for: its descriptor and the open file behind it. A cell that is dropped never returns.\<close>

definition cell_file :: "nat \<Rightarrow> fd_state \<Rightarrow> (fd \<times> nat option) option" where
  "cell_file c st = map_option (\<lambda>(fd, _). (fd, descriptors (os st) fd)) (arcs st c)"

definition kept :: "nat \<Rightarrow> fd_state \<Rightarrow> fd_state \<Rightarrow> bool" where
  "kept c st st' \<longleftrightarrow> c < next_arc st' \<and> (cell_file c st' = None \<or> cell_file c st' = cell_file c st)"

lemma kept_new:
  assumes "fd_inv base (H, st)" and "descriptors (os st) fd = None" and "arc_new fd (open_fd fd fl st) = (a, st')"
    and "c < next_arc st"
  shows "kept c st st'"
proof -
  have "fd \<notin> owned st" using assms(1,2) by (auto simp: fd_inv_def open_inv_def domIff)
  then show ?thesis
    using assms(3,4) by (cases "arcs st c") (auto simp: kept_def cell_file_def arc_new_def open_fd_def owned_def split: if_splits)
qed

lemma kept_step: "fd_step s s' \<Longrightarrow> fd_inv base s \<Longrightarrow> c < next_arc (snd s) \<Longrightarrow> kept c (snd s) (snd s')"
proof (induction rule: fd_step.induct)
  case (step_own st fd fl a st' H)
  then show ?case using kept_new [of base H st fd] by (simp add: from_owned_fd_def)
next
  case (step_raw st fd fl a st' H)
  then show ?case using kept_new [of base H st fd] by (simp add: from_raw_fd_def split: if_splits)
next
  case (step_clone a H st b st')
  then show ?case by (auto simp: kept_def cell_file_def ArcFd_clone_def split: option.splits)
next
  case (step_drop a H st)
  have "fd' \<noteq> fd" if "arcs st c = Some (fd', n)" "arcs st (arc_cell a) = Some (fd, m)" "c \<noteq> arc_cell a" for fd fd' n m
    using that step_drop.prems(1) by (auto simp: fd_inv_def unique_inv_def)
  then show ?case
    using step_drop.prems
    by (cases "arcs st c") (auto simp: kept_def cell_file_def ArcFd_drop_def close_fd_def split: option.splits)
next
  case (step_dup a H st answer b st')
  then obtain fl where "arc_new answer (open_fd answer fl st) = (b, st')"
    using arc_dup_Inr [OF step_dup.hyps(3), of H base] by (auto simp: fd_inv_def)
  then show ?case using kept_new step_dup by fastforce
next
  case (step_dup_failed a H st e st')
  then show ?case by (auto simp: kept_def arc_dup_def ArcFd_dup_def split: option.splits)
qed

lemma kept_run: "fd_step\<^sup>*\<^sup>* s s' \<Longrightarrow> fd_inv base s \<Longrightarrow> c < next_arc (snd s) \<Longrightarrow> kept c (snd s) (snd s')"
proof (induction rule: rtranclp_induct)
  case base
  then show ?case by (simp add: kept_def)
next
  case (step s' s'')
  then have first: "kept c (snd s) (snd s')" by blast
  have "fd_inv base s'" using step.hyps(1) step.prems(1) by (rule fd_inv_run)
  then have "kept c (snd s') (snd s'')"
    using kept_step [OF step.hyps(2)] first by (simp add: kept_def)
  with first show ?case by (auto simp: kept_def)
qed

text \<open>
  C15. Descriptors live exactly as long as their handles. After any steps of a program that opens, clones, duplicates and
  drops handles, the descriptors open are those open before it started and those of the handles it holds, so
  nothing is leaked and nothing is closed twice. A handle it goes on holding keeps its number and the open file
  behind it, whatever is closed and opened around it. And two handles it holds are equal, as \<^verbatim>\<open>PartialEq\<close> compares
  them by number, exactly if one is a clone of the other, in which case they also hash alike.
\<close>

theorem descriptors_live_with_handles:
  assumes "fd_step\<^sup>*\<^sup>* (fd_init k) (H, st)" and "fd_step\<^sup>*\<^sup>* (H, st) (H', st')" and "a \<in># H" and "a \<in># H'" and "b \<in># H"
  shows "dom (descriptors (os st)) = dom (descriptors k) \<union> {fd. \<exists>h \<in># H. as_raw_fd h st = Some fd} \<and>
    (\<exists>fd fl. as_raw_fd a st = Some fd \<and> as_raw_fd a st' = Some fd \<and>
      descriptors (os st) fd = Some fl \<and> descriptors (os st') fd = Some fl) \<and>
    (ArcFd_eq a b st \<longleftrightarrow> a = b) \<and> (ArcFd_eq a b st \<longrightarrow> ArcFd_hash h a st x = ArcFd_hash h b st x)"
proof -
  let ?base = "dom (descriptors k)"
  have inv: "fd_inv ?base (H, st)" using fd_inv_run [OF assms(1) fd_inv_init] .
  then have counted: "counted_inv (H, st)" by (simp add: fd_inv_def)
  have held: "\<exists>h \<in># H. as_raw_fd h st = Some fd" if "arcs st c = Some (fd, n)" for c fd n
  proof -
    have "ArcFd c \<in># H"
      using counted that by (auto simp: counted_inv_def simp flip: count_greater_zero_iff split: option.splits)
    then show ?thesis using that by (intro bexI [of _ "ArcFd c"]) (auto simp: as_raw_fd_def)
  qed
  then have "owned st = {fd. \<exists>h \<in># H. as_raw_fd h st = Some fd}"
    by (auto simp: owned_def as_raw_fd_def)
  then have doms: "dom (descriptors (os st)) = ?base \<union> {fd. \<exists>h \<in># H. as_raw_fd h st = Some fd}"
    using inv by (simp add: fd_inv_def open_inv_def)
  obtain fd where fd: "arcs st (arc_cell a) = Some (fd, count H a)" and lt: "arc_cell a < next_arc st"
    using held_cell [OF counted assms(3)] by blast
  obtain fd' where "arcs st' (arc_cell a) = Some (fd', count H' a)"
    using held_cell [OF _ assms(4)] fd_inv_run [OF assms(2) inv] by (auto simp: fd_inv_def)
  then have "fd' = fd" "descriptors (os st') fd = descriptors (os st) fd" "as_raw_fd a st' = Some fd"
    using kept_run [OF assms(2) inv, of "arc_cell a"] fd lt by (auto simp: kept_def cell_file_def as_raw_fd_def)
  moreover have "\<exists>fl. descriptors (os st) fd = Some fl"
    using inv fd by (auto simp: fd_inv_def open_inv_def owned_def)
  moreover have "ArcFd_eq a b st \<longleftrightarrow> a = b"
    using inv fd held_cell [OF counted assms(5)]
    by (cases a; cases b) (auto simp: ArcFd_eq_def as_raw_fd_def fd_inv_def unique_inv_def)
  ultimately show ?thesis using doms fd by (auto simp: as_raw_fd_def ArcFd_hash_def)
qed

text \<open>
  Handle 0 on descriptor 3 is held while a clone of it and handle 1, on descriptor 4, are dropped and 4 is handed
  out again.
\<close>

theorem descriptors_live_with_handles_witness:
  "\<exists>k H st H' st'. fd_step\<^sup>*\<^sup>* (fd_init k) (H, st) \<and> fd_step\<^sup>*\<^sup>* (H, st) (H', st') \<and>
    H' = {#ArcFd 0, ArcFd 2#} \<and> as_raw_fd (ArcFd 0) st' = Some 3 \<and> descriptors (os st') 3 = Some 30 \<and>
    as_raw_fd (ArcFd 2) st' = Some 4 \<and> descriptors (os st') 4 = Some 50"
proof -
  let ?k = "\<lparr>descriptors = Map.empty, file_flags = (\<lambda>_. 0)\<rparr>"
  let ?s0 = "snd (fd_init ?k)"
  let ?s1 = "snd (from_owned_fd 3 (open_fd 3 30 ?s0))"
  let ?s2 = "snd (from_owned_fd 4 (open_fd 4 40 ?s1))"
  let ?s3 = "ArcFd_drop (ArcFd 1) ?s2"
  let ?s4 = "snd (from_owned_fd 4 (open_fd 4 50 ?s3))"
  note defs = fd_init_def from_owned_fd_def arc_new_def open_fd_def ArcFd_drop_def close_fd_def
  have "fd_step (fd_init ?k) ({#ArcFd 0#}, ?s1)"
    unfolding fd_init_def by (rule step_own [where fd = 3 and fl = 30]) (simp_all add: defs)
  moreover have "fd_step ({#ArcFd 0#}, ?s1) ({#ArcFd 1, ArcFd 0#}, ?s2)"
    by (rule step_own [where fd = 4 and fl = 40]) (simp_all add: defs)
  ultimately have one: "fd_step\<^sup>*\<^sup>* (fd_init ?k) ({#ArcFd 1, ArcFd 0#}, ?s2)" by simp
  have "fd_step ({#ArcFd 1, ArcFd 0#}, ?s2) ({#ArcFd 1, ArcFd 0#} - {#ArcFd 1#}, ?s3)"
    by (rule step_drop) simp
  moreover have "fd_step ({#ArcFd 1, ArcFd 0#} - {#ArcFd 1#}, ?s3) ({#ArcFd 2, ArcFd 0#}, ?s4)"
    using step_own [of ?s3 4 50 "ArcFd 2" ?s4 "{#ArcFd 0#}"] by (simp add: defs)
  ultimately have two: "fd_step\<^sup>*\<^sup>* ({#ArcFd 1, ArcFd 0#}, ?s2) ({#ArcFd 2, ArcFd 0#}, ?s4)" by simp
  have start: "as_raw_fd (ArcFd 0) ?s2 = Some 3" "descriptors (os ?s2) 3 = Some 30"
    by (simp_all add: defs as_raw_fd_def)
  have "as_raw_fd (ArcFd 0) ?s4 = Some 3 \<and> descriptors (os ?s4) 3 = Some 30"
    using descriptors_live_with_handles [OF one two, of "ArcFd 0" "ArcFd 0" "\<lambda>_ h. h" "()"] start by auto
  moreover have "as_raw_fd (ArcFd 2) ?s4 = Some 4" "descriptors (os ?s4) 4 = Some 50"
    by (simp_all add: defs as_raw_fd_def)
  moreover have "{#ArcFd 2, ArcFd 0#} = {#ArcFd 0, ArcFd 2#}" by simp
  ultimately show ?thesis using one two by blast
qed

end
