(* ===== verification/Tun_Setup.thy ===== *)
theory Tun_Setup
  imports Tuntap Descriptors
begin

text \<open>
  Opening the TUN devices of \<^verbatim>\<open>rust/src/linux_tuntap.rs\<close> and \<^verbatim>\<open>rust/src/mac_tuntap.rs\<close> and bringing them up. The
  answers of the system calls and of the device builder are arguments; the commands that are run are values.
\<close>

section \<open>Linux\<close>

text \<open>The path given to \<^verbatim>\<open>open\<close> is terminated by a zero byte.\<close>

definition nix_libc_open :: "string \<Rightarrow> bytes" where
  "nix_libc_open path = bstr (path @ [CHR 0x00])"

text \<open>
  \<^verbatim>\<open>TunInterface::open\<close>: the path, the request of the \<^verbatim>\<open>ioctl\<close>, whose answer is ignored, and the descriptor. A
  descriptor -1 is refused by \<^verbatim>\<open>OwnedFd\<close>.
\<close>

definition linux_tun_open :: "u32 \<Rightarrow> int \<Rightarrow> string \<Rightarrow> (bytes \<times> bytes \<times> fd) exec" where
  "linux_tun_open tun_flags open_answer ifname =
    (let path = nix_libc_open ''/dev/net/tun''
     in case tun_ifr (bstr ifname) tun_flags of
          Done ifr \<Rightarrow> if open_answer = - 1 then Panic AssertFailed else Done (path, ifr, open_answer)
        | Panic p \<Rightarrow> Panic p
        | Diverges \<Rightarrow> Diverges)"

definition bring_interface_up :: "string list" where
  "bring_interface_up = [''ip'', ''link'', ''set'', ''dev'', ''smolmesh1'', ''up'']"

definition linux_route_creator :: "IpAddr list \<Rightarrow> string list" where
  "linux_route_creator = route_creator linux_route_cmd {}"

section \<open>macOS\<close>

text \<open>
  \<^verbatim>\<open>TunInterface::open\<close>: the first device that can be built, its name, and its descriptor made non-blocking if
  possible.
\<close>

definition mac_tun_open ::
  "u32 \<Rightarrow> (nat \<Rightarrow> bool) \<Rightarrow> (nat \<Rightarrow> string option) \<Rightarrow> (nat \<Rightarrow> fd) \<Rightarrow> bool \<Rightarrow> kernel \<Rightarrow> (string \<times> fd \<times> kernel) exec"
where
  "mac_tun_open o_nonblock builds device_name raw_fd ok k =
    (case open_sync_device builds 0 100 of
       None \<Rightarrow> Panic UnwrapFailed
     | Some device \<Rightarrow>
         (case device_name device of
            None \<Rightarrow> Panic UnwrapFailed
          | Some ifname \<Rightarrow>
              Done (ifname, raw_fd device, mac_make_nonblocking o_nonblock ok (raw_fd device) k)))"

definition mac_run_fds :: "u32 \<Rightarrow> int \<Rightarrow> int \<Rightarrow> bool \<Rightarrow> bool \<Rightarrow> fd \<Rightarrow> kernel \<Rightarrow> (fd \<times> fd \<times> kernel) exec" where
  "mac_run_fds o_nonblock dup1 dup2 ok1 ok2 fd k =
    (case ArcFd_dup fd dup1 k of
       (Inl _, k) \<Rightarrow> Panic UnwrapFailed
     | (Inr rfd, k) \<Rightarrow>
         (case ArcFd_dup fd dup2 k of
            (Inl _, k) \<Rightarrow> Panic UnwrapFailed
          | (Inr wfd, k) \<Rightarrow>
              Done (rfd, wfd, mac_make_nonblocking o_nonblock ok2 wfd (mac_make_nonblocking o_nonblock ok1 rfd k))))"

definition mac_route_creator :: "string \<Rightarrow> IpAddr list \<Rightarrow> string list" where
  "mac_route_creator name = route_creator (mac_route_cmd name) {}"

section \<open>Properties\<close>

lemma tun_ifr_length: "tun_ifr ifname flags = Done ifr \<Longrightarrow> length ifr = 18"
  by (auto simp: tun_ifr_def Let_def copy_from_slice_def split: if_splits)

text \<open>
  The request handed to the \<^verbatim>\<open>TUNSETIFF\<close> call has eighteen bytes, whatever the name and the flags, whenever the
  device is opened at all, which happens exactly if the descriptor is valid and the name has at most eighteen
  bytes; the path is terminated by a zero byte.
\<close>

theorem tun_open_request:
  "case linux_tun_open flags answer ifname of
     Done (path, ifr, fd) \<Rightarrow> answer \<noteq> - 1 \<and> length ifname \<le> 18 \<and> fd = answer \<and> length ifr = 18 \<and> last path = 0
   | Panic p \<Rightarrow> answer = - 1 \<or> 18 < length ifname
   | Diverges \<Rightarrow> False"
proof (cases "tun_ifr (bstr ifname) flags")
  case (Done ifr)
  then have "length ifname \<le> 18" by (auto simp: tun_ifr_def bstr_def Let_def split: if_splits)
  then show ?thesis
    using Done tun_ifr_length [OF Done] by (simp add: linux_tun_open_def nix_libc_open_def bstr_def)
next
  case (Panic p)
  then have "18 < length ifname" by (auto simp: tun_ifr_def bstr_def Let_def split: if_splits)
  then show ?thesis using Panic by (simp add: linux_tun_open_def)
next
  case Diverges
  then show ?thesis by (auto simp: tun_ifr_def Let_def split: if_splits)
qed

end
