(* ===== verification/Wintun.thy ===== *)
theory Wintun
  imports Prelude "HOL-Library.Multiset"
begin

text \<open>
  The binding to the Wintun driver, \<^verbatim>\<open>rust/src/wintun.rs\<close>. The file belongs to an older version of the program and is
  not built any more; it is modelled as it is written. The library \<^verbatim>\<open>wintun.dll\<close> is not part of the repository:
  it appears as a record of functions on the state of the driver and the memory it shares with the program,
  with 0 as the null pointer. What it documents about its rings of packets is the predicate \<open>wintun_api\<close>.
\<close>

section \<open>Strings\<close>

text \<open>A string is the list of its code points, none of which is a surrogate.\<close>

type_synonym code_points = "nat list"

definition scalar :: "nat \<Rightarrow> bool" where
  "scalar c \<longleftrightarrow> c < 0xD800 \<or> 0xE000 \<le> c \<and> c < 0x110000"

text \<open>\<^verbatim>\<open>str::encode_utf16\<close> and \<^verbatim>\<open>str::len\<close>, the length in UTF-8.\<close>

definition encode_char :: "nat \<Rightarrow> u16 list" where
  "encode_char c =
    (if c < 0x10000 then [of_nat c]
     else [of_nat (0xD800 + (c - 0x10000) div 0x400), of_nat (0xDC00 + (c - 0x10000) mod 0x400)])"

definition encode_utf16 :: "code_points \<Rightarrow> u16 list" where
  "encode_utf16 s = concat (map encode_char s)"

definition utf8_len :: "code_points \<Rightarrow> nat" where
  "utf8_len s = sum_list (map (\<lambda>c. if c < 0x80 then 1 else if c < 0x800 then 2 else if c < 0x10000 then 3 else 4) s)"

definition str_utf16_cstr :: "code_points \<Rightarrow> u16 list" where
  "str_utf16_cstr s = encode_utf16 s @ [0]"

text \<open>How such a string is read: the units before the first zero, with pairs of surrogates combined.\<close>

definition read_cstr :: "u16 list \<Rightarrow> u16 list" where
  "read_cstr us = takeWhile (\<lambda>u. u \<noteq> 0) us"

fun decode_utf16 :: "u16 list \<Rightarrow> code_points option" where
  "decode_utf16 [] = Some []"
| "decode_utf16 (u # us) =
    (if u < 0xD800 \<or> 0xE000 \<le> u then map_option ((#) (unat u)) (decode_utf16 us)
     else case us of
       [] \<Rightarrow> None
     | v # vs \<Rightarrow>
         if u < 0xDC00 \<and> 0xDC00 \<le> v \<and> v < 0xE000
         then map_option ((#) (0x10000 + (unat u - 0xD800) * 0x400 + (unat v - 0xDC00))) (decode_utf16 vs)
         else None)"

section \<open>The library\<close>

type_synonym ptr = u64

record 'd windows =
  driver :: 'd
  memory :: "ptr \<Rightarrow> u8"
  last_error :: u32

record 'd WintunDLL =
  sym_create_adapter :: "u16 list \<Rightarrow> u16 list \<Rightarrow> 'd windows \<Rightarrow> ptr \<times> 'd windows"
  sym_get_adapter_luid :: "ptr \<Rightarrow> 'd windows \<Rightarrow> u64 \<times> 'd windows"
  sym_start_session :: "ptr \<Rightarrow> u32 \<Rightarrow> 'd windows \<Rightarrow> ptr \<times> 'd windows"
  sym_get_read_wait_event :: "ptr \<Rightarrow> 'd windows \<Rightarrow> ptr \<times> 'd windows"
  sym_receive_packet :: "ptr \<Rightarrow> 'd windows \<Rightarrow> (ptr \<times> u32) \<times> 'd windows"
  sym_release_receive_packet :: "ptr \<Rightarrow> ptr \<Rightarrow> 'd windows \<Rightarrow> 'd windows"
  sym_allocate_send_packet :: "ptr \<Rightarrow> u32 \<Rightarrow> 'd windows \<Rightarrow> ptr \<times> 'd windows"
  sym_send_packet :: "ptr \<Rightarrow> ptr \<Rightarrow> 'd windows \<Rightarrow> 'd windows"

datatype win_error = Load_Failed | Symbol_Missing string | Call_Failed string u32

text \<open>A loaded library: the names it exports, and what they do.\<close>

record 'd library =
  exports :: "string \<Rightarrow> bool"
  symbols :: "'d WintunDLL"

definition wintun_symbols :: "string list" where
  "wintun_symbols =
    [''WintunCreateAdapter'', ''WintunGetAdapterLUID'', ''WintunStartSession'', ''WintunGetReadWaitEvent'',
     ''WintunReceivePacket'', ''WintunReleaseReceivePacket'', ''WintunAllocateSendPacket'', ''WintunSendPacket'']"

definition WintunDLL_new :: "(string \<Rightarrow> 'd library option) \<Rightarrow> string \<Rightarrow> win_error + 'd WintunDLL" where
  "WintunDLL_new load path =
    (case load path of
       None \<Rightarrow> Inl Load_Failed
     | Some lib \<Rightarrow>
         (case find (\<lambda>s. \<not> exports lib s) wintun_symbols of
            Some s \<Rightarrow> Inl (Symbol_Missing s)
          | None \<Rightarrow> Inr (symbols lib)))"

definition wintun_create_adapter ::
  "'d WintunDLL \<Rightarrow> code_points \<Rightarrow> 'd windows \<Rightarrow> (win_error + ptr) \<times> 'd windows"
where
  "wintun_create_adapter dll name w =
    (let (adapter, w) = sym_create_adapter dll (str_utf16_cstr name)
           (str_utf16_cstr (map of_char ''Wintun'')) w
     in if adapter = 0 then (Inl (Call_Failed ''WintunCreateAdapter'' (last_error w)), w)
        else (Inr adapter, w))"

definition wintun_get_adapter_luid :: "'d WintunDLL \<Rightarrow> ptr \<Rightarrow> 'd windows \<Rightarrow> u64 \<times> 'd windows" where
  "wintun_get_adapter_luid dll adapter w = sym_get_adapter_luid dll adapter w"

definition wintun_start_session ::
  "'d WintunDLL \<Rightarrow> ptr \<Rightarrow> u32 \<Rightarrow> 'd windows \<Rightarrow> (win_error + ptr) \<times> 'd windows"
where
  "wintun_start_session dll adapter capacity w =
    (let (session, w) = sym_start_session dll adapter capacity w
     in if session = 0 then (Inl (Call_Failed ''WintunStartSession'' (last_error w)), w)
        else (Inr session, w))"

definition wintun_get_read_wait_event :: "'d WintunDLL \<Rightarrow> ptr \<Rightarrow> 'd windows \<Rightarrow> ptr \<times> 'd windows" where
  "wintun_get_read_wait_event dll session w = sym_get_read_wait_event dll session w"

text \<open>\<^verbatim>\<open>slice::from_raw_parts(p, n).to_vec()\<close> and \<^verbatim>\<open>ptr::copy_nonoverlapping\<close>.\<close>

definition read_mem :: "ptr \<Rightarrow> nat \<Rightarrow> (ptr \<Rightarrow> u8) \<Rightarrow> bytes" where
  "read_mem p n m = map (\<lambda>i. m (p + of_nat i)) [0..<n]"

definition write_mem :: "ptr \<Rightarrow> bytes \<Rightarrow> (ptr \<Rightarrow> u8) \<Rightarrow> (ptr \<Rightarrow> u8)" where
  "write_mem p data m = (\<lambda>q. if unat (q - p) < length data then data ! unat (q - p) else m q)"

text \<open>The size the library reports is a signed 32-bit integer, converted to \<^verbatim>\<open>usize\<close>.\<close>

definition wintun_receive_packet :: "'d WintunDLL \<Rightarrow> ptr \<Rightarrow> 'd windows \<Rightarrow> (win_error + bytes) \<times> 'd windows" where
  "wintun_receive_packet dll session w =
    (let ((packet, packet_size), w) = sym_receive_packet dll session w
     in if packet = 0 then (Inl (Call_Failed ''WintunReceivePacket'' (last_error w)), w)
        else
          let buf = read_mem packet (unat (scast packet_size :: u64)) (memory w);
              w = sym_release_receive_packet dll session packet w
          in (Inr buf, w))"

definition wintun_send_packet :: "'d WintunDLL \<Rightarrow> ptr \<Rightarrow> bytes \<Rightarrow> 'd windows \<Rightarrow> (win_error + unit) \<times> 'd windows" where
  "wintun_send_packet dll session data w =
    (let (packet, w) = sym_allocate_send_packet dll session (of_nat (length data)) w
     in if packet = 0 then (Inl (Call_Failed ''WintunAllocateSendPacket'' (last_error w)), w)
        else
          let w = w\<lparr>memory := write_mem packet data (memory w)\<rparr>;
              w = sym_send_packet dll session packet w
          in (Inr (), w))"

section \<open>Names\<close>

lemma encode_char_BMP:
  assumes "scalar c" and "c < 0x10000"
  shows "decode_utf16 (encode_char c @ us) = map_option ((#) c) (decode_utf16 us)"
proof -
  have "unat (of_nat c :: u16) = c" using assms(2) by (simp add: unat_of_nat)
  then show ?thesis
    using assms by (auto simp: encode_char_def scalar_def word_less_nat_alt word_le_nat_alt)
qed

lemma encode_char_pair:
  assumes "scalar c" and "\<not> c < 0x10000"
  shows "decode_utf16 (encode_char c @ us) = map_option ((#) c) (decode_utf16 us)"
proof -
  define h l where "h = (c - 0x10000) div 0x400" and "l = (c - 0x10000) mod 0x400"
  have c: "c = 0x10000 + h * 0x400 + l" using assms(2) by (simp add: h_def l_def)
  have "h < 0x400" "l < 0x400" using assms by (auto simp: scalar_def h_def l_def)
  then have "unat (of_nat (0xD800 + h) :: u16) = 0xD800 + h" "unat (of_nat (0xDC00 + l) :: u16) = 0xDC00 + l"
    unfolding unat_of_nat by simp_all
  moreover have "encode_char c = [of_nat (0xD800 + h), of_nat (0xDC00 + l)]"
    using assms(2) by (simp add: encode_char_def h_def l_def)
  ultimately show ?thesis
    using \<open>h < 0x400\<close> \<open>l < 0x400\<close> c
    by (simp add: word_less_nat_alt word_le_nat_alt del: of_nat_add)
qed

lemma decode_encode: "\<forall>c \<in> set s. scalar c \<Longrightarrow> decode_utf16 (encode_utf16 s) = Some s"
proof (induction s)
  case Nil
  then show ?case by (simp add: encode_utf16_def)
next
  case (Cons c s)
  then have "decode_utf16 (encode_utf16 (c # s)) = map_option ((#) c) (decode_utf16 (encode_utf16 s))"
    using encode_char_BMP [of c] encode_char_pair [of c] by (cases "c < 0x10000") (simp_all add: encode_utf16_def)
  then show ?case using Cons by simp
qed

lemma encode_char_nonzero:
  assumes "scalar c" and "0 < c"
  shows "0 \<notin> set (encode_char c)"
proof (cases "c < 0x10000")
  case True
  then have "unat (of_nat c :: u16) = c" by (simp add: unat_of_nat)
  then have "(of_nat c :: u16) \<noteq> 0" using assms(2) by auto
  then show ?thesis using True by (simp add: encode_char_def)
next
  case False
  define h l where "h = 0xD800 + (c - 0x10000) div 0x400" and "l = 0xDC00 + (c - 0x10000) mod 0x400"
  have "h < 0x10000" "l < 0x10000" "h \<noteq> 0" "l \<noteq> 0" using assms False by (auto simp: scalar_def h_def l_def)
  then have "unat (of_nat h :: u16) \<noteq> 0" "unat (of_nat l :: u16) \<noteq> 0" unfolding unat_of_nat by simp_all
  moreover have "encode_char c = [of_nat h, of_nat l]" using False by (simp add: encode_char_def h_def l_def)
  ultimately show ?thesis by (metis empty_iff empty_set set_ConsD unat_0)
qed

lemma utf16_shorter: "length (encode_utf16 s) \<le> utf8_len s"
  by (induction s) (auto simp: encode_utf16_def utf8_len_def encode_char_def)

text \<open>
  The names handed to the driver are the names meant. Read up to its terminating zero and decoded, the UTF-16 string
  made from a name without zero characters is that name, surrogate pairs included; and it fits the vector
  reserved for it, which has room for the bytes of the name in UTF-8 and the terminator.
\<close>

theorem utf16_name_roundtrip:
  assumes "\<forall>c \<in> set name. scalar c \<and> 0 < c"
  shows "decode_utf16 (read_cstr (str_utf16_cstr name @ rest)) = Some name \<and>
    length (str_utf16_cstr name) \<le> utf8_len name + 1"
proof -
  have "\<forall>u \<in> set (encode_utf16 name). u \<noteq> 0"
    using assms encode_char_nonzero by (fastforce simp: encode_utf16_def)
  then have "read_cstr (str_utf16_cstr name @ rest) = encode_utf16 name"
    by (simp add: read_cstr_def str_utf16_cstr_def takeWhile_append2)
  then show ?thesis
    using decode_encode assms utf16_shorter by (simp add: str_utf16_cstr_def)
qed

theorem utf16_name_roundtrip_witness:
  "decode_utf16 (read_cstr (str_utf16_cstr [0x6E, 0xE9, 0x20AC, 0x1F600] @ [7])) = Some [0x6E, 0xE9, 0x20AC, 0x1F600]"
  using utf16_name_roundtrip [of "[0x6E, 0xE9, 0x20AC, 0x1F600]" "[7]"] by (simp add: scalar_def)

section \<open>Packets\<close>

text \<open>
  What the library documents. Seen from outside it has a queue \<open>rx\<close> of packets to receive, a bag \<open>lent\<close> of packets
  handed out and not yet released, the sizes \<open>room\<close> of the blocks allocated for sending, and the packets \<open>tx\<close> sent
  so far. Receiving hands out the first packet, or nothing if there is none; releasing takes it back; allocating
  may fail; sending sends what is in the block. The program's writes to memory do not change the queues.
\<close>

definition wintun_api ::
  "'d WintunDLL \<Rightarrow> ptr \<Rightarrow> ('d windows \<Rightarrow> bytes list) \<Rightarrow> ('d windows \<Rightarrow> ptr multiset) \<Rightarrow>
   ('d windows \<Rightarrow> ptr \<rightharpoonup> nat) \<Rightarrow> ('d windows \<Rightarrow> bytes list) \<Rightarrow> bool"
where
  "wintun_api dll session rx lent room tx \<longleftrightarrow>
    (\<forall>w m. rx (w\<lparr>memory := m\<rparr>) = rx w \<and> lent (w\<lparr>memory := m\<rparr>) = lent w \<and> room (w\<lparr>memory := m\<rparr>) = room w \<and>
      tx (w\<lparr>memory := m\<rparr>) = tx w) \<and>
    (\<forall>w p n w'. sym_receive_packet dll session w = ((p, n), w') \<longrightarrow>
      room w' = room w \<and> tx w' = tx w \<and>
      (case rx w of
         [] \<Rightarrow> p = 0 \<and> rx w' = [] \<and> lent w' = lent w
       | packet # packets \<Rightarrow> p \<noteq> 0 \<and> sint n = int (length packet) \<and>
           read_mem p (length packet) (memory w') = packet \<and> rx w' = packets \<and> lent w' = add_mset p (lent w))) \<and>
    (\<forall>w p. p \<in># lent w \<longrightarrow> (let w' = sym_release_receive_packet dll session p w
      in rx w' = rx w \<and> lent w' = lent w - {#p#} \<and> room w' = room w \<and> tx w' = tx w)) \<and>
    (\<forall>w n p w'. sym_allocate_send_packet dll session n w = (p, w') \<longrightarrow>
      rx w' = rx w \<and> lent w' = lent w \<and> tx w' = tx w \<and>
      (if p = 0 then room w' = room w else room w p = None \<and> room w' = (room w)(p \<mapsto> unat n))) \<and>
    (\<forall>w e w'. sym_get_read_wait_event dll session w = (e, w') \<longrightarrow>
      rx w' = rx w \<and> lent w' = lent w \<and> room w' = room w \<and> tx w' = tx w) \<and>
    (\<forall>w p n. room w p = Some n \<longrightarrow> (let w' = sym_send_packet dll session p w
      in rx w' = rx w \<and> lent w' = lent w \<and> room w' = (room w)(p := None) \<and>
         tx w' = tx w @ [read_mem p n (memory w)]))"

lemma api_send:
  assumes "wintun_api dll session rx lent room tx" and "room w p = Some n" and "w' = sym_send_packet dll session p w"
  shows "rx w' = rx w \<and> lent w' = lent w \<and> room w' = (room w)(p := None) \<and> tx w' = tx w @ [read_mem p n (memory w)]"
  using assms unfolding wintun_api_def Let_def by blast

lemma api_allocate:
  assumes "wintun_api dll session rx lent room tx" and "sym_allocate_send_packet dll session n w = (p, w')"
  shows "rx w' = rx w \<and> lent w' = lent w \<and> tx w' = tx w \<and>
    (if p = 0 then room w' = room w else room w p = None \<and> room w' = (room w)(p \<mapsto> unat n))"
  using assms unfolding wintun_api_def by blast

lemma read_write_mem: "length data < 2 ^ 64 \<Longrightarrow> read_mem p (length data) (write_mem p data m) = data"
  by (rule nth_equalityI) (auto simp: read_mem_def write_mem_def unat_of_nat)

lemma receive_packet:
  assumes "wintun_api dll session rx lent room tx" and "wintun_receive_packet dll session w = (r, w')"
  shows "room w' = room w \<and> tx w' = tx w \<and> lent w' = lent w \<and>
    (case rx w of [] \<Rightarrow> (\<exists>e. r = Inl e) \<and> rx w' = [] | packet # packets \<Rightarrow> r = Inr packet \<and> rx w' = packets)"
proof -
  obtain p n w1 where call: "sym_receive_packet dll session w = ((p, n), w1)"
    by (cases "sym_receive_packet dll session w") auto
  then have got: "room w1 = room w \<and> tx w1 = tx w \<and> (case rx w of
         [] \<Rightarrow> p = 0 \<and> rx w1 = [] \<and> lent w1 = lent w
       | packet # packets \<Rightarrow> p \<noteq> 0 \<and> sint n = int (length packet) \<and>
           read_mem p (length packet) (memory w1) = packet \<and> rx w1 = packets \<and> lent w1 = add_mset p (lent w))"
    using assms(1) unfolding wintun_api_def by blast
  show ?thesis
  proof (cases "rx w")
    case Nil
    then show ?thesis using got call assms(2) by (auto simp: wintun_receive_packet_def)
  next
    case (Cons packet packets)
    then have p: "p \<noteq> 0" "p \<in># lent w1" "sint n = int (length packet)" using got by auto
    have "int (length packet) < 2 ^ 31" using p(3) sint_lt [of n] by simp
    then have "unat (scast n :: u64) = length packet"
      using p(3) by (simp add: scast_eq unat_of_nat)
    then have r: "r = Inr packet" "w' = sym_release_receive_packet dll session p w1"
      using assms(2) call got Cons p(1) by (auto simp: wintun_receive_packet_def)
    moreover have "rx w' = rx w1 \<and> lent w' = lent w1 - {#p#} \<and> room w' = room w1 \<and> tx w' = tx w1"
      using assms(1) p(2) r(2) unfolding wintun_api_def Let_def by blast
    ultimately show ?thesis using got Cons by auto
  qed
qed

lemma send_packet:
  assumes "wintun_api dll session rx lent room tx" and "wintun_send_packet dll session data w = (r, w')"
    and "length data < 2 ^ 31"
  shows "rx w' = rx w \<and> lent w' = lent w \<and> room w' = room w \<and>
    (case r of Inl _ \<Rightarrow> tx w' = tx w | Inr _ \<Rightarrow> tx w' = tx w @ [data])"
proof -
  obtain p w1 where call: "sym_allocate_send_packet dll session (of_nat (length data)) w = (p, w1)"
    by (cases "sym_allocate_send_packet dll session (of_nat (length data)) w") auto
  have len: "unat (of_nat (length data) :: u32) = length data" using assms(3) by (simp add: unat_of_nat)
  have got: "rx w1 = rx w \<and> lent w1 = lent w \<and> tx w1 = tx w \<and>
      (if p = 0 then room w1 = room w else room w p = None \<and> room w1 = (room w)(p \<mapsto> length data))"
    using api_allocate [OF assms(1) call] len by simp
  show ?thesis
  proof (cases "p = 0")
    case True
    then show ?thesis using got call assms(2) by (auto simp: wintun_send_packet_def)
  next
    case False
    define w2 where "w2 = w1\<lparr>memory := write_mem p data (memory w1)\<rparr>"
    have same: "rx w2 = rx w1 \<and> lent w2 = lent w1 \<and> room w2 = room w1 \<and> tx w2 = tx w1"
      using assms(1) unfolding wintun_api_def w2_def by blast
    have r: "r = Inr ()" "w' = sym_send_packet dll session p w2"
      using assms(2) call False by (auto simp: wintun_send_packet_def w2_def)
    have "read_mem p (length data) (memory w2) = data"
      using assms(3) by (simp add: w2_def read_write_mem)
    moreover have "room w2 p = Some (length data)" using got same False by simp
    ultimately have "rx w' = rx w2 \<and> lent w' = lent w2 \<and> room w' = (room w2)(p := None) \<and> tx w' = tx w2 @ [data]"
      using api_send [OF assms(1) _ r(2)] by metis
    then show ?thesis using got same False r(1) by (auto simp: fun_upd_idem)
  qed
qed

section \<open>A driver that keeps the contract\<close>

text \<open>
  The contract can be kept: a driver with one block of memory for receiving and one for sending, which drops
  packets over the 65535 bytes the real one accepts.
\<close>

record sample_driver =
  sample_rx :: "bytes list"
  sample_lent :: "ptr multiset"
  sample_room :: "ptr \<rightharpoonup> nat"
  sample_tx :: "bytes list"

definition fits :: "bytes \<Rightarrow> bool" where
  "fits p \<longleftrightarrow> length p \<le> 0xFFFF"

definition sample_receive :: "ptr \<Rightarrow> sample_driver windows \<Rightarrow> (ptr \<times> u32) \<times> sample_driver windows" where
  "sample_receive session w =
    (case filter fits (sample_rx (driver w)) of
       [] \<Rightarrow> ((0, 0), w\<lparr>driver := (driver w)\<lparr>sample_rx := []\<rparr>, last_error := 259\<rparr>)
     | p # ps \<Rightarrow> ((0x10000, of_nat (length p)),
         w\<lparr>memory := write_mem 0x10000 p (memory w),
           driver := (driver w)\<lparr>sample_rx := ps, sample_lent := add_mset 0x10000 (sample_lent (driver w))\<rparr>\<rparr>))"

definition sample_allocate :: "ptr \<Rightarrow> u32 \<Rightarrow> sample_driver windows \<Rightarrow> ptr \<times> sample_driver windows" where
  "sample_allocate session n w =
    (if sample_room (driver w) 0x20000 = None
     then (0x20000, w\<lparr>driver := (driver w)\<lparr>sample_room := (sample_room (driver w))(0x20000 \<mapsto> unat n)\<rparr>\<rparr>)
     else (0, w\<lparr>last_error := 111\<rparr>))"

definition sample_dll :: "sample_driver WintunDLL" where
  "sample_dll = \<lparr>sym_create_adapter = (\<lambda>_ _ w. (1, w)), sym_get_adapter_luid = (\<lambda>_ w. (2, w)),
     sym_start_session = (\<lambda>_ _ w. (3, w)), sym_get_read_wait_event = (\<lambda>_ w. (4, w)),
     sym_receive_packet = sample_receive,
     sym_release_receive_packet = (\<lambda>_ p w. w\<lparr>driver := (driver w)\<lparr>sample_lent := sample_lent (driver w) - {#p#}\<rparr>\<rparr>),
     sym_allocate_send_packet = sample_allocate,
     sym_send_packet = (\<lambda>_ p w. case sample_room (driver w) p of
        None \<Rightarrow> w
      | Some n \<Rightarrow> w\<lparr>driver := (driver w)\<lparr>sample_room := (sample_room (driver w))(p := None),
          sample_tx := sample_tx (driver w) @ [read_mem p n (memory w)]\<rparr>\<rparr>)\<rparr>"

lemma sint_small:
  assumes "n \<le> 0xFFFF"
  shows "sint (of_nat n :: u32) = int n"
  using assms by (simp add: signed_of_nat signed_take_bit_int_eq_self)

lemma sample_receive_contract:
  assumes "sample_receive session w = ((p, n), w')"
  shows "sample_room (driver w') = sample_room (driver w) \<and> sample_tx (driver w') = sample_tx (driver w) \<and>
    (case filter fits (sample_rx (driver w)) of
       [] \<Rightarrow> p = 0 \<and> filter fits (sample_rx (driver w')) = [] \<and> sample_lent (driver w') = sample_lent (driver w)
     | packet # packets \<Rightarrow> p \<noteq> 0 \<and> sint n = int (length packet) \<and>
         read_mem p (length packet) (memory w') = packet \<and> filter fits (sample_rx (driver w')) = packets \<and>
         sample_lent (driver w') = add_mset p (sample_lent (driver w)))"
proof (cases "filter fits (sample_rx (driver w))")
  case Nil
  then show ?thesis using assms by (auto simp: sample_receive_def)
next
  case (Cons packet packets)
  have "set (packet # packets) \<subseteq> Collect fits" unfolding Cons [symmetric] by auto
  then have "length packet \<le> 0xFFFF" "filter fits packets = packets"
    by (auto simp: fits_def intro!: filter_True)
  then show ?thesis
    using assms Cons by (auto simp: sample_receive_def sint_small read_write_mem)
qed

lemma sample_api:
  "wintun_api sample_dll session (\<lambda>w. filter fits (sample_rx (driver w))) (\<lambda>w. sample_lent (driver w))
     (\<lambda>w. sample_room (driver w)) (\<lambda>w. sample_tx (driver w))"
  unfolding wintun_api_def
proof (intro conjI allI impI)
  show "case filter fits (sample_rx (driver w)) of
       [] \<Rightarrow> p = 0 \<and> filter fits (sample_rx (driver w')) = [] \<and> sample_lent (driver w') = sample_lent (driver w)
     | packet # packets \<Rightarrow> p \<noteq> 0 \<and> sint n = int (length packet) \<and>
         read_mem p (length packet) (memory w') = packet \<and> filter fits (sample_rx (driver w')) = packets \<and>
         sample_lent (driver w') = add_mset p (sample_lent (driver w))"
    if "sym_receive_packet sample_dll session w = ((p, n), w')" for w p n w'
    using sample_receive_contract [of session w p n w'] that by (simp add: sample_dll_def)
qed (use sample_receive_contract in \<open>auto simp: sample_dll_def sample_allocate_def Let_def split: if_splits option.splits\<close>)

end
