(* ===== verification/Windows_Tuntap.thy ===== *)
theory Windows_Tuntap
  imports Tuntap Wintun "HOL-Library.Sublist"
begin

text \<open>
  The Windows device, \<^verbatim>\<open>rust/src/windows_tuntap.rs\<close>: creating the adapter with its address, and the two threads between
  the adapter and the mesh. Like the binding it uses, the file is from an older version that is not built; the
  module \<^verbatim>\<open>ipv6_addr\<close> it refers to is gone, so its three functions are arguments here, as are the functions
  of Windows.
\<close>

section \<open>Starting\<close>

text \<open>The fields of \<^verbatim>\<open>MIB_UNICASTIPADDRESS_ROW\<close> the code sets; \<^verbatim>\<open>AF_INET6\<close> is 23, \<^verbatim>\<open>IpDadStatePreferred\<close> 4.\<close>

record ip_row =
  interface_luid :: u64
  si_family :: u16
  on_link_prefix_length :: u8
  sin6_addr :: bytes
  dad_state :: nat

definition address_row :: "(ip_row \<Rightarrow> ip_row) \<Rightarrow> u64 \<Rightarrow> bytes \<Rightarrow> ip_row exec" where
  "address_row initialize luid addr =
    (let row = initialize \<lparr>interface_luid = 0, si_family = 0, on_link_prefix_length = 0,
           sin6_addr = replicate 16 0, dad_state = 0\<rparr>;
         row = row\<lparr>interface_luid := luid, si_family := 23, on_link_prefix_length := 8\<rparr>
     in if length addr < 16 then Panic IndexOutOfBounds
        else Done (row\<lparr>sin6_addr := take 16 addr, dad_state := 4\<rparr>))"

record ('d, 'a) win_env =
  load :: "string \<Rightarrow> 'd library option"
  from_node_name_v6 :: "code_points \<Rightarrow> 'a"
  to_buf :: "'a \<Rightarrow> bytes"
  from_buf :: "bytes \<Rightarrow> 'a exec"
  initialize_row :: "ip_row \<Rightarrow> ip_row"
  create_unicast_ip_address_entry :: "ip_row \<Rightarrow> 'd windows \<Rightarrow> u32 \<times> 'd windows"
  wait_for_single_object :: "ptr \<Rightarrow> 'd windows \<Rightarrow> u32 \<times> 'd windows"

definition wintun_start ::
  "('d, 'a) win_env \<Rightarrow> code_points \<Rightarrow> 'd windows \<Rightarrow> ((win_error + 'd WintunDLL \<times> ptr) \<times> 'd windows) exec"
where
  "wintun_start env node_name w =
    (case WintunDLL_new (load env) ''./wintun-amd64.dll'' of
       Inl e \<Rightarrow> Done (Inl e, w)
     | Inr dll \<Rightarrow>
         (case wintun_create_adapter dll (map of_char ''smolmesh-'' @ node_name) w of
            (Inl e, w) \<Rightarrow> Done (Inl e, w)
          | (Inr adapter, w) \<Rightarrow>
              (let ipv6 = from_node_name_v6 env node_name;
                   (luid, w) = wintun_get_adapter_luid dll adapter w
               in exec_bind (address_row (initialize_row env) luid (to_buf env ipv6)) (\<lambda>row.
                    let (res, w) = create_unicast_ip_address_entry env row w
                    in if res \<noteq> 0 then Done (Inl (Call_Failed ''CreateUnicastIpAddressEntry'' res), w)
                       else case wintun_start_session dll adapter 0x4000000 w of
                         (Inl e, w) \<Rightarrow> Done (Inl e, w)
                       | (Inr session, w) \<Rightarrow> Done (Inr (dll, session), w)))))"

text \<open>
  The Windows branch of \<^verbatim>\<open>run_meshnode\<close>: what it prints, and the senders it adds to the list of TUN senders the older
  version had. An error of the device is ignored.
\<close>

definition setup_windows_tun ::
  "('d, 'a) win_env \<Rightarrow> bool option \<Rightarrow> code_points \<Rightarrow> 'd windows \<Rightarrow>
   (string list \<times> ('d WintunDLL \<times> ptr) list \<times> 'd windows) exec"
where
  "setup_windows_tun env windows_tuntap node_name w =
    (if windows_tuntap = Some True then
       exec_bind (wintun_start env node_name w) (\<lambda>(r, w).
       case r of
         Inr s \<Rightarrow> Done ([''Started Wintun adapter''], [s], w)
       | Inl _ \<Rightarrow> Done ([], [], w))
     else Done ([], [], w))"

section \<open>The threads\<close>

text \<open>From the network to the adapter, for the packets received from the channel; a failure is printed.\<close>

fun win_tun_writer :: "'d WintunDLL \<Rightarrow> ptr \<Rightarrow> bytes list \<Rightarrow> 'd windows \<Rightarrow> win_error list \<times> 'd windows" where
  "win_tun_writer dll session [] w = ([], w)"
| "win_tun_writer dll session (packet # packets) w =
    (case wintun_send_packet dll session packet w of
       (Inl x, w) \<Rightarrow> (let (xs, w) = win_tun_writer dll session packets w in (x # xs, w))
     | (Inr _, w) \<Rightarrow> win_tun_writer dll session packets w)"

text \<open>
  From the adapter to the network: one pass of the loop at a given time. Its effects are what it hands to
  \<^verbatim>\<open>send_to_fastest\<close> and the failed waits it prints.
\<close>

datatype 'a win_effect = Sends 'a bytes | Wait_Failed_With u32

definition win_reader_turn ::
  "('d, 'a) win_env \<Rightarrow> 'd WintunDLL \<Rightarrow> ptr \<Rightarrow> ptr \<Rightarrow> u64 \<Rightarrow> 'd windows \<Rightarrow> ('a win_effect list \<times> 'd windows) exec"
where
  "win_reader_turn env dll session wait_event millis w =
    (case wintun_receive_packet dll session w of
       (Inl _, w) \<Rightarrow>
         (let (res, w) = wait_for_single_object env wait_event w
          in Done (if res \<noteq> 0 then [Wait_Failed_With res] else [], w))
     | (Inr packet, w) \<Rightarrow>
         (case packet of
            [] \<Rightarrow> Panic IndexOutOfBounds
          | b # _ \<Rightarrow>
              if b \<noteq> 0x60 then Done ([], w)
              else case slice_range 24 40 packet of
                None \<Rightarrow> Panic IndexOutOfBounds
              | Some buf \<Rightarrow>
                  exec_bind (from_buf env buf) (\<lambda>target.
                  Done ([Sends target (to_le_bytes 8 millis @ [3] @ packet)], w))))"

fun win_reader_loop ::
  "('d, 'a) win_env \<Rightarrow> 'd WintunDLL \<Rightarrow> ptr \<Rightarrow> ptr \<Rightarrow> u64 list \<Rightarrow> 'd windows \<Rightarrow> ('a win_effect list \<times> 'd windows) exec"
where
  "win_reader_loop env dll session wait_event [] w = Done ([], w)"
| "win_reader_loop env dll session wait_event (millis # turns) w =
    exec_bind (win_reader_turn env dll session wait_event millis w) (\<lambda>(es, w).
    exec_bind (win_reader_loop env dll session wait_event turns w) (\<lambda>(es', w). Done (es @ es', w)))"

definition win_tun_reader ::
  "('d, 'a) win_env \<Rightarrow> 'd WintunDLL \<Rightarrow> ptr \<Rightarrow> u64 list \<Rightarrow> 'd windows \<Rightarrow> ('a win_effect list \<times> 'd windows) exec"
where
  "win_tun_reader env dll session turns w =
    (let (wait_event, w) = wintun_get_read_wait_event dll session w
     in win_reader_loop env dll session wait_event turns w)"

section \<open>Writing\<close>

lemma writer_sends:
  assumes "wintun_api dll session rx lent room tx" and "\<forall>p \<in> set packets. length p < 2 ^ 31"
    and "win_tun_writer dll session packets w = (errs, w')"
  shows "\<exists>sent. subseq sent packets \<and> length sent + length errs = length packets \<and> tx w' = tx w @ sent \<and>
    room w' = room w \<and> rx w' = rx w"
  using assms(2,3)
proof (induction packets arbitrary: w errs)
  case Nil
  then show ?case by simp
next
  case (Cons packet packets)
  obtain r w1 where call: "wintun_send_packet dll session packet w = (r, w1)" by fastforce
  have one: "rx w1 = rx w \<and> lent w1 = lent w \<and> room w1 = room w \<and>
      (case r of Inl _ \<Rightarrow> tx w1 = tx w | Inr _ \<Rightarrow> tx w1 = tx w @ [packet])"
    using send_packet [OF assms(1) call] Cons.prems(1) by simp
  obtain errs1 where rest: "win_tun_writer dll session packets w1 = (errs1, w')"
      "errs = (case r of Inl x \<Rightarrow> x # errs1 | Inr _ \<Rightarrow> errs1)"
    using Cons.prems(2) call by (auto split: sum.splits prod.splits)
  obtain sent where "subseq sent packets \<and> length sent + length errs1 = length packets \<and> tx w' = tx w1 @ sent \<and>
      room w' = room w1 \<and> rx w' = rx w1"
    using Cons.IH [OF _ rest(1)] Cons.prems(1) by auto
  then show ?case
    using one rest(2)
    by (cases r) (auto intro: exI [of _ sent] exI [of _ "packet # sent"])
qed

section \<open>Reading\<close>

text \<open>
  What the thread makes of one packet of the adapter, given how the target is read from its sixteen bytes: an empty
  packet, and one that starts with \<^verbatim>\<open>0x60\<close> and ends before the target, make it panic.
\<close>

definition windows_posts :: "(bytes \<Rightarrow> 'a exec) \<Rightarrow> u64 \<times> bytes \<Rightarrow> 'a win_effect list exec" where
  "windows_posts target_of r =
    (let (millis, packet) = r
     in if packet = [] \<or> hd packet = 0x60 \<and> length packet < 40 then Panic IndexOutOfBounds
        else if hd packet \<noteq> 0x60 then Done []
        else exec_bind (target_of (take 16 (drop 24 packet))) (\<lambda>a. Done [Sends a (net_packet millis packet)]))"

lemma reader_turn:
  assumes "wintun_api dll session rx lent room tx" and "rx w = packet # packets"
  shows "\<exists>w'. win_reader_turn env dll session event millis w =
      exec_bind (windows_posts (from_buf env) (millis, packet)) (\<lambda>es. Done (es, w')) \<and> rx w' = packets \<and> lent w' = lent w"
proof -
  obtain r w' where call: "wintun_receive_packet dll session w = (r, w')" by fastforce
  then have got: "r = Inr packet" "rx w' = packets" "lent w' = lent w"
    using receive_packet [OF assms(1) call] assms(2) by auto
  have "win_reader_turn env dll session event millis w =
      exec_bind (windows_posts (from_buf env) (millis, packet)) (\<lambda>es. Done (es, w'))"
  proof (cases packet)
    case Nil
    then show ?thesis using call got(1) by (simp add: win_reader_turn_def windows_posts_def)
  next
    case (Cons b bs)
    have "slice_range 24 40 packet = (if length packet < 40 then None else Some (take 16 (drop 24 packet)))"
      by (simp add: slice_range_def)
    then show ?thesis
      using call got(1) Cons
      by (cases "from_buf env (take 16 (drop 24 packet))")
        (auto simp: win_reader_turn_def windows_posts_def net_packet_def simp del: drop_Suc_Cons)
  qed
  then show ?thesis using got by blast
qed

lemma reader_loop:
  assumes "wintun_api dll session rx lent room tx" and "length turns = length (rx w)"
  shows "\<exists>w'. win_reader_loop env dll session event turns w =
      exec_bind (traverse (windows_posts (from_buf env)) (zip turns (rx w))) (\<lambda>ess. Done (concat ess, w')) \<and>
    rx w' = [] \<and> lent w' = lent w"
  using assms(2)
proof (induction turns arbitrary: w)
  case Nil
  then show ?case by simp
next
  case (Cons millis turns)
  then obtain packet packets where rx: "rx w = packet # packets" by (cases "rx w") auto
  obtain w1 where one: "win_reader_turn env dll session event millis w =
      exec_bind (windows_posts (from_buf env) (millis, packet)) (\<lambda>es. Done (es, w1))" "rx w1 = packets" "lent w1 = lent w"
    using reader_turn [OF assms(1) rx] by blast
  obtain w2 where rest: "win_reader_loop env dll session event turns w1 =
      exec_bind (traverse (windows_posts (from_buf env)) (zip turns packets)) (\<lambda>ess. Done (concat ess, w2))"
      "rx w2 = []" "lent w2 = lent w1"
    using Cons.IH [of w1] Cons.prems one(2) rx by auto
  have "win_reader_loop env dll session event (millis # turns) w =
      exec_bind (traverse (windows_posts (from_buf env)) (zip (millis # turns) (rx w))) (\<lambda>ess. Done (concat ess, w2))"
    by (cases "windows_posts (from_buf env) (millis, packet)"; cases "traverse (windows_posts (from_buf env)) (zip turns packets)")
      (simp_all add: one(1) rest(1) rx)
  then show ?case using rest(2,3) one(3) by auto
qed

text \<open>The mesh packets among the effects of the thread, and among the messages of the Linux task.\<close>

definition sent_data :: "'a win_effect list \<Rightarrow> bytes list" where
  "sent_data es = concat (map (\<lambda>e. case e of Sends _ d \<Rightarrow> [d] | _ \<Rightarrow> []) es)"

definition posted_data :: "AllSendersMessage list \<Rightarrow> bytes list" where
  "posted_data msgs = concat (map (\<lambda>m. case m of SendToFastest _ d \<Rightarrow> [d] | _ \<Rightarrow> []) msgs)"

text \<open>The passes on which the two readers agree: those that see a packet whose first byte is \<^verbatim>\<open>0x60\<close>.\<close>

definition plain_v6 :: "(u64 \<times> bytes) list \<Rightarrow> (u64 \<times> tun_read) list" where
  "plain_v6 reads = map (\<lambda>(t, p). (t, Packet p)) (filter (\<lambda>(_, p). hd p = 0x60) reads)"

lemma windows_posts_as_linux:
  assumes "windows_posts target_of (millis, packet) = Done es"
  shows "packet \<noteq> [] \<and> sent_data es = (if hd packet = 0x60 then posted_data (read_posts (millis, Packet packet)) else [])"
proof (cases "hd packet = 0x60")
  case False
  then show ?thesis using assms by (auto simp: windows_posts_def sent_data_def split: if_splits)
next
  case True
  then have p: "packet \<noteq> []" "40 \<le> length packet" "sent_data es = [net_packet millis packet]"
    using assms by (auto simp: windows_posts_def sent_data_def exec_bind_Done split: if_splits)
  have v6: "ip_version packet = 6" using p(1) True by (simp add: ip_version_def)
  then have "\<not> short_ip packet" "ip_target packet \<noteq> None"
    using p ipv6_from_buf_total [of "take 16 (drop 24 packet)"] by (auto simp: short_ip_def ip_target_def)
  then show ?thesis using p True by (auto simp: posted_data_def read_posts_def)
qed

lemma windows_reads_as_linux:
  assumes "traverse (windows_posts target_of) reads = Done ess"
  shows "\<exists>msgs. linux_tun_reader (plain_v6 reads) = Done msgs \<and> sent_data (concat ess) = posted_data msgs"
  using assms
proof (induction reads arbitrary: ess)
  case Nil
  then show ?case by (simp add: plain_v6_def sent_data_def posted_data_def)
next
  case (Cons r reads)
  obtain millis packet where r: "r = (millis, packet)" by fastforce
  obtain es ess' where ess: "windows_posts target_of r = Done es" "traverse (windows_posts target_of) reads = Done ess'" "ess = es # ess'"
    using Cons.prems by (auto simp: exec_bind_Done)
  obtain msgs where msgs: "linux_tun_reader (plain_v6 reads) = Done msgs" "sent_data (concat ess') = posted_data msgs"
    using Cons.IH [OF ess(2)] by blast
  have one: "packet \<noteq> []" "sent_data es = (if hd packet = 0x60 then posted_data (read_posts (millis, Packet packet)) else [])"
    using windows_posts_as_linux [OF ess(1) [unfolded r]] by auto
  have "linux_tun_reader (plain_v6 (r # reads)) =
      Done ((if hd packet = 0x60 then read_posts (millis, Packet packet) else []) @ msgs)"
    using one(1) msgs(1) by (auto simp: r plain_v6_def linux_tun_reader_posts)
  then show ?case
    using one(2) msgs(2) ess(3) by (auto simp: sent_data_def posted_data_def)
qed

text \<open>
  C40. What the Windows thread does with the packets that wait at the adapter. With a driver that keeps its contract, as
  many passes of the loop as there are packets waiting have this outcome, for every outcome of the function that
  reads the target from its sixteen bytes. If a packet is empty, or starts with \<^verbatim>\<open>0x60\<close> and is shorter than a header, the
  thread panics there. Otherwise, if the targets can be read, it takes all packets in order, hands every buffer
  back to the driver, and sends those that start with \<^verbatim>\<open>0x60\<close>, in the mesh packets that the Linux task makes of them;
  the others, IPv4 and IPv6 with a traffic class, are dropped.
\<close>

theorem windows_reader_outcome:
  assumes "wintun_api dll session rx lent room tx" and "length turns = length (rx w)"
  shows "case traverse (windows_posts (from_buf env)) (zip turns (rx w)) of
      Done ess \<Rightarrow> \<exists>w' msgs. win_tun_reader env dll session turns w = Done (concat ess, w') \<and> rx w' = [] \<and> lent w' = lent w \<and>
        linux_tun_reader (plain_v6 (zip turns (rx w))) = Done msgs \<and> sent_data (concat ess) = posted_data msgs
    | Panic e \<Rightarrow> win_tun_reader env dll session turns w = Panic e
    | Diverges \<Rightarrow> win_tun_reader env dll session turns w = Diverges"
proof -
  obtain e w1 where event: "sym_get_read_wait_event dll session w = (e, w1)" by fastforce
  then have same: "rx w1 = rx w" "lent w1 = lent w" using assms(1) unfolding wintun_api_def by blast+
  obtain w' where loop: "win_tun_reader env dll session turns w =
      exec_bind (traverse (windows_posts (from_buf env)) (zip turns (rx w))) (\<lambda>ess. Done (concat ess, w'))"
      "rx w' = []" "lent w' = lent w"
    using reader_loop [OF assms(1), of turns w1 env e] same assms(2) event
    by (auto simp: win_tun_reader_def wintun_get_read_wait_event_def)
  show ?thesis
    using loop windows_reads_as_linux [of "from_buf env" "zip turns (rx w)"] by (auto split: exec.split)
qed

text \<open>Two packets wait: a plain one and one with a traffic class. The target is read as the current code does.\<close>

theorem windows_reader_outcome_witness:
  "\<exists>ess w'. win_tun_reader
      \<lparr>load = (\<lambda>_. None), from_node_name_v6 = (\<lambda>_. V4 0 0 0 0), to_buf = (\<lambda>_. []), from_buf = ipv6_from_buf,
        initialize_row = id, create_unicast_ip_address_entry = (\<lambda>_ w. (0, w)), wait_for_single_object = (\<lambda>_ w. (0, w))\<rparr>
      sample_dll 3 [5, 6]
      \<lparr>driver = \<lparr>sample_rx = [0x60 # replicate 39 1, 0x6F # replicate 39 1], sample_lent = {#},
         sample_room = Map.empty, sample_tx = []\<rparr>, memory = (\<lambda>_. 0), last_error = 0\<rparr> = Done (concat ess, w') \<and>
    sent_data (concat ess) = [net_packet 5 (0x60 # replicate 39 1)]"
proof -
  let ?a = "0x60 # replicate 39 (1 :: u8)" and ?b = "0x6F # replicate 39 (1 :: u8)"
  let ?env = "\<lparr>load = (\<lambda>_. None), from_node_name_v6 = (\<lambda>_. V4 0 0 0 0), to_buf = (\<lambda>_. []), from_buf = ipv6_from_buf,
        initialize_row = id, create_unicast_ip_address_entry = (\<lambda>_ w. (0, w)), wait_for_single_object = (\<lambda>_ w. (0, w))\<rparr>"
  let ?w = "\<lparr>driver = \<lparr>sample_rx = [?a, ?b], sample_lent = {#}, sample_room = Map.empty, sample_tx = []\<rparr>,
    memory = (\<lambda>_. 0), last_error = 0\<rparr>"
  have rx: "filter fits (sample_rx (driver ?w)) = [?a, ?b]" by (simp add: fits_def)
  obtain a where "ipv6_from_buf (take 16 (drop 24 ?a)) = Done a" using ipv6_from_buf_total [of "take 16 (drop 24 ?a)"] by auto
  then have posts: "traverse (windows_posts ipv6_from_buf) (zip [5, 6] [?a, ?b]) = Done [[Sends a (net_packet 5 ?a)], []]"
    by (simp add: windows_posts_def del: drop_Suc_Cons)
  then show ?thesis
    using windows_reader_outcome [OF sample_api, of "[5, 6]" ?w ?env 3, unfolded rx]
    by (auto simp: sent_data_def intro!: exI [of _ "[[Sends a (net_packet 5 ?a)], []]"])
qed

end
