(* ===== verification/Seen_Packets_Tests.thy ===== *)
theory Seen_Packets_Tests
  imports Seen_Packets Ip_Addr
begin

text \<open>
  The unit tests of \<^verbatim>\<open>rust/src/seen_packets.rs\<close>, each the conjunction of its assertions. They depend on the hash
  function of the \<^verbatim>\<open>rustc-hash\<close> crate, which is a parameter; they pass for every function without collisions among
  the packets of the test.
\<close>

definition add_all :: "(bytes \<Rightarrow> u64) \<Rightarrow> bytes list \<Rightarrow> SeenPackets \<Rightarrow> SeenPackets" where
  "add_all fx ps s = fold (\<lambda>p s. snd (seen_add fx p s)) ps s"

definition test_new_packet_is_not_contained :: "(bytes \<Rightarrow> u64) \<Rightarrow> bool" where
  "test_new_packet_is_not_contained fx \<longleftrightarrow> \<not> seen_contains fx (SeenPackets_new 5) (bstr ''test packet'')"

definition test_add_and_contains :: "(bytes \<Rightarrow> u64) \<Rightarrow> bool" where
  "test_add_and_contains fx =
    (let seen_packets = SeenPackets_new 5;
         packet = bstr ''test packet'';
         different_packet = bstr ''different packet'';
         seen_packets2 = add_all fx [packet] seen_packets
     in \<not> seen_contains fx seen_packets packet \<and> seen_contains fx seen_packets2 packet \<and>
        \<not> seen_contains fx seen_packets2 different_packet)"

definition test_adding_same_packet_multiple_times :: "(bytes \<Rightarrow> u64) \<Rightarrow> bool" where
  "test_adding_same_packet_multiple_times fx =
    (let packet = bstr ''test packet'';
         s1 = add_all fx [packet] (SeenPackets_new 5);
         s2 = add_all fx [packet] s1
     in seen_contains fx s1 packet \<and> seen_contains fx s2 packet)"

definition packet_name :: "nat \<Rightarrow> bytes" where
  "packet_name i = bstr (''packet'' @ dec_digits i)"

definition test_capacity_limit :: "(bytes \<Rightarrow> u64) \<Rightarrow> bool" where
  "test_capacity_limit fx =
    (let s3 = add_all fx [packet_name 1, packet_name 2, packet_name 3] (SeenPackets_new 3);
         s4 = add_all fx [packet_name 4] s3
     in seen_contains fx s3 (packet_name 1) \<and> seen_contains fx s3 (packet_name 2) \<and>
        seen_contains fx s3 (packet_name 3) \<and>
        \<not> seen_contains fx s4 (packet_name 1) \<and> seen_contains fx s4 (packet_name 2) \<and>
        seen_contains fx s4 (packet_name 3) \<and> seen_contains fx s4 (packet_name 4))"

definition test_multiple_capacity_limit_exceeding :: "(bytes \<Rightarrow> u64) \<Rightarrow> bool" where
  "test_multiple_capacity_limit_exceeding fx =
    (let s2 = add_all fx [packet_name 1, packet_name 2] (SeenPackets_new 2);
         s3 = add_all fx [packet_name 3] s2;
         s4 = add_all fx [packet_name 4] s3
     in seen_contains fx s2 (packet_name 1) \<and> seen_contains fx s2 (packet_name 2) \<and>
        \<not> seen_contains fx s3 (packet_name 1) \<and> seen_contains fx s3 (packet_name 2) \<and>
        seen_contains fx s3 (packet_name 3) \<and>
        \<not> seen_contains fx s4 (packet_name 1) \<and> \<not> seen_contains fx s4 (packet_name 2) \<and>
        seen_contains fx s4 (packet_name 3) \<and> seen_contains fx s4 (packet_name 4))"

definition test_edge_cases :: "(bytes \<Rightarrow> u64) \<Rightarrow> bool" where
  "test_edge_cases fx =
    (let s0 = add_all fx [bstr ''packet''] (SeenPackets_new 0);
         s1 = add_all fx [packet_name 1] (SeenPackets_new 1);
         s2 = add_all fx [packet_name 2] s1;
         s5 = add_all fx [[]] (SeenPackets_new 5)
     in \<not> seen_contains fx s0 (bstr ''packet'') \<and> seen_contains fx s1 (packet_name 1) \<and>
        \<not> seen_contains fx s2 (packet_name 1) \<and> seen_contains fx s2 (packet_name 2) \<and> seen_contains fx s5 [])"

definition test_large_capacity :: "(bytes \<Rightarrow> u64) \<Rightarrow> bool" where
  "test_large_capacity fx =
    (let capacity = 1000;
         s = add_all fx (map packet_name [0..<capacity]) (SeenPackets_new capacity);
         s' = add_all fx [packet_name capacity] s
     in list_all (\<lambda>i. seen_contains fx s (packet_name i)) [0..<capacity] \<and>
        \<not> seen_contains fx s' (packet_name 0) \<and> seen_contains fx s' (packet_name capacity))"

lemma drop_append_drop: "k \<le> length xs \<Longrightarrow> drop n (drop k xs @ ys) = drop (n + k) (xs @ ys)"
proof -
  assume "k \<le> length xs"
  then have "drop k (xs @ ys) = drop k xs @ ys" by simp
  then show ?thesis by (metis drop_drop)
qed

text \<open>After any packets with different hashes the filter holds the last of them.\<close>

lemma add_all_deque:
  assumes "seen_inv s" and "distinct (deque s @ map fx ps)"
  shows "seen_inv (add_all fx ps s) \<and> capacity (add_all fx ps s) = capacity s \<and>
    deque (add_all fx ps s) = drop (length (deque s) + length ps - capacity s) (deque s @ map fx ps)"
  using assms
proof (induction ps arbitrary: s)
  case Nil
  then show ?case by (simp add: add_all_def seen_inv_def)
next
  case (Cons p ps)
  let ?s = "snd (seen_add fx p s)"
  have new: "fx p \<notin> hashset s" using Cons.prems by (auto simp: seen_inv_def)
  have inv: "seen_inv ?s" using Cons.prems(1) by (rule seen_inv_add)
  let ?x = "deque s @ [fx p]" and ?k = "length (deque s) + 1 - capacity s"
  have dq: "deque ?s = drop ?k ?x"
    using deque_seen_add [OF Cons.prems(1), of fx p] new Cons.prems(1) by (auto simp: window_add_def seen_inv_def)
  have "distinct (drop ?k (?x @ map fx ps))" using Cons.prems(2) by (intro distinct_drop) simp
  moreover have k: "?k \<le> length ?x" by simp
  ultimately have dist: "distinct (deque ?s @ map fx ps)" by (simp only: dq drop_append) simp
  have "length ?x - ?k + length ps - capacity s + ?k = length ?x + length ps - capacity s"
    using Cons.prems(1) by (auto simp: seen_inv_def)
  moreover have "deque (add_all fx ps ?s) = drop (length ?x - ?k + length ps - capacity s) (drop ?k ?x @ map fx ps)"
    using Cons.IH [OF inv dist] by (simp only: dq length_drop capacity_seen_add)
  ultimately have "deque (add_all fx ps ?s) = drop (length ?x + length ps - capacity s) (?x @ map fx ps)"
    by (simp only: drop_append_drop [OF k])
  moreover have "add_all fx (p # ps) s = add_all fx ps ?s" by (simp add: add_all_def)
  ultimately show ?case using Cons.IH [OF inv dist] by simp
qed

lemma add_all_contains:
  assumes "distinct (map fx ps)"
  shows "seen_contains fx (add_all fx ps (SeenPackets_new n)) q \<longleftrightarrow> fx q \<in> set (drop (length ps - n) (map fx ps))"
  using add_all_deque [of "SeenPackets_new n" fx ps] assms seen_inv_new [of n]
  by (simp add: seen_contains_def seen_inv_def SeenPackets_new_def)

lemma add_all_append: "add_all fx qs (add_all fx ps s) = add_all fx (ps @ qs) s"
  by (simp add: add_all_def)

lemma of_char_inject: "(of_char c :: u8) = of_char d \<longleftrightarrow> c = d"
proof
  assume "(of_char c :: u8) = of_char d"
  then have "unat (of_nat (of_char c) :: u8) = unat (of_nat (of_char d) :: u8)" by (simp only: of_nat_of_char)
  then have "of_char c = (of_char d :: nat)"
    using nat_of_char_less_256 [of c] nat_of_char_less_256 [of d] by (simp add: unsigned_of_nat take_bit_nat_eq_self)
  then show "c = d" using inj_of_char by (auto dest: injD)
qed simp

lemma packet_name_inject: "packet_name i = packet_name j \<longleftrightarrow> i = j"
proof -
  have "inj (of_char :: char \<Rightarrow> u8)" by (simp add: inj_def of_char_inject)
  then show ?thesis by (auto simp: packet_name_def bstr_def inj_map_eq_map dest: dec_digits_inject)
qed

text \<open>For numbered packets the filter answers for the numbers.\<close>

lemma add_all_numbered:
  assumes "inj_on fx (packet_name ` {0..1000})" and "distinct ns" and "set ns \<subseteq> {0..1000}" and "i \<le> 1000"
  shows "seen_contains fx (add_all fx (map packet_name ns) (SeenPackets_new n)) (packet_name i) \<longleftrightarrow>
    i \<in> set (drop (length ns - n) ns)"
proof -
  have inj: "inj_on (\<lambda>i. fx (packet_name i)) {0..1000}"
    using assms(1) packet_name_inject by (auto simp: inj_on_def)
  then have "distinct (map fx (map packet_name ns))"
    using assms(2,3) by (simp add: distinct_map o_def inj_on_subset)
  then have "seen_contains fx (add_all fx (map packet_name ns) (SeenPackets_new n)) (packet_name i) \<longleftrightarrow>
      fx (packet_name i) \<in> (\<lambda>i. fx (packet_name i)) ` set (drop (length ns - n) ns)"
    by (simp add: add_all_contains drop_map image_image o_def)
  also have "\<dots> \<longleftrightarrow> i \<in> set (drop (length ns - n) ns)"
    using assms(3,4) by (intro inj_on_image_mem_iff [OF inj]) (auto dest: in_set_dropD)
  finally show ?thesis .
qed

lemma test_large_capacity_passes:
  assumes "inj_on fx (packet_name ` {0..1000})"
  shows "test_large_capacity fx"
proof -
  let ?s = "add_all fx (map packet_name [0..<1000]) (SeenPackets_new 1000)"
  have "seen_contains fx ?s (packet_name i)" if "i < 1000" for i
    using add_all_numbered [OF assms, of "[0..<1000]" i 1000] that by (auto simp: subset_iff)
  moreover have "[0..<1001] = [0..<1000] @ [1000 :: nat]" using upt_Suc_append [of 0 1000] by simp
  then have "add_all fx [packet_name 1000] ?s = add_all fx (map packet_name [0..<1001]) (SeenPackets_new 1000)"
    by (simp only: add_all_append map_append list.map)
  then have "seen_contains fx (add_all fx [packet_name 1000] ?s) (packet_name i) \<longleftrightarrow> i \<noteq> 0" if "i \<le> 1000" for i
    using add_all_numbered [OF assms, of "[0..<1001]" i 1000] that by (auto simp: subset_iff)
  ultimately show ?thesis by (simp add: test_large_capacity_def Let_def list_all_iff)
qed

lemma test_capacities_pass:
  assumes "inj_on fx (packet_name ` {0..1000})"
  shows "test_capacity_limit fx" "test_multiple_capacity_limit_exceeding fx" "test_edge_cases fx"
proof -
  note contains = add_all_numbered [OF assms]
  have s: "[packet_name 1] = map packet_name [1]" "[packet_name 1, packet_name 2] = map packet_name [1, 2]"
    "[packet_name 1, packet_name 2, packet_name 3] = map packet_name [1, 2, 3]"
    "[packet_name 1, packet_name 2, packet_name 3, packet_name 4] = map packet_name [1, 2, 3, 4]"
    by simp_all
  have "seen_contains fx (add_all fx [[]] (SeenPackets_new 5)) []"
    "\<not> seen_contains fx (add_all fx [bstr ''packet''] (SeenPackets_new 0)) (bstr ''packet'')"
    by (simp_all add: add_all_contains)
  then show "test_capacity_limit fx" "test_multiple_capacity_limit_exceeding fx" "test_edge_cases fx"
    unfolding test_capacity_limit_def test_multiple_capacity_limit_exceeding_def test_edge_cases_def
      Let_def add_all_append append.simps
    unfolding s by (auto simp: contains simp del: list.map)
qed

text \<open>
  All unit tests of the duplicate filter pass, provided the hash function has no collisions among the packets the
  tests use.
\<close>

theorem seen_packets_tests_pass:
  assumes "inj_on fx ({bstr ''test packet'', bstr ''different packet''} \<union> packet_name ` {0..1000})"
  shows "test_new_packet_is_not_contained fx \<and> test_add_and_contains fx \<and>
    test_adding_same_packet_multiple_times fx \<and> test_capacity_limit fx \<and>
    test_multiple_capacity_limit_exceeding fx \<and> test_edge_cases fx \<and> test_large_capacity fx"
proof -
  have "bstr ''test packet'' \<noteq> bstr ''different packet''" by (simp add: bstr_def)
  then have diff: "fx (bstr ''test packet'') \<noteq> fx (bstr ''different packet'')"
    using assms by (auto simp: inj_on_def)
  have "inj_on fx (packet_name ` {0..1000})" using assms by (rule inj_on_subset) auto
  note numbered = test_large_capacity_passes [OF this] test_capacities_pass [OF this]
  have "test_add_and_contains fx" "test_adding_same_packet_multiple_times fx"
    "test_new_packet_is_not_contained fx"
    using diff by (simp_all add: test_add_and_contains_def test_adding_same_packet_multiple_times_def
        test_new_packet_is_not_contained_def Let_def add_all_def seen_add_def seen_contains_def SeenPackets_new_def
        evict_def)
  then show ?thesis using numbered by blast
qed

end
