(* ===== verification/Gimli_Vectors.thy ===== *)
theory Gimli_Vectors
  imports Gimli
begin

text \<open>
  The published test vector of the hash that the unit tests of \<^verbatim>\<open>rust/src/gimli.rs\<close> check, evaluated
  by the kernel's simplifier: the model computes the digest the Rust code computes.
\<close>

lemma upt_0_4: "[0..<4] = [0, 1, 2, 3 :: nat]"
  by code_simp

lemma rounds_down: "rev [1..<25] =
  [24, 23, 22, 21, 20, 19, 18, 17, 16, 15, 14, 13, 12, 11, 10, 9, 8, 7, 6, 5, 4, 3, 2, 1 :: nat]"
  by code_simp

lemma gimli_unrolled: "gimli st = fold gimli_round
  [24, 23, 22, 21, 20, 19, 18, 17, 16, 15, 14, 13, 12, 11, 10, 9, 8, 7, 6, 5, 4, 3, 2, 1] st"
  by (simp only: gimli_def rounds_down)

lemmas gimli_eval = gimli_unrolled gimli_round_def upt_0_4 gimli_column_def sp_box_def
  small_swap_def big_swap_def add_constant_def swap_def word_eval

lemma replicate_48: "replicate 48 (0 :: u8) =
  [0, 0, 0, 0, 0, 0, 0, 0, 0, 0, 0, 0, 0, 0, 0, 0, 0, 0, 0, 0, 0, 0, 0, 0,
   0, 0, 0, 0, 0, 0, 0, 0, 0, 0, 0, 0, 0, 0, 0, 0, 0, 0, 0, 0, 0, 0, 0, 0]"
  by code_simp

lemma pad_empty: "state_words (hash_pad 0 GimliState_new) =
  [0x1F, 0, 0, 0x80000000, 0, 0, 0, 0, 0, 0, 0, 0]"
  by (simp add: GimliState_new_def replicate_48 hash_pad_def Let_def state_words_def chunks.simps)

text \<open>The two applications of the permutation the digest of the empty input needs.\<close>

lemma gimli_first: "gimli [0x1F, 0, 0, 0x80000000, 0, 0, 0, 0, 0, 0, 0, 0] =
  [743138224, 3978954763, 4272079045, 3484279630, 1020671155, 1310784853,
   4081853253, 871630220, 1530143576, 4283332019, 2074433386, 1514846899]"
  by (simp add: gimli_eval)

lemma gimli_second: "gimli
  [743138224, 3978954763, 4272079045, 3484279630, 1020671155, 1310784853,
   4081853253, 871630220, 1530143576, 4283332019, 2074433386, 1514846899] =
  [99387849, 2902487006, 2863858907, 1730095020, 1805495661, 2093502131,
   99751175, 3716397896, 4212429127, 3076749568, 3145209029, 2085147073]"
  by (simp add: gimli_eval)

lemma permute_state_bytes: "permute (state_bytes ws) = state_bytes (gimli ws)"
  by (simp add: permute_def state_words_bytes)

lemma take_state_bytes: "take 16 (state_bytes (a # b # c # d # ws)) =
  to_le_bytes 4 a @ to_le_bytes 4 b @ to_le_bytes 4 c @ to_le_bytes 4 d"
  by (simp add: state_bytes_def)

text \<open>
  The digest of the empty input is the published one that the unit test
  \<^verbatim>\<open>test_gimlihash_1\<close> expects.
\<close>

theorem gimli_hash_empty: "gimli_hash [] 32 =
  [0xb0, 0x63, 0x4b, 0x2c, 0x0b, 0x08, 0x2a, 0xed, 0xc5, 0xc0, 0xa2, 0xfe, 0x4e, 0xe3, 0xad, 0xcf,
   0xc9, 0x89, 0xec, 0x05, 0xde, 0x6f, 0x00, 0xad, 0xdb, 0x04, 0xb3, 0xaa, 0xac, 0x27, 0x1f, 0x67]"
proof -
  let ?p = "permute (hash_pad 0 GimliState_new)"
  have first: "?p = state_bytes
    [743138224, 3978954763, 4272079045, 3484279630, 1020671155, 1310784853,
   4081853253, 871630220, 1530143576, 4283332019, 2074433386, 1514846899]"
    by (simp only: permute_def pad_empty gimli_first)
  have second: "permute ?p = state_bytes
    [99387849, 2902487006, 2863858907, 1730095020, 1805495661, 2093502131,
   99751175, 3716397896, 4212429127, 3076749568, 3145209029, 2085147073]"
    by (simp only: first permute_state_bytes gimli_second)
  have "gimli_hash [] 32 = take 16 ?p @ take 16 (permute ?p)"
    by (simp add: gimli_hash_def Let_def hash_squeeze.simps)
  then show ?thesis
    unfolding second unfolding first by (simp add: take_state_bytes to_le_bytes_4)
qed

end
