(* ===== verification/Crypto_Tests.thy ===== *)
theory Crypto_Tests
  imports Gimli_Vectors Ip_Addr
begin

text \<open>
  The unit tests of \<^verbatim>\<open>rust/src/raw_speck.rs\<close> and \<^verbatim>\<open>rust/src/gimli.rs\<close>, as functions that panic when an assertion
  fails, and the proof that they pass: the model of the ciphers computes what the tests expect of the code.
\<close>

section \<open>The tests\<close>

definition assert_eq :: "'a \<Rightarrow> 'a \<Rightarrow> unit exec" where
  "assert_eq a b = (if a = b then Done () else Panic AssertFailed)"

definition test_ernd_basic :: "unit exec" where
  "test_ernd_basic = assert_eq (ernd 1 2 3) (72057594037927937, 72057594037927953)"

definition test_drnd_basic :: "unit exec" where
  "test_drnd_basic = assert_eq (drnd 1 2 3) (672, 6917529027641081856)"

definition gimli_hash_assert :: "bytes \<Rightarrow> string \<Rightarrow> unit exec" where
  "gimli_hash_assert input expected_hash =
    (let hash = gimli_hash input 32;
         hash_hex = fold (\<lambda>b hash_hex. hash_hex @ fmt_hex2 b) hash []
     in assert_eq hash_hex expected_hash)"

definition test_gimlihash_1 :: "unit exec" where
  "test_gimlihash_1 =
    gimli_hash_assert (bstr '''') ''b0634b2c0b082aedc5c0a2fe4ee3adcfc989ec05de6f00addb04b3aaac271f67''"

definition test_gimlihash_2 :: "unit exec" where
  "test_gimlihash_2 =
    gimli_hash_assert
      (bstr (''There'' @ [CHR 0x27] @ ''s plenty for the both of us, may the best Dwarf win.''))
      ''4afb3ff784c7ad6943d49cf5da79facfa7c4434e1ce44f5dd4b28f91a84d22c8''"

section \<open>The second digest\<close>

text \<open>The five applications of the permutation it needs.\<close>

lemma dwarf_1: "gimli
  [1919248468, 544417637, 1852140656, 1713404276, 0, 0,
   0, 0, 0, 0, 0, 0] =
  [99471680, 2141869328, 3412589189, 3862434685, 730095317, 2379939406,
   79289570, 3801928210, 1740772064, 4041426207, 520799261, 2509280639]"
  by (simp add: gimli_eval)

lemma dwarf_2: "gimli
  [1909302063, 495595640, 3943665386, 2467853586, 730095317, 2379939406,
   79289570, 3801928210, 1740772064, 4041426207, 520799261, 2509280639] =
  [4027995282, 26237506, 1321383527, 2455042748, 3161012508, 1825688008,
   1339374462, 3922828401, 1627098592, 1684641152, 83621702, 3615446828]"
  by (simp add: gimli_eval)

lemma dwarf_3: "gimli
  [2637592801, 1974477603, 753062671, 2988476889, 3161012508, 1825688008,
   1339374462, 3922828401, 1627098592, 1684641152, 83621702, 3615446828] =
  [412143453, 1028628186, 410286345, 3612276527, 1941544240, 1500037077,
   1678507545, 3577500883, 1948440264, 4096655349, 862445136, 3332238790]"
  by (simp add: gimli_eval)

lemma dwarf_4: "gimli
  [1794226201, 1413004988, 409687911, 1464792879, 1941544240, 1500037077,
   1678507545, 3577500883, 1948440264, 4096655349, 862445136, 3332238790] =
  [4148165450, 1772996484, 4120695875, 3489298906, 2357537798, 2351010784,
   958780020, 3359977331, 1324281194, 2137898926, 2621922731, 2562168425]"
  by (simp add: gimli_eval)

lemma dwarf_5: "gimli
  [4148165450, 1772996484, 4120695875, 3489298906, 2357537798, 2351010784,
   958780020, 3359977331, 1324281194, 2137898926, 2621922731, 2562168425] =
  [1313064103, 1565516828, 2442113748, 3357691304, 607551429, 2806500494,
   1450339452, 691978121, 2996117982, 1343148504, 3599136746, 3922606383]"
  by (simp add: gimli_eval)

text \<open>Xoring literal blocks, byte by byte.\<close>

lemma xor_into_Nil: "xor_into [] buf = buf"
  by (simp add: xor_into_def)

lemma xor_into_Cons:
  assumes "length chunk \<le> length buf"
  shows "xor_into (a # chunk) (b # buf) = (b XOR a) # xor_into chunk buf"
  using assms by (intro nth_equalityI) (auto simp: nth_xor_into nth_Cons split: nat.split)

text \<open>The states between them.\<close>

lemma absorb_words: "length c = 16 \<Longrightarrow> state_words (xor_into c s) = ws \<Longrightarrow> hash_absorb c s = state_bytes (gimli ws)"
  by (simp add: hash_absorb_def Let_def RATE_BYTES_def RATE_BITS_def permute_def)

lemma dwarf_absorb_1: "hash_absorb [84, 104, 101, 114, 101, 39, 115, 32, 112, 108, 101, 110, 116, 121, 32, 102]
  (GimliState_new) =
  state_bytes [99471680, 2141869328, 3412589189, 3862434685, 730095317, 2379939406,
   79289570, 3801928210, 1740772064, 4041426207, 520799261, 2509280639]"
  unfolding dwarf_1 [symmetric]
  by (rule absorb_words) (simp_all add: state_words_def state_bytes_def chunks.simps to_le_bytes_4 xor_into_Nil xor_into_Cons GimliState_new_def replicate_48)

lemma dwarf_absorb_2: "hash_absorb [111, 114, 32, 116, 104, 101, 32, 98, 111, 116, 104, 32, 111, 102, 32, 117]
  (state_bytes
   [99471680, 2141869328, 3412589189, 3862434685, 730095317, 2379939406,
    79289570, 3801928210, 1740772064, 4041426207, 520799261, 2509280639]) =
  state_bytes [4027995282, 26237506, 1321383527, 2455042748, 3161012508, 1825688008,
   1339374462, 3922828401, 1627098592, 1684641152, 83621702, 3615446828]"
  unfolding dwarf_2 [symmetric]
  by (rule absorb_words) (simp_all add: state_words_def state_bytes_def chunks.simps to_le_bytes_4 xor_into_Nil xor_into_Cons)

lemma dwarf_absorb_3: "hash_absorb [115, 44, 32, 109, 97, 121, 32, 116, 104, 101, 32, 98, 101, 115, 116, 32]
  (state_bytes
   [4027995282, 26237506, 1321383527, 2455042748, 3161012508, 1825688008,
    1339374462, 3922828401, 1627098592, 1684641152, 83621702, 3615446828]) =
  state_bytes [412143453, 1028628186, 410286345, 3612276527, 1941544240, 1500037077,
   1678507545, 3577500883, 1948440264, 4096655349, 862445136, 3332238790]"
  unfolding dwarf_3 [symmetric]
  by (rule absorb_words) (simp_all add: state_words_def state_bytes_def chunks.simps to_le_bytes_4 xor_into_Nil xor_into_Cons)

lemma dwarf_pad: "permute (hash_pad 10 (hash_absorb [68, 119, 97, 114, 102, 32, 119, 105, 110, 46]
  (state_bytes [412143453, 1028628186, 410286345, 3612276527, 1941544240, 1500037077,
   1678507545, 3577500883, 1948440264, 4096655349, 862445136, 3332238790]))) =
  state_bytes [4148165450, 1772996484, 4120695875, 3489298906, 2357537798, 2351010784,
   958780020, 3359977331, 1324281194, 2137898926, 2621922731, 2562168425]"
proof -
  have "state_words (hash_pad 10 (hash_absorb [68, 119, 97, 114, 102, 32, 119, 105, 110, 46]
    (state_bytes [412143453, 1028628186, 410286345, 3612276527, 1941544240, 1500037077,
     1678507545, 3577500883, 1948440264, 4096655349, 862445136, 3332238790]))) =
    [1794226201, 1413004988, 409687911, 1464792879, 1941544240, 1500037077,
     1678507545, 3577500883, 1948440264, 4096655349, 862445136, 3332238790]"
    by (simp add: hash_absorb_def hash_pad_def Let_def state_words_def state_bytes_def chunks.simps to_le_bytes_4 xor_into_Nil xor_into_Cons)
  then show ?thesis by (simp only: permute_def dwarf_4)
qed

lemma dwarf_squeeze: "permute (state_bytes [4148165450, 1772996484, 4120695875, 3489298906, 2357537798, 2351010784,
   958780020, 3359977331, 1324281194, 2137898926, 2621922731, 2562168425]) =
  state_bytes [1313064103, 1565516828, 2442113748, 3357691304, 607551429, 2806500494,
   1450339452, 691978121, 2996117982, 1343148504, 3599136746, 3922606383]"
  by (simp only: permute_state_bytes dwarf_5)

lemma dwarf_chunks: "chunks RATE_BYTES [84, 104, 101, 114, 101, 39, 115, 32, 112, 108, 101, 110, 116, 121, 32, 102,
   111, 114, 32, 116, 104, 101, 32, 98, 111, 116, 104, 32, 111, 102, 32, 117,
   115, 44, 32, 109, 97, 121, 32, 116, 104, 101, 32, 98, 101, 115, 116, 32,
   68, 119, 97, 114, 102, 32, 119, 105, 110, 46] =
  [[84, 104, 101, 114, 101, 39, 115, 32, 112, 108, 101, 110, 116, 121, 32, 102],
   [111, 114, 32, 116, 104, 101, 32, 98, 111, 116, 104, 32, 111, 102, 32, 117],
   [115, 44, 32, 109, 97, 121, 32, 116, 104, 101, 32, 98, 101, 115, 116, 32],
   [68, 119, 97, 114, 102, 32, 119, 105, 110, 46]]"
  by (simp add: chunks.simps)

lemma gimli_hash_dwarf: "gimli_hash [84, 104, 101, 114, 101, 39, 115, 32, 112, 108, 101, 110, 116, 121, 32, 102,
   111, 114, 32, 116, 104, 101, 32, 98, 111, 116, 104, 32, 111, 102, 32, 117,
   115, 44, 32, 109, 97, 121, 32, 116, 104, 101, 32, 98, 101, 115, 116, 32,
   68, 119, 97, 114, 102, 32, 119, 105, 110, 46] 32 =
  [74, 251, 63, 247, 132, 199, 173, 105, 67, 212, 156, 245, 218, 121, 250, 207,
   167, 196, 67, 78, 28, 228, 79, 93, 212, 178, 143, 145, 168, 77, 34, 200]"
proof -
  have "gimli_hash [84, 104, 101, 114, 101, 39, 115, 32, 112, 108, 101, 110, 116, 121, 32, 102,
   111, 114, 32, 116, 104, 101, 32, 98, 111, 116, 104, 32, 111, 102, 32, 117,
   115, 44, 32, 109, 97, 121, 32, 116, 104, 101, 32, 98, 101, 115, 116, 32,
   68, 119, 97, 114, 102, 32, 119, 105, 110, 46] 32 =
      take 16 (state_bytes [4148165450, 1772996484, 4120695875, 3489298906, 2357537798, 2351010784,
        958780020, 3359977331, 1324281194, 2137898926, 2621922731, 2562168425]) @
      take 16 (permute (state_bytes [4148165450, 1772996484, 4120695875, 3489298906, 2357537798, 2351010784,
        958780020, 3359977331, 1324281194, 2137898926, 2621922731, 2562168425]))"
    by (simp add: gimli_hash_def dwarf_chunks [unfolded RATE_BYTES_16] dwarf_absorb_1 dwarf_absorb_2 dwarf_absorb_3
        dwarf_pad Let_def hash_squeeze.simps)
  then show ?thesis
    unfolding dwarf_squeeze by (simp add: take_state_bytes to_le_bytes_4)
qed

section \<open>The tests pass\<close>

text \<open>
  The unit tests of the ciphers pass on the model: the two rounds of Speck, and the two published digests of
  Gimli-Hash.
\<close>

theorem crypto_tests_pass:
  "test_ernd_basic = Done () \<and> test_drnd_basic = Done () \<and> test_gimlihash_1 = Done () \<and> test_gimlihash_2 = Done ()"
proof (intro conjI)
  show "test_ernd_basic = Done ()" by (simp add: test_ernd_basic_def assert_eq_def ernd_vector)
  show "test_drnd_basic = Done ()" by (simp add: test_drnd_basic_def assert_eq_def drnd_vector)
  have "gimli_hash_assert [] ''b0634b2c0b082aedc5c0a2fe4ee3adcfc989ec05de6f00addb04b3aaac271f67'' = Done ()"
    unfolding gimli_hash_assert_def gimli_hash_empty by (simp add: assert_eq_def fmt_hex2_def digit_char_def)
  then show "test_gimlihash_1 = Done ()" by (simp add: test_gimlihash_1_def bstr_def)
  have "bstr (''There'' @ [CHR 0x27] @ ''s plenty for the both of us, may the best Dwarf win.'') =
      [84, 104, 101, 114, 101, 39, 115, 32, 112, 108, 101, 110, 116, 121, 32, 102,
   111, 114, 32, 116, 104, 101, 32, 98, 111, 116, 104, 32, 111, 102, 32, 117,
   115, 44, 32, 109, 97, 121, 32, 116, 104, 101, 32, 98, 101, 115, 116, 32,
   68, 119, 97, 114, 102, 32, 119, 105, 110, 46]"
    by (simp add: bstr_def)
  then show "test_gimlihash_2 = Done ()"
    unfolding test_gimlihash_2_def gimli_hash_assert_def
    by (simp only: gimli_hash_dwarf) (simp add: assert_eq_def fmt_hex2_def digit_char_def)
qed

end
