(* ===== verification/Spec2Isabelle.thy ===== *)
theory Spec2Isabelle
  imports Mesh_Rest Program Background Link_Progress Executor_Threads Thread_Future Arc_Fd Tun_Setup Windows_Tuntap
    Seen_Packets_Tests Crypto_Tests
begin

text \<open>
  A verification development of the Rust implementation of smolmesh2, a peer-to-peer mesh VPN
  (\<^verbatim>\<open>rust/src\<close> of the repository).

  \<^bold>\<open>The program.\<close> A node reads packets from a TUN device and from TCP links to other nodes. Every few seconds it
  floods announcements of its name and addresses; a node remembers on which link the newest announcement of an
  address arrived first and sends IP packets for that address there. Links are encrypted and authenticated
  with a shared key, and everything runs as tasks of a small asynchronous runtime on one thread. The parts,
  from the bottom up, with the theories that model them:

  \<^item> Cryptography. \<open>Raw_Speck\<close> (\<^verbatim>\<open>raw_speck.rs\<close>: rounds and key schedule), \<open>Gimli\<close> and \<open>Gimli_Vectors\<close>
    (\<^verbatim>\<open>gimli.rs\<close>: permutation, state, hash), \<open>Crypto_Tests\<close> (the unit tests of both), \<open>Rng\<close> and \<open>Rng_Seed\<close>
    (\<^verbatim>\<open>rng.rs\<close>: the sponge generator and \<^verbatim>\<open>init_rng\<close>), \<open>Link_Crypto\<close> (keystream and keyed hashes of \<^verbatim>\<open>legacy_tcp.rs\<close>). States are byte lists at
    their exact lengths and words at their widths; the target is little-endian.
  \<^item> Addresses. \<open>Ip_Addr\<close> and \<open>Ip_Addr_Example\<close> (\<^verbatim>\<open>ip_addr.rs\<close>): reading from buffers, the derivation of an
    address from a name with its unbounded search, printing.
  \<^item> Duplicate filter. \<open>Seen_Packets\<close> and \<open>Seen_Packets_Tests\<close> (\<^verbatim>\<open>seen_packets.rs\<close>). The hash of the
    \<^verbatim>\<open>rustc-hash\<close> crate is an argument.
  \<^item> Dispatcher. \<open>All_Senders\<close> (\<^verbatim>\<open>all_senders.rs\<close>): the task that owns the links and the routing table. A channel is
    an identity, and whether it is alive an argument of each step.
  \<^item> Links. \<open>Legacy_Tcp\<close> (frames, and the sending and receiving loops over a socket that may fail anywhere),
    \<open>Link_Session\<close> (both handshakes, and two connected nodes as a state machine whose events come in any
    order: posts, turns of the four tasks, bytes carried over, failures), \<open>Link_Progress\<close> (\<^verbatim>\<open>legacy_tcp.rs\<close>).
  \<^item> Nodes. \<open>Mesh_Node\<close> and \<open>Mesh_Routing\<close> (the packet loop of \<^verbatim>\<open>run_meshnode\<close>), \<open>Node_Setup\<close> (its start from a
    configuration on Linux and macOS, and the command line), \<open>Program\<close> (everything from \<^verbatim>\<open>main\<close> on),
    \<open>Background\<close> (the endless tasks with their random delays) (\<^verbatim>\<open>main.rs\<close>); \<open>Logging\<close> (\<^verbatim>\<open>log.rs\<close>, and what the
    packet loop logs).
  \<^item> The mesh. \<open>Mesh_Network\<close> puts any number of nodes together as a step relation: each has the state of its packet
    loop and of its dispatcher and the queue between them; packets on links arrive in any order or are lost.
    \<open>Mesh_Delivery\<close> has what follows for routes and for an IP packet on its way, \<open>Mesh_Rest\<close> that a mesh left alone
    comes to rest.
  \<^item> Devices. \<open>Tuntap\<close> (the tasks behind a TUN device, the commands, the route creator), \<open>Tun_Setup\<close> (opening)
    (\<^verbatim>\<open>linux_tuntap.rs\<close>, \<^verbatim>\<open>mac_tuntap.rs\<close>); \<open>Wintun\<close> and \<open>Windows_Tuntap\<close> (\<^verbatim>\<open>wintun.rs\<close>, \<^verbatim>\<open>windows_tuntap.rs\<close>, which
    are from an older version that does not compile and are modelled as written).
  \<^item> Runtime. \<open>Sleep_Store\<close> (timers), \<open>Wake_Pipe\<close>, \<open>Fd_Poller\<close> (descriptors), \<open>Executor\<close> (tasks, and one turn
    of \<^verbatim>\<open>run_forever\<close> as a function), \<open>Executor_Threads\<close> (the loop as a state machine interleaved with threads whose
    wakes are three steps each), \<open>Futures\<close> (poll functions of the futures and combinators), \<open>Thread_Future\<close>
    (\<^verbatim>\<open>fn_thread_future\<close>), \<open>Descriptors\<close> (descriptors, sockets, \<^verbatim>\<open>connect\<close>), \<open>Arc_Fd\<close> (shared ownership of
    descriptors) (\<^verbatim>\<open>leo_async.rs\<close>).
  \<^item> \<open>Prelude\<close> holds the machine types, byte strings, the outcome type \<open>exec\<close>, in which panics and endless loops
    are values, and the lemma collections all theories use.

  \<^bold>\<open>Conventions.\<close> A Rust struct is a record, an enum a datatype; a function that changes state returns the new state; a
  panic is \<open>Panic\<close>, an \<^verbatim>\<open>Err\<close> the left side of a sum. What the code only calls (system calls, other processes,
  the crates \<^verbatim>\<open>json\<close>, \<^verbatim>\<open>rustc-hash\<close>, \<^verbatim>\<open>nix\<close>, \<^verbatim>\<open>tun-rs\<close>, \<^verbatim>\<open>chrono\<close>, the library \<^verbatim>\<open>wintun.dll\<close>) is an argument.
  Contracts between parts are locales interpreted by the model: a keyed and a byte permutation, a stream cipher, a duplicate filter, a routing table,
  a heap, a pipe, a future that always leaves a wake-up behind, and a pair of such futures.

  \<^bold>\<open>What is shown.\<close>
  \<^item> Links: between connected nodes, under every interleaving, what one end delivers is a prefix of what the other
    posted, and everything arrives when both ends stay up; a frame is accepted exactly if it was sealed under the
    session keys and in step; a connection is registered only for a peer with a configured key; a peer with a wrong
    key is dropped.
  \<^item> The mesh: in every reachable state of a network of nodes the routing tables have no loop and every route ends at a
    node that announced the address; a packet read from a TUN device reaches, hop by hop and unchanged, the
    TUN device of such a node when the nodes on the route are ready for it; and when nobody sends any more, everything
    under way dies out.
  \<^item> Routing: an IP packet leaves unchanged over the link on which the newest announcement of its address arrived
    first; packets of others are flooded at most once while the filter remembers them; the filter implements a window
    of distinct hashes; an announcement is sent to every link, carried one hop, learnt and flooded on, and announcements
    stay fresh under bounded lateness and clock skew.
  \<^item> Robustness: the packet loop survives every packet but the short IP packets that make it panic, which are
    characterised exactly; what it drops it reports; the Linux reader posts exactly the complete IP packets it reads,
    the macOS device behaves like it up to failed writes, and the outcome of the Windows thread is given for all
    packets.
  \<^item> Runtime: no wake-up is lost, tasks are polled in the order in which they were woken, the executor never blocks
    while a task waits, the poller loses no registration, timers that are due run, timeouts fire, the result of
    a thread reaches the task that waits for it, descriptors are open exactly as long as a handle is held, and the
    loop goes on after the last task, so that a command that has printed its result does not exit.
  \<^item> Primitives: the permutation is a bijection, the keystream is what the cipher should be, every piece
    of the seed counts, random delays stay within their bounds, addresses lie in their prefix and print and parse back, the
    command \<^verbatim>\<open>name-to-ipv6\<close> prints the address a node of that name has, and the unit tests pass.

  \<^bold>\<open>Bounds and fuel.\<close> There is no fuel: the loops of the program are recursive functions with a measure, functions of the
  list of events or answers they consume, or step relations. The one loop that may not end, the search for an
  address, is a partial function, and \<open>from_node_name_returns_iff\<close> says when it returns. That a mesh comes to rest is shown for
  finitely many nodes and as many hashes as the duplicate filters hold, 16384 in the program. Frame lengths are
  16-bit, time stamps 64-bit; the wait of the executor is a wrapping 32-bit integer.

  \<^bold>\<open>Not modelled.\<close> The .NET port is another program. Reading and parsing the JSON file belongs to a crate, and the model
  starts from what its accessors return. Floating point appears only where the code uses it, exactly rounded.
  Memory orderings of the atomics are those of sequentially consistent interleaving. The messages logged outside the
  packet loop are left out.
\<close>

section \<open>From the announcing task to the neighbour's routing table\<close>

text \<open>A packet posted at either end of a connection in use arrives behind those posted before.\<close>

lemma post_delivered:
  assumes "establish sys1 sys2 key keys room1 room2 rng1 rng2 = Inr n"
    and "no_collision keys key (fst (gen_iv rng1))"
    and "\<forall>s. \<forall>q \<in> set (posted s events). length q \<le> 65535" and "length p \<le> 65535" and "p \<noteq> []"
    and "lk_open (net_run events n s)" and "lk_open (net_run events n (other s))"
    and "frame_bytes (lk_outbox (net_run events n s) @ [p]) \<le> room (lk_writer (net_run events n s))"
  shows "\<exists>more. set more \<subseteq> {SendTurn s, RecvTurn (other s)} \<union> range (Carry s) \<and>
    lk_delivered (net_run (events @ [Post s p] @ more) n (other s)) = posted s events @ [p]"
proof -
  have run: "net_run (events @ [Post s p]) n = (net_run events n)(s := enqueue p (net_run events n s))"
    by (simp add: net_run_append) (simp add: net_run_def)
  have "\<exists>more. set more \<subseteq> {SendTurn s, RecvTurn (other s)} \<union> range (Carry s) \<and>
      lk_delivered (net_run ((events @ [Post s p]) @ more) n (other s)) = posted s (events @ [Post s p])"
    by (rule session_delivers_all [OF assms(1,2)])
      (use assms(3-8) in \<open>auto simp: run enqueue_def posted_append\<close>)
  then show ?thesis using assms(5) by (simp add: posted_append)
qed

text \<open>
  C10. An announcement crosses the mesh by one hop. What the announcing task of a node hands to its dispatcher is sent
  to every registered link, once per registration and to nothing else. Over a connection that has been in use, in
  either direction, with both ends up and room in the socket, turns of the link's tasks deliver exactly that packet
  behind those posted before it. And a neighbour whose clock is within three minutes of the time stamp, and
  that has not seen the packet, posts the route to the announcing node over that link to its dispatcher, which from
  then on has an entry for it at least as new, and floods the packet on unchanged.
\<close>

theorem announcement_reaches_neighbour:
  assumes "(t, m) \<in> set (announce_name_task name ts start)"
    and "establish sys1 sys2 key keys room1 room2 rng1 rng2 = Inr n"
    and "no_collision keys key (fst (gen_iv rng1))"
    and "\<forall>s. \<forall>q \<in> set (posted s events). length q \<le> 65535" and "length name \<le> 65526"
    and "lk_open (net_run events n s)" and "lk_open (net_run events n (other s))"
    and "frame_bytes (lk_outbox (net_run events n s) @ [name_announcement (millis t) name]) \<le>
      room (lk_writer (net_run events n s))"
    and "from_utf8 name" and "from_node_name name = Some addr"
    and "T \<le> t + 180 * 10 ^ 9" and "t \<le> T + 180 * 10 ^ 9" and "t div 1000000 < 2 ^ 64" and "T div 1000000 < 2 ^ 64"
    and "\<not> seen_contains fx (seen_packets node) (name_announcement (millis t) name)"
    and "route_adder node \<noteq> Some False"
  shows "snd (all_senders_step ok m st) = map (\<lambda>link. (link, name_announcement (millis t) name)) (senders st) \<and>
    (\<exists>more. set more \<subseteq> {SendTurn s, RecvTurn (other s)} \<union> range (Carry s) \<and>
      lk_delivered (net_run (events @ [Post s (name_announcement (millis t) name)] @ more) n (other s)) =
        posted s events @ [name_announcement (millis t) name]) \<and>
    (\<exists>acts. handle_packet fx (millis T) (name_announcement (millis t) name) sndr node =
        (Post_All_Senders (AddFastestTo (millis t) addr sndr) # acts,
         Done (note_seen fx (name_announcement (millis t) name) node)) \<and>
      Post_All_Senders (SendToAll (name_announcement (millis t) name)) \<in> set acts) \<and>
    (\<exists>ms link. fastest_to_address (fst (all_senders_step ok (AddFastestTo (millis t) addr sndr) st')) addr = Some (ms, link) \<and>
      millis t \<le> ms)"
proof -
  let ?p = "name_announcement (millis t) name"
  have m: "m = SendToAll ?p"
    using background_work assms(1) unfolding announce_name_task_def send_all_def by fastforce
  have len: "length ?p = 9 + length name" by (simp add: name_announcement_def)
  then have p: "?p \<noteq> []" "length ?p \<le> 65535" using assms(5) by auto
  have "abs_diff (millis T) (millis t) \<le> ignore_after" using assms(11-14) by (intro millis_close)
  then have "accepts fx (millis T) ?p node"
    using assms(15) len by (simp add: accepts_def) (simp add: name_announcement_def packet_ms_def)
  then have "handle_packet fx (millis T) ?p sndr node =
      (Post_All_Senders (AddFastestTo (millis t) addr sndr) #
       (if route_adder node = None then [] else [Post_Route addr]) @ [Post_All_Senders (SendToAll ?p)],
       Done (note_seen fx ?p node))"
    by (rule learn_name [OF assms(9,10) _ assms(16)])
  moreover have "\<exists>ms link. fastest_to_address (add_fastest (millis t) addr sndr st') addr = Some (ms, link) \<and> millis t \<le> ms"
    by (auto simp: rt.learn_cases split: option.split)
  ultimately show ?thesis using post_delivered [OF assms(2-4) p(2,1) assms(6-8)] by (simp add: m)
qed

theorem announcement_reaches_neighbour_witness:
  "\<exists>n more acts. establish (\<lambda>c. True) (\<lambda>c. True) [1, 2] [[1, 2]] 64 64 Rng_new Rng_new = Inr n \<and>
    lk_delivered (net_run ([Post Dialer (name_announcement (millis 0) [0x72, 0x31, 0x32])] @ more) n Acceptor) =
      [name_announcement (millis 0) [0x72, 0x31, 0x32]] \<and>
    handle_packet (\<lambda>_. 0) (millis 1000000000) (name_announcement (millis 0) [0x72, 0x31, 0x32]) 5 sample_node =
      (Post_All_Senders (AddFastestTo (millis 0) (V6 0xfd 0x00 0x61 0x03 0x47 0xb2 0xcb 0x16
       0x25 0x3b 0x5c 0x59 0x34 0x94 0x52 0xf5) 5) # acts,
       Done (note_seen (\<lambda>_. 0) (name_announcement (millis 0) [0x72, 0x31, 0x32]) sample_node))"
proof -
  let ?p = "name_announcement (millis 0) [0x72, 0x31, 0x32]"
  have k: "no_collision [[1, 2]] [1, 2] (fst (gen_iv Rng_new))" by (simp add: no_collision_def)
  obtain n where n: "establish (\<lambda>c. True) (\<lambda>c. True) [1, 2] [[1, 2]] 64 64 Rng_new Rng_new = Inr n"
    using establish_Inr [OF _ _ _ _ _ k refl refl, of "\<lambda>c. True" "\<lambda>c. True" 64 64] by auto
  have turn: "(0, SendToAll ?p) \<in> set (announce_name_task [0x72, 0x31, 0x32] [(0, Rng_new)] 0)"
    by (simp add: announce_name_task_def send_all_def)
  have new: "\<not> seen_contains (\<lambda>_. 0) (seen_packets sample_node) p" for p
    by (simp add: sample_node_def seen_contains_def SeenPackets_new_def)
  have route: "route_adder sample_node \<noteq> Some False" by (simp add: sample_node_def)
  have fresh: "net_run [] n = n" "lk_open (n Dialer)" "lk_open (n Acceptor)" "lk_outbox (n Dialer) = []"
      "room (lk_writer (n Dialer)) = 32"
    using establish_fresh [OF n] by (simp_all add: net_run_def)
  have "frame_bytes [?p] \<le> 32" by (simp add: frame_bytes_def name_announcement_def)
  then show ?thesis
    using announcement_reaches_neighbour [OF turn n k _ _ _ _ _ _ from_node_name_r12 _ _ _ _ new route,
        of "[]" Dialer 1000000000 "\<lambda>_. True" "\<lparr>senders = [0], fastest_to_address = Map.empty\<rparr>" 5 all_senders_init] n
    by (auto simp: fresh)
qed

end
